(* ===== verification/Recall_Prelude.thy ===== *)
theory Recall_Prelude
  imports Main "HOL-Library.AList" "HOL-Library.Monad_Syntax"
    "HOL-Library.Word" "HOL-Library.Signed_Division" "HOL-Library.Code_Target_Numeral"
begin

section \<open>Prelude: the Rust vocabulary shared by every component\<close>

text \<open>
  The types and standard-library operations the Recall crates use, and the lemmas about them that
  the component theories share.

  \<^item> \<open>Bytes\<close>, \<open>Vec<u8>\<close> and \<open>&[u8]\<close> are \<open>bytes\<close>, lists of 8-bit characters.
  \<^item> \<open>i64\<close> is \<open>int\<close>, with the range check of every checked or saturating operation written
    out; \<open>usize\<close> and \<open>u64\<close> are \<open>nat\<close> in the same way (64-bit target, \<open>usize = u64\<close>).
  \<^item> a panic (a failed \<open>assert\<close>, \<open>expect\<close> or index, or a call of \<open>fatal\<close>) is the value
    \<open>None\<close> of an \<open>option\<close>; \<open>Result<T, E>\<close> is the sum \<open>'e + 't\<close>, \<open>Inl\<close> for the error.
    A function that can do both returns \<open>('e + 't) option\<close>.
  \<^item> \<open>HashMap\<close> is an association list with distinct keys; the interface the code relies on is the
    locale \<open>hash_map\<close>, interpreted on the library's \<open>AList\<close> operations.
\<close>

named_theorems machine_defs \<open>definitions of the machine-integer operations\<close>
named_theorems hm_simps \<open>lookup and size of updated hash maps\<close>

subsection \<open>Bytes and machine integers\<close>

type_synonym bytes = string

definition i64_min :: int where "i64_min = - 9223372036854775808"

definition i64_max :: int where "i64_max = 9223372036854775807"

definition u64_max :: nat where "u64_max = 18446744073709551615"

definition usize_max :: nat where "usize_max = 18446744073709551615"

definition u32_max :: nat where "u32_max = 4294967295"

definition in_i64 :: "int \<Rightarrow> bool" where
  "in_i64 n \<longleftrightarrow> i64_min \<le> n \<and> n \<le> i64_max"

definition i64_checked_add :: "int \<Rightarrow> int \<Rightarrow> int option" where
  "i64_checked_add a b = (if in_i64 (a + b) then Some (a + b) else None)"

definition i64_checked_sub :: "int \<Rightarrow> int \<Rightarrow> int option" where
  "i64_checked_sub a b = (if in_i64 (a - b) then Some (a - b) else None)"

definition i64_checked_mul :: "int \<Rightarrow> int \<Rightarrow> int option" where
  "i64_checked_mul a b = (if in_i64 (a * b) then Some (a * b) else None)"

definition i64_saturating_sub :: "int \<Rightarrow> int \<Rightarrow> int" where
  "i64_saturating_sub a b = max i64_min (min i64_max (a - b))"

text \<open>The cast \<open>n as i64\<close> of an unsigned 64-bit value wraps into two's complement.\<close>

definition as_i64 :: "nat \<Rightarrow> int" where
  "as_i64 n = (if n < 9223372036854775808 then int n else int n - 18446744073709551616)"

definition usize_checked_add :: "nat \<Rightarrow> nat \<Rightarrow> nat option" where
  "usize_checked_add a b = (if a + b \<le> usize_max then Some (a + b) else None)"

definition usize_checked_mul :: "nat \<Rightarrow> nat \<Rightarrow> nat option" where
  "usize_checked_mul a b = (if a * b \<le> usize_max then Some (a * b) else None)"

definition usize_saturating_add :: "nat \<Rightarrow> nat \<Rightarrow> nat" where
  "usize_saturating_add a b = min usize_max (a + b)"

definition usize_saturating_mul :: "nat \<Rightarrow> nat \<Rightarrow> nat" where
  "usize_saturating_mul a b = min usize_max (a * b)"

definition u64_checked_add :: "nat \<Rightarrow> nat \<Rightarrow> nat option" where
  "u64_checked_add a b = (if a + b \<le> u64_max then Some (a + b) else None)"

definition u64_saturating_add :: "nat \<Rightarrow> nat \<Rightarrow> nat" where
  "u64_saturating_add a b = min u64_max (a + b)"

declare i64_min_def [machine_defs] i64_max_def [machine_defs] u64_max_def [machine_defs]
  usize_max_def [machine_defs] u32_max_def [machine_defs] in_i64_def [machine_defs]
  i64_checked_add_def [machine_defs] i64_checked_sub_def [machine_defs]
  i64_checked_mul_def [machine_defs] i64_saturating_sub_def [machine_defs]
  as_i64_def [machine_defs]
  usize_checked_add_def [machine_defs] usize_checked_mul_def [machine_defs]
  usize_saturating_add_def [machine_defs] usize_saturating_mul_def [machine_defs]
  u64_checked_add_def [machine_defs] u64_saturating_add_def [machine_defs]

subsection \<open>Slices and vectors\<close>

text \<open>\<open>xs[i]\<close> panics out of range; \<open>xs.get(i)\<close> is the same function read as a \<open>Option\<close>.\<close>

definition idx :: "'a list \<Rightarrow> nat \<Rightarrow> 'a option" where
  "idx xs i = (if i < length xs then Some (xs ! i) else None)"

definition vec_swap :: "'a list \<Rightarrow> nat \<Rightarrow> nat \<Rightarrow> 'a list option" where
  "vec_swap xs i j =
     (if i < length xs \<and> j < length xs then Some (xs[i := xs ! j, j := xs ! i]) else None)"

definition swap_remove :: "'a list \<Rightarrow> nat \<Rightarrow> 'a list option" where
  "swap_remove xs i = (if i < length xs then Some (butlast (xs[i := last xs])) else None)"

text \<open>\<open>&xs[i..j]\<close>: panics unless \<open>i <= j <= xs.len()\<close>.\<close>

definition slice :: "'a list \<Rightarrow> nat \<Rightarrow> nat \<Rightarrow> 'a list option" where
  "slice xs i j = (if i \<le> j \<and> j \<le> length xs then Some (take (j - i) (drop i xs)) else None)"

subsection \<open>ASCII and decimal text\<close>

definition byte_of :: "char \<Rightarrow> nat" where
  "byte_of c = of_char c"

definition is_ascii_digit :: "char \<Rightarrow> bool" where
  "is_ascii_digit c \<longleftrightarrow> 48 \<le> byte_of c \<and> byte_of c \<le> 57"

definition to_ascii_lowercase :: "char \<Rightarrow> char" where
  "to_ascii_lowercase c = (if 65 \<le> byte_of c \<and> byte_of c \<le> 90 then char_of (byte_of c + 32) else c)"

definition eq_ignore_ascii_case :: "bytes \<Rightarrow> bytes \<Rightarrow> bool" where
  "eq_ignore_ascii_case a b \<longleftrightarrow> map to_ascii_lowercase a = map to_ascii_lowercase b"

definition crlf :: bytes where
  "crlf = [CHR 0x0D, CHR 0x0A]"

definition digit_char :: "nat \<Rightarrow> char" where
  "digit_char d = char_of (48 + d)"

fun nat_to_string :: "nat \<Rightarrow> bytes" where
  "nat_to_string n =
     (if n < 10 then [digit_char n] else nat_to_string (n div 10) @ [digit_char (n mod 10)])"

declare nat_to_string.simps [simp del]

definition i64_to_string :: "int \<Rightarrow> bytes" where
  "i64_to_string n = (if n < 0 then CHR ''-'' # nat_to_string (nat (- n)) else nat_to_string (nat n))"

text \<open>The digits of a decimal number, most significant first; \<open>None\<close> on any other byte.\<close>

fun digits_value :: "nat \<Rightarrow> bytes \<Rightarrow> nat option" where
  "digits_value acc [] = Some acc"
| "digits_value acc (c # cs) =
     (if is_ascii_digit c then digits_value (acc * 10 + (byte_of c - 48)) cs else None)"

text \<open>
  \<open>str::parse::<i64>\<close>: an optional sign, at least one digit, nothing else, and a value in range.
\<close>

definition parse_i64 :: "bytes \<Rightarrow> int option" where
  "parse_i64 s =
     (let negative = (s \<noteq> [] \<and> hd s = CHR ''-'');
          digits = (if s \<noteq> [] \<and> (hd s = CHR ''-'' \<or> hd s = CHR ''+'') then tl s else s)
      in if digits = [] then None
         else case digits_value 0 digits of
                None \<Rightarrow> None
              | Some n \<Rightarrow> let v = (if negative then - int n else int n) in
                  if in_i64 v then Some v else None)"

text \<open>\<open>str::parse::<usize>\<close>: as above, with no minus sign.\<close>

definition parse_usize :: "bytes \<Rightarrow> nat option" where
  "parse_usize s =
     (let digits = (if s \<noteq> [] \<and> hd s = CHR ''+'' then tl s else s)
      in if digits = [] then None
         else case digits_value 0 digits of
                None \<Rightarrow> None
              | Some n \<Rightarrow> if n \<le> usize_max then Some n else None)"

text \<open>Decimal text denotes the number it was printed from, and holds digits only.\<close>

lemma byte_of_digit: "d < 10 \<Longrightarrow> byte_of (digit_char d) = 48 + d"
  by (simp add: byte_of_def digit_char_def)

lemma digit_char_digit: "d < 10 \<Longrightarrow> is_ascii_digit (digit_char d)"
  by (simp add: is_ascii_digit_def byte_of_digit)

lemma digit_not_newline: "is_ascii_digit c \<Longrightarrow> c \<noteq> CHR 0x0D \<and> c \<noteq> CHR 0x0A"
  by (auto simp: is_ascii_digit_def byte_of_def)

lemma digit_not_sign: "is_ascii_digit c \<Longrightarrow> c \<noteq> CHR ''-'' \<and> c \<noteq> CHR ''+''"
  by (auto simp: is_ascii_digit_def byte_of_def)

lemma nat_to_string_nonempty [simp]: "nat_to_string n \<noteq> []"
  by (subst nat_to_string.simps) simp

lemma nat_to_string_digits: "c \<in> set (nat_to_string n) \<Longrightarrow> is_ascii_digit c"
proof (induction n rule: nat_to_string.induct)
  case (1 n)
  then show ?case
    by (subst (asm) (2) nat_to_string.simps) (auto simp: digit_char_digit split: if_splits)
qed

lemma digits_value_append:
  "digits_value m (xs @ ys) = Option.bind (digits_value m xs) (\<lambda>n. digits_value n ys)"
  by (induction m xs rule: digits_value.induct) simp_all

lemma digits_value_nat_to_string [simp]: "digits_value 0 (nat_to_string n) = Some n"
proof (induction n rule: nat_to_string.induct)
  case (1 n)
  then show ?case
    by (subst nat_to_string.simps) (simp add: digits_value_append digit_char_digit byte_of_digit)
qed

lemma nat_to_string_inj [simp]: "nat_to_string m = nat_to_string n \<longleftrightarrow> m = n"
  by (metis digits_value_nat_to_string option.inject)

lemma length_nat_to_string_le: "0 < k \<Longrightarrow> n < 10 ^ k \<Longrightarrow> length (nat_to_string n) \<le> k"
proof (induction n arbitrary: k rule: nat_to_string.induct)
  case (1 n)
  show ?case
  proof (cases "n < 10")
    case True
    then show ?thesis using 1(2) by (subst nat_to_string.simps) simp
  next
    case False
    obtain j where j: "k = Suc j" using 1(2) by (cases k) auto
    have "0 < j" using False 1(3) j by (cases j) simp_all
    have "n div 10 < 10 ^ j" using 1(3) j by (simp add: less_mult_imp_div_less mult.commute)
    then show ?thesis using 1(1) False j \<open>0 < j\<close> by (subst nat_to_string.simps) simp
  qed
qed

lemma hd_nat_to_string: "hd (nat_to_string n) \<noteq> CHR ''-''" "hd (nat_to_string n) \<noteq> CHR ''+''"
  using nat_to_string_digits [of "hd (nat_to_string n)" n] digit_not_sign by auto

lemma parse_i64_to_string: "in_i64 n \<Longrightarrow> parse_i64 (i64_to_string n) = Some n"
  using hd_nat_to_string by (auto simp: parse_i64_def i64_to_string_def Let_def)

lemma i64_to_string_inj: "i64_to_string m = i64_to_string n \<longleftrightarrow> m = n"
proof
  assume eq: "i64_to_string m = i64_to_string n"
  have hd: "hd (i64_to_string k) = CHR ''-'' \<longleftrightarrow> k < 0" for k
    using hd_nat_to_string(1) [of "nat k"] by (simp add: i64_to_string_def)
  have "m < 0 \<longleftrightarrow> n < 0" using hd [of m] hd [of n] eq by simp
  then show "m = n" using eq by (auto simp: i64_to_string_def split: if_splits)
qed simp

lemma i64_to_string_no_newline: "c \<in> set (i64_to_string n) \<Longrightarrow> c \<noteq> CHR 0x0D \<and> c \<noteq> CHR 0x0A"
  using nat_to_string_digits digit_not_newline by (auto simp: i64_to_string_def split: if_splits)

subsection \<open>The allocator\<close>

text \<open>
  \<open>try_reserve\<close> may fail at the allocator's discretion. Each call site is named, and an allocator
  says of each site and size whether the reservation succeeds.
\<close>

datatype alloc_site = KeyTable | TimerHeap | TimerPositions | CommandEffects | ReplyBuffer

type_synonym allocator = "alloc_site \<Rightarrow> nat \<Rightarrow> bool"

subsection \<open>Hash maps\<close>

text \<open>
  What the code relies on of \<open>HashMap\<close>. Iteration order is not part of it: where the code iterates
  over a map, the model follows the order of the association list and a lemma shows that the order
  does not matter.
\<close>

locale hash_map =
  fixes wf :: "'m \<Rightarrow> bool"
    and get :: "'m \<Rightarrow> 'k \<Rightarrow> 'v option"
    and insert_key :: "'k \<Rightarrow> 'v \<Rightarrow> 'm \<Rightarrow> 'm"
    and remove_key :: "'k \<Rightarrow> 'm \<Rightarrow> 'm"
    and len :: "'m \<Rightarrow> nat"
  assumes get_insert: "get (insert_key k v m) = (get m)(k \<mapsto> v)"
    and get_remove: "get (remove_key k m) = (get m)(k := None)"
    and wf_insert: "wf m \<Longrightarrow> wf (insert_key k v m)"
    and wf_remove: "wf m \<Longrightarrow> wf (remove_key k m)"
    and finite_get: "finite (dom (get m))"
    and len_card: "wf m \<Longrightarrow> len m = card (dom (get m))"
begin

lemma len_insert:
  assumes "wf m"
  shows "len (insert_key k v m) = (if get m k = None then Suc (len m) else len m)"
  using assms finite_get [of m]
  by (auto simp: len_card wf_insert get_insert domIff insert_absorb card_insert_if)

lemma len_remove:
  assumes "wf m"
  shows "len (remove_key k m) = (if get m k = None then len m else len m - 1)"
  using assms finite_get [of m]
  by (auto simp: len_card wf_remove get_remove domIff card_Diff_singleton_if)

lemma len_eq:
  assumes "wf m" and "wf m'" and "get m = get m'"
  shows "len m = len m'"
  using assms by (simp add: len_card)

end

abbreviation hm_wf :: "('k \<times> 'v) list \<Rightarrow> bool" where
  "hm_wf m \<equiv> distinct (map fst m)"

interpretation hm: hash_map hm_wf map_of AList.update AList.delete length
proof unfold_locales
  fix m :: "('k \<times> 'v) list"
  assume "hm_wf m"
  then have "card (set (map fst m)) = length m"
    using distinct_card [of "map fst m"] by simp
  then show "length m = card (dom (map_of m))"
    by (simp add: dom_map_of_conv_image_fst)
qed (auto simp: update_conv' delete_conv' distinct_update distinct_delete finite_dom_map_of)

declare hm.get_insert [hm_simps] hm.get_remove [hm_simps]
  hm.len_insert [hm_simps] hm.len_remove [hm_simps]

subsection \<open>Patching a map\<close>

text \<open>
  A patch lists keys with their new value, or \<open>None\<close> to remove them; \<open>override\<close> is its meaning on
  lookups. \<open>alist_total\<close> adds up a weight over a table: with weight 1 the number of keys, with the
  length of key and value the payload.
\<close>

fun patch :: "('k \<times> 'v option) list \<Rightarrow> ('k \<times> 'v) list \<Rightarrow> ('k \<times> 'v) list" where
  "patch [] m = m"
| "patch ((k, Some v) # rest) m = patch rest (AList.update k v m)"
| "patch ((k, None) # rest) m = patch rest (AList.delete k m)"

definition override :: "('k \<rightharpoonup> 'v) \<Rightarrow> ('k \<times> 'v option) list \<Rightarrow> ('k \<rightharpoonup> 'v)" where
  "override m eff = (\<lambda>k. case map_of eff k of None \<Rightarrow> m k | Some x \<Rightarrow> x)"

definition alist_total :: "('k \<Rightarrow> 'v \<Rightarrow> int) \<Rightarrow> ('k \<times> 'v) list \<Rightarrow> int" where
  "alist_total f m = sum_list (map (\<lambda>(k, v). f k v) m)"

definition weight :: "('k \<Rightarrow> 'v \<Rightarrow> int) \<Rightarrow> 'k \<Rightarrow> 'v option \<Rightarrow> int" where
  "weight f k x = (case x of None \<Rightarrow> 0 | Some v \<Rightarrow> f k v)"

lemma weight_simps [simp]: "weight f k None = 0" "weight f k (Some v) = f k v"
  by (simp_all add: weight_def)

lemma override_Nil [simp]: "override m [] = m"
  by (simp add: override_def)

lemma override_single [simp]: "override m [(k, x)] = m(k := x)"
  by (auto simp: override_def)

lemma hm_wf_patch: "hm_wf m \<Longrightarrow> hm_wf (patch eff m)"
  by (induction eff m rule: patch.induct) (auto simp: distinct_update distinct_delete)

lemma map_of_patch:
  assumes "hm_wf eff"
  shows "map_of (patch eff m) = override (map_of m) eff"
  using assms
proof (induction eff m rule: patch.induct)
  case (2 k v rest m)
  then have "map_of rest k = None" by (simp add: map_of_eq_None_iff)
  with 2 show ?case by (auto simp: override_def hm_simps split: option.splits)
next
  case (3 k rest m)
  then have "map_of rest k = None" by (simp add: map_of_eq_None_iff)
  with 3 show ?case by (auto simp: override_def hm_simps split: option.splits)
qed simp

lemma alist_total_update:
  assumes "hm_wf m"
  shows "alist_total f (AList.update k v m) = alist_total f m - weight f k (map_of m k) + f k v"
  using assms by (induction m) (auto simp: alist_total_def)

lemma delete_fresh: "k \<notin> fst ` set m \<Longrightarrow> AList.delete k m = m"
  by (induction m) auto

lemma alist_total_delete:
  assumes "hm_wf m"
  shows "alist_total f (AList.delete k m) = alist_total f m - weight f k (map_of m k)"
  using assms by (induction m) (auto simp: alist_total_def delete_fresh)

lemma alist_total_patch:
  assumes "hm_wf eff" and "hm_wf m"
  shows "alist_total f (patch eff m) =
    alist_total f m + sum_list (map (\<lambda>(k, x). weight f k x - weight f k (map_of m k)) eff)"
  using assms
proof (induction eff m rule: patch.induct)
  case (2 k v rest m)
  have "sum_list (map (\<lambda>(k', x). weight f k' x - weight f k' (map_of (AList.update k v m) k')) rest) =
    sum_list (map (\<lambda>(k', x). weight f k' x - weight f k' (map_of m k')) rest)"
    using 2(2) by (intro arg_cong [where f = sum_list] map_cong) (force simp: hm_simps)+
  with 2 show ?case by (simp add: alist_total_update distinct_update)
next
  case (3 k rest m)
  have "sum_list (map (\<lambda>(k', x). weight f k' x - weight f k' (map_of (AList.delete k m) k')) rest) =
    sum_list (map (\<lambda>(k', x). weight f k' x - weight f k' (map_of m k')) rest)"
    using 3(2) by (intro arg_cong [where f = sum_list] map_cong) (force simp: hm_simps)+
  with 3 show ?case by (simp add: alist_total_delete distinct_delete)
qed simp

lemma alist_total_nonneg: "(\<And>k v. 0 \<le> f k v) \<Longrightarrow> 0 \<le> alist_total f m"
  by (induction m) (auto simp: alist_total_def add_nonneg_nonneg)

lemma alist_total_one: "alist_total (\<lambda>_ _. 1) m = int (length m)"
  by (induction m) (auto simp: alist_total_def)

lemma alist_total_ge:
  assumes "hm_wf m" and "\<And>k v. 0 \<le> f k v"
  shows "weight f k (map_of m k) \<le> alist_total f m"
  using alist_total_delete [OF assms(1), of f k] alist_total_nonneg [of f "AList.delete k m"] assms(2)
  by simp

end
