(* ===== verification/Resp_Protocol.thy ===== *)
theory Resp_Protocol
  imports Recall_Prelude
begin

section \<open>The RESP2 protocol (crates/recall-protocol/src/lib.rs)\<close>

text \<open>
  The bounded incremental request decoder and the reply encoder. The decoder keeps its place in a
  partial frame (\<open>cursor\<close>, \<open>scan\<close>, the header values seen so far, the spans of the finished
  arguments) so that more input resumes where the last call stopped. The loop of \<open>decode\<close> is cut
  into its four consecutive stages, one definition each; a stage answers \<open>Inr False\<close> where the
  source returns \<open>Ok(None)\<close> to wait for more input.
\<close>

subsection \<open>Limits and decoder state\<close>

record Limits =
  max_frame_bytes :: nat
  max_bulk_bytes :: nat
  max_arguments :: nat
  max_header_bytes :: nat

definition Limits_default :: Limits where
  "Limits_default = \<lparr>max_frame_bytes = 1024 * 1024, max_bulk_bytes = 1024 * 1024 - 64,
     max_arguments = 1024, max_header_bytes = 24\<rparr>"

type_synonym ProtocolError = bytes

definition Limits_validate :: "Limits \<Rightarrow> ProtocolError + unit" where
  "Limits_validate l =
     (if max_frame_bytes l < 16
         \<or> max_bulk_bytes l > max_frame_bytes l
         \<or> max_arguments l = 0
         \<or> max_header_bytes l < 4
         \<or> max_header_bytes l > max_frame_bytes l
      then Inl ''invalid protocol limits''
      else Inr ())"

record Request =
  arguments :: "bytes list"
  wire_bytes :: nat

record Decoder =
  d_limits :: Limits
  cursor :: nat
  scan :: nat
  argument_count :: "nat option"
  bulk_length :: "nat option"
  spans :: "(nat \<times> nat) list"

definition Decoder_new :: "Limits \<Rightarrow> ProtocolError + Decoder" where
  "Decoder_new l =
     (case Limits_validate l of
        Inl e \<Rightarrow> Inl e
      | Inr _ \<Rightarrow> Inr \<lparr>d_limits = l, cursor = 0, scan = 0, argument_count = None,
          bulk_length = None, spans = []\<rparr>)"

subsection \<open>Headers\<close>

function header_end :: "Decoder \<Rightarrow> bytes \<Rightarrow> ((ProtocolError + nat option) \<times> Decoder) option" where
  "header_end d input =
     (if scan d + 1 < length input then
        (if scan d < cursor d then None
         else if scan d - cursor d + 2 > max_header_bytes (d_limits d)
              \<or> scan d + 2 > max_frame_bytes (d_limits d)
         then Some (Inl ''protocol header exceeds configured limit'', d)
         else if input ! scan d = CHR 0x0D \<and> input ! (scan d + 1) = CHR 0x0A
         then Some (Inr (Some (scan d)), d)
         else if input ! scan d = CHR 0x0A
         then Some (Inl ''invalid protocol line ending'', d)
         else header_end (d\<lparr>scan := scan d + 1\<rparr>) input)
      else if length input - cursor d \<ge> max_header_bytes (d_limits d)
              \<or> length input \<ge> max_frame_bytes (d_limits d)
      then Some (Inl ''unterminated or excessive protocol header'', d)
      else Some (Inr None, d))"
  by pat_completeness auto
termination
  by (relation "measure (\<lambda>(d, input). length input - scan d)") auto

declare header_end.simps [simp del]

fun length_digits :: "nat \<Rightarrow> bytes \<Rightarrow> ProtocolError + nat" where
  "length_digits len [] = Inr len"
| "length_digits len (digit # ds) =
     (if \<not> is_ascii_digit digit then Inl ''invalid RESP2 length''
      else case Option.bind (usize_checked_mul len 10)
                  (\<lambda>v. usize_checked_add v (byte_of digit - 48)) of
             None \<Rightarrow> Inl ''RESP2 length overflow''
           | Some len' \<Rightarrow> length_digits len' ds)"

definition length_header :: "Decoder \<Rightarrow> bytes \<Rightarrow> nat \<Rightarrow> char \<Rightarrow> (ProtocolError + nat) option" where
  "length_header d input end_pos prefix =
     (if end_pos \<le> cursor d + 1 then Some (Inl ''expected a nonnegative RESP2 length'')
      else do {
        c \<leftarrow> idx input (cursor d);
        if c \<noteq> prefix then Some (Inl ''expected a nonnegative RESP2 length'')
        else do {
          ds \<leftarrow> slice input (cursor d + 1) end_pos;
          Some (length_digits 0 ds)
        }
      })"

definition advance_header :: "Decoder \<Rightarrow> nat \<Rightarrow> Decoder" where
  "advance_header d end_pos = d\<lparr>cursor := end_pos + 2, scan := end_pos + 2\<rparr>"

subsection \<open>The stages of decode\<close>

definition decode_array_header :: "Decoder \<Rightarrow> bytes \<Rightarrow> ((ProtocolError + bool) \<times> Decoder) option" where
  "decode_array_header d input =
     (if argument_count d \<noteq> None then Some (Inr True, d)
      else do {
        (r, d) \<leftarrow> header_end d input;
        case r of
          Inl e \<Rightarrow> Some (Inl e, d)
        | Inr None \<Rightarrow> Some (Inr False, d)
        | Inr (Some end_pos) \<Rightarrow> do {
            c \<leftarrow> length_header d input end_pos (CHR ''*'');
            case c of
              Inl e \<Rightarrow> Some (Inl e, d)
            | Inr count \<Rightarrow>
                if count = 0 \<or> count > max_arguments (d_limits d)
                then Some (Inl ''invalid or excessive argument count'', d)
                else Some (Inr True, advance_header (d\<lparr>argument_count := Some count\<rparr>) end_pos)
          }
      })"

definition decode_bulk_header :: "Decoder \<Rightarrow> bytes \<Rightarrow> ((ProtocolError + bool) \<times> Decoder) option" where
  "decode_bulk_header d input =
     (if bulk_length d \<noteq> None then Some (Inr True, d)
      else do {
        (r, d) \<leftarrow> header_end d input;
        case r of
          Inl e \<Rightarrow> Some (Inl e, d)
        | Inr None \<Rightarrow> Some (Inr False, d)
        | Inr (Some end_pos) \<Rightarrow> do {
            c \<leftarrow> length_header d input end_pos (CHR ''$'');
            case c of
              Inl e \<Rightarrow> Some (Inl e, d)
            | Inr len \<Rightarrow>
                if len > max_bulk_bytes (d_limits d)
                then Some (Inl ''bulk argument exceeds configured limit'', d)
                else Some (Inr True, (advance_header d end_pos)\<lparr>bulk_length := Some len\<rparr>)
          }
      })"

definition decode_bulk_body :: "Decoder \<Rightarrow> bytes \<Rightarrow> ((ProtocolError + bool) \<times> Decoder) option" where
  "decode_bulk_body d input = do {
     len \<leftarrow> bulk_length d;
     case Option.bind (usize_checked_add (cursor d) len) (\<lambda>end_pos. usize_checked_add end_pos 2) of
       None \<Rightarrow> Some (Inl ''frame length overflow'', d)
     | Some end_pos \<Rightarrow>
         if end_pos > max_frame_bytes (d_limits d)
         then Some (Inl ''request exceeds configured limit'', d)
         else if length input < end_pos then Some (Inr False, d)
         else do {
           tail \<leftarrow> slice input (end_pos - 2) end_pos;
           if tail \<noteq> crlf then Some (Inl ''bulk argument is not CRLF terminated'', d)
           else Some (Inr True, d\<lparr>spans := spans d @ [(cursor d, end_pos - 2)], cursor := end_pos,
                  scan := end_pos, bulk_length := None\<rparr>)
         }
   }"

fun collect_spans :: "bytes \<Rightarrow> (nat \<times> nat) list \<Rightarrow> bytes list option" where
  "collect_spans input [] = Some []"
| "collect_spans input ((i, j) # rest) = do {
     a \<leftarrow> slice input i j;
     as \<leftarrow> collect_spans input rest;
     Some (a # as)
   }"

text \<open>The request is complete: copy the arguments out and consume the frame (\<open>input.advance\<close>).\<close>

definition decode_finish :: "Decoder \<Rightarrow> bytes \<Rightarrow> (Request \<times> Decoder \<times> bytes) option" where
  "decode_finish d input = do {
     as \<leftarrow> collect_spans input (spans d);
     rest \<leftarrow> (if cursor d \<le> length input then Some (drop (cursor d) input) else None);
     Some (\<lparr>arguments = as, wire_bytes = cursor d\<rparr>,
           d\<lparr>cursor := 0, scan := 0, argument_count := None, spans := []\<rparr>, rest)
   }"

lemma header_end_found:
  "header_end d input = Some (Inr (Some end_pos), d') \<Longrightarrow>
   cursor d \<le> end_pos \<and> end_pos + 1 < length input \<and> d' = d\<lparr>scan := end_pos\<rparr> \<and> scan d \<le> end_pos"
proof (induction d input rule: header_end.induct)
  case (1 d input)
  show ?case
  proof (cases "scan d + 1 < length input \<and> \<not> scan d < cursor d \<and>
      \<not> (scan d - cursor d + 2 > max_header_bytes (d_limits d) \<or> scan d + 2 > max_frame_bytes (d_limits d)) \<and>
      \<not> (input ! scan d = CHR 0x0D \<and> input ! (scan d + 1) = CHR 0x0A) \<and> input ! scan d \<noteq> CHR 0x0A")
    case True
    then have "header_end (d\<lparr>scan := scan d + 1\<rparr>) input = Some (Inr (Some end_pos), d')"
      using 1(2) by (subst (asm) header_end.simps) (simp split: if_splits)
    then show ?thesis using 1(1) True by auto
  next
    case False
    then show ?thesis using 1(2) by (subst (asm) header_end.simps) (auto split: if_splits)
  qed
qed

lemma decode_array_header_cursor:
  assumes "decode_array_header d input = Some (Inr True, d')"
  shows "cursor d \<le> cursor d'"
  using assms
  by (auto simp: decode_array_header_def advance_header_def split: Option.bind_splits sum.splits option.splits if_splits
      dest!: header_end_found)

lemma decode_bulk_header_cursor:
  assumes "decode_bulk_header d input = Some (Inr True, d')"
  shows "cursor d \<le> cursor d'"
  using assms
  by (auto simp: decode_bulk_header_def advance_header_def split: Option.bind_splits sum.splits option.splits if_splits
      dest!: header_end_found)

lemma decode_bulk_body_cursor:
  assumes "decode_bulk_body d input = Some (Inr True, d')"
  shows "cursor d < cursor d' \<and> cursor d' \<le> length input"
  using assms
  by (auto simp: decode_bulk_body_def usize_checked_add_def
      split: Option.bind_splits option.splits if_splits)

function decode :: "Decoder \<Rightarrow> bytes \<Rightarrow> ((ProtocolError + Request option) \<times> Decoder \<times> bytes) option" where
  "decode d input = do {
     (r1, d1) \<leftarrow> decode_array_header d input;
     case r1 of
       Inl e \<Rightarrow> Some (Inl e, d1, input)
     | Inr False \<Rightarrow> Some (Inr None, d1, input)
     | Inr True \<Rightarrow> do {
         (r2, d2) \<leftarrow> decode_bulk_header d1 input;
         case r2 of
           Inl e \<Rightarrow> Some (Inl e, d2, input)
         | Inr False \<Rightarrow> Some (Inr None, d2, input)
         | Inr True \<Rightarrow> do {
             (r3, d3) \<leftarrow> decode_bulk_body d2 input;
             case r3 of
               Inl e \<Rightarrow> Some (Inl e, d3, input)
             | Inr False \<Rightarrow> Some (Inr None, d3, input)
             | Inr True \<Rightarrow>
                 if Some (length (spans d3)) = argument_count d3 then do {
                   (req, d4, rest) \<leftarrow> decode_finish d3 input;
                   Some (Inr (Some req), d4, rest)
                 }
                 else decode d3 input
           }
       }
   }"
  by pat_completeness auto
termination
  by (relation "measure (\<lambda>(d, input). length input - cursor d)")
    (auto dest!: decode_array_header_cursor decode_bulk_header_cursor decode_bulk_body_cursor)

declare decode.simps [simp del]

subsection \<open>Replies\<close>

datatype Reply =
    Simple bytes
  | Error bytes
  | Integer int
  | Bulk "bytes option"
  | Array "Reply list"

definition Reply_ok :: Reply where
  "Reply_ok = Simple ''OK''"

definition Reply_error :: "bytes \<Rightarrow> Reply" where
  "Reply_error message = Error message"

definition Reply_bulk :: "bytes \<Rightarrow> Reply" where
  "Reply_bulk value = Bulk (Some value)"

fun decimal_digits_loop :: "nat \<Rightarrow> nat \<Rightarrow> nat" where
  "decimal_digits_loop digits value =
     (if value \<ge> 10 then decimal_digits_loop (digits + 1) (value div 10) else digits)"

declare decimal_digits_loop.simps [simp del]

definition decimal_digits :: "nat \<Rightarrow> nat" where
  "decimal_digits value = decimal_digits_loop 1 value"

fun encoded_len :: "Reply \<Rightarrow> nat option"
  and encoded_len_fold :: "nat \<Rightarrow> Reply list \<Rightarrow> nat option" where
  "encoded_len (Simple value) = usize_checked_add (length value) 3"
| "encoded_len (Error value) = usize_checked_add (length value) 3"
| "encoded_len (Integer value) =
     usize_checked_add (decimal_digits (nat \<bar>value\<bar>)) (3 + (if value < 0 then 1 else 0))"
| "encoded_len (Bulk None) = Some 5"
| "encoded_len (Bulk (Some value)) = do {
     header \<leftarrow> usize_checked_add (decimal_digits (length value)) 5;
     usize_checked_add header (length value)
   }"
| "encoded_len (Array values) = do {
     sum0 \<leftarrow> usize_checked_add (decimal_digits (length values)) 3;
     encoded_len_fold sum0 values
   }"
| "encoded_len_fold sum0 [] = Some sum0"
| "encoded_len_fold sum0 (value # values) = do {
     len \<leftarrow> encoded_len value;
     sum1 \<leftarrow> usize_checked_add sum0 len;
     encoded_len_fold sum1 values
   }"

fun encode :: "Reply \<Rightarrow> bytes \<Rightarrow> bytes"
  and encode_list :: "Reply list \<Rightarrow> bytes \<Rightarrow> bytes" where
  "encode (Simple value) output = output @ ''+'' @ value @ crlf"
| "encode (Error value) output = output @ ''-'' @ value @ crlf"
| "encode (Integer value) output = output @ '':'' @ i64_to_string value @ crlf"
| "encode (Bulk None) output = output @ ''$-1'' @ crlf"
| "encode (Bulk (Some value)) output =
     output @ ''$'' @ nat_to_string (length value) @ crlf @ value @ crlf"
| "encode (Array values) output =
     encode_list values (output @ ''*'' @ nat_to_string (length values) @ crlf)"
| "encode_list [] output = output"
| "encode_list (value # values) output = encode_list values (encode value output)"

end
