(* ===== verification/Command_Parser.thy ===== *)
theory Command_Parser
  imports Resp_Protocol
begin

section \<open>The command surface (crates/recall-core/src/command.rs)\<close>

text \<open>
  The parser from request arguments to commands and the command metadata. A parser function returns
  \<open>None\<close> where the source would panic on an index, \<open>Some (Inl e)\<close> for a \<open>CommandError\<close> and
  \<open>Some (Inr c)\<close> for a command; the source's \<open>match spec.name\<close> with its guarded arms is the chain
  of conditionals in \<open>parse_named\<close>, in the source's order.
\<close>

subsection \<open>Data\<close>

record ParseLimits =
  max_key_bytes :: nat
  max_value_bytes :: nat
  max_client_metadata_bytes :: nat

definition ParseLimits_default :: ParseLimits where
  "ParseLimits_default = \<lparr>max_key_bytes = 1024, max_value_bytes = 512 * 1024,
     max_client_metadata_bytes = 128\<rparr>"

type_synonym CommandError = bytes

definition CommandError_reply :: "CommandError \<Rightarrow> Reply" where
  "CommandError_reply e = Reply_error e"

datatype Condition = Always | IfAbsent | IfPresent

datatype Expiry = Clear | Keep | AfterMilliseconds int

datatype Operation =
    Get bytes
  | Set (set_key: bytes) (set_value: bytes) (set_condition: Condition) (set_expiry: Expiry)
  | Increment bytes int bool
  | Delete "bytes list"
  | Exists "bytes list"
  | MultiGet "bytes list"
  | MultiSet "(bytes \<times> bytes) list"
  | Expire bytes int
  | Ttl bytes bool
  | Persist bytes

fun Operation_keys :: "Operation \<Rightarrow> bytes list" where
  "Operation_keys (Get key) = [key]"
| "Operation_keys (Persist key) = [key]"
| "Operation_keys (Set key _ _ _) = [key]"
| "Operation_keys (Increment key _ _) = [key]"
| "Operation_keys (Expire key _) = [key]"
| "Operation_keys (Ttl key _) = [key]"
| "Operation_keys (Delete keys) = keys"
| "Operation_keys (Exists keys) = keys"
| "Operation_keys (MultiGet keys) = keys"
| "Operation_keys (MultiSet pairs) = map fst pairs"

definition Operation_payload_bytes :: "Operation \<Rightarrow> nat" where
  "Operation_payload_bytes op =
     (case op of
        Set key value _ _ \<Rightarrow> length key + length value
      | MultiSet pairs \<Rightarrow> sum_list (map (\<lambda>(key, value). length key + length value) pairs)
      | _ \<Rightarrow> sum_list (map length (Operation_keys op)))"

datatype ClientCommand = GetName | SetName bytes | SetInfo bool bytes

datatype MetadataCommand = AllCommands | CountCommands | InfoCommands "bytes list"

datatype Command =
    Data Operation
  | Ping "bytes option"
  | Echo bytes
  | Quit
  | Auth "bytes option" bytes
  | Hello "int option" "(bytes \<times> bytes) option" "bytes option"
  | Select int
  | Client ClientCommand
  | Metadata MetadataCommand
  | Info "bytes option"

record CommandSpec =
  spec_name :: bytes
  spec_arity :: int
  spec_write :: bool
  spec_first_key :: int
  spec_last_key :: int
  spec_key_step :: int

definition spec :: "bytes \<Rightarrow> int \<Rightarrow> bool \<Rightarrow> int \<Rightarrow> int \<Rightarrow> int \<Rightarrow> CommandSpec" where
  "spec n arity wr first_key last_key step = \<lparr>spec_name = n, spec_arity = arity, spec_write = wr,
     spec_first_key = first_key, spec_last_key = last_key, spec_key_step = step\<rparr>"

definition SPECS :: "CommandSpec list" where
  "SPECS = [
     spec ''ping'' (-1) False 0 0 0,
     spec ''echo'' 2 False 0 0 0,
     spec ''quit'' 1 False 0 0 0,
     spec ''auth'' (-2) False 0 0 0,
     spec ''hello'' (-1) False 0 0 0,
     spec ''select'' 2 False 0 0 0,
     spec ''get'' 2 False 1 1 1,
     spec ''set'' (-3) True 1 1 1,
     spec ''incr'' 2 True 1 1 1,
     spec ''incrby'' 3 True 1 1 1,
     spec ''decr'' 2 True 1 1 1,
     spec ''decrby'' 3 True 1 1 1,
     spec ''del'' (-2) True 1 (-1) 1,
     spec ''exists'' (-2) False 1 (-1) 1,
     spec ''mget'' (-2) False 1 (-1) 1,
     spec ''mset'' (-3) True 1 (-1) 2,
     spec ''expire'' 3 True 1 1 1,
     spec ''pexpire'' 3 True 1 1 1,
     spec ''ttl'' 2 False 1 1 1,
     spec ''pttl'' 2 False 1 1 1,
     spec ''persist'' 2 True 1 1 1,
     spec ''command'' (-1) False 0 0 0,
     spec ''client'' (-2) False 0 0 0,
     spec ''info'' (-1) False 0 0 0]"

subsection \<open>Integers and client names\<close>

text \<open>
  \<open>std::str::from_utf8\<close> before \<open>parse::<i64>\<close> rejects nothing that \<open>parse\<close> accepts: a byte that is
  not an ASCII digit or a leading sign is refused by \<open>parse_i64\<close> in any case.
\<close>

definition integer :: "bytes \<Rightarrow> CommandError + int" where
  "integer value =
     (if value = [] \<or> length value > 20 then Inl ''ERR value is not an integer or out of range''
      else case parse_i64 value of
             None \<Rightarrow> Inl ''ERR value is not an integer or out of range''
           | Some parsed \<Rightarrow>
               if i64_to_string parsed = value then Inr parsed
               else Inl ''ERR value is not an integer or out of range'')"

definition client_name :: "bytes \<Rightarrow> ParseLimits \<Rightarrow> CommandError + unit" where
  "client_name value limits =
     (if length value > max_client_metadata_bytes limits
         \<or> list_ex (\<lambda>b. \<not> (33 \<le> byte_of b \<and> byte_of b \<le> 126)) value
      then Inl ''ERR Client names cannot contain spaces, newlines or special characters''
      else Inr ())"

definition syntax_error :: CommandError where
  "syntax_error = ''ERR syntax error''"

definition set_expire_error :: CommandError where
  "set_expire_error = ''ERR invalid expire time in 'set' command''"

definition expire_error :: CommandError where
  "expire_error = ''ERR invalid expire time in 'expire' command''"

subsection \<open>SET options\<close>

function parse_set_loop :: "bytes list \<Rightarrow> nat \<Rightarrow> Condition \<Rightarrow> Expiry \<Rightarrow>
    (CommandError + Condition \<times> Expiry) option" where
  "parse_set_loop a index condition expiry =
     (if index < length a then do {
        option \<leftarrow> idx a index;
        if eq_ignore_ascii_case option ''nx'' \<or> eq_ignore_ascii_case option ''xx'' then
          (if condition \<noteq> Always then Some (Inl syntax_error)
           else parse_set_loop a (index + 1)
                  (if eq_ignore_ascii_case option ''nx'' then IfAbsent else IfPresent) expiry)
        else if eq_ignore_ascii_case option ''keepttl'' then
          (if expiry \<noteq> Clear then Some (Inl syntax_error)
           else parse_set_loop a (index + 1) condition Keep)
        else if eq_ignore_ascii_case option ''ex'' \<or> eq_ignore_ascii_case option ''px'' then
          (if expiry \<noteq> Clear \<or> index + 1 = length a then Some (Inl syntax_error)
           else do {
             amount \<leftarrow> idx a (index + 1);
             case integer amount of
               Inl e \<Rightarrow> Some (Inl e)
             | Inr n \<Rightarrow>
                 (case (if eq_ignore_ascii_case option ''ex'' then i64_checked_mul n 1000 else Some n) of
                    None \<Rightarrow> Some (Inl set_expire_error)
                  | Some duration \<Rightarrow>
                      if duration \<le> 0 then Some (Inl set_expire_error)
                      else parse_set_loop a (index + 2) condition (AfterMilliseconds duration))
           })
        else Some (Inl syntax_error)
      }
      else Some (Inr (condition, expiry)))"
  by pat_completeness auto
termination
  by (relation "measure (\<lambda>(a, index, _, _). length a - index)") auto

declare parse_set_loop.simps [simp del]

definition parse_set :: "bytes list \<Rightarrow> (CommandError + Operation) option" where
  "parse_set a = do {
     r \<leftarrow> parse_set_loop a 3 Always Clear;
     case r of
       Inl e \<Rightarrow> Some (Inl e)
     | Inr (condition, expiry) \<Rightarrow> do {
         key \<leftarrow> idx a 1;
         value \<leftarrow> idx a 2;
         Some (Inr (Set key value condition expiry))
       }
   }"

subsection \<open>HELLO and CLIENT\<close>

function parse_hello_loop :: "bytes list \<Rightarrow> ParseLimits \<Rightarrow> nat \<Rightarrow> (bytes \<times> bytes) option \<Rightarrow>
    bytes option \<Rightarrow> (CommandError + (bytes \<times> bytes) option \<times> bytes option) option" where
  "parse_hello_loop a limits index auth name =
     (if index < length a then do {
        word \<leftarrow> idx a index;
        if eq_ignore_ascii_case word ''auth'' \<and> auth = None \<and> index + 2 < length a then do {
          user \<leftarrow> idx a (index + 1);
          pass \<leftarrow> idx a (index + 2);
          parse_hello_loop a limits (index + 3) (Some (user, pass)) name
        }
        else if eq_ignore_ascii_case word ''setname'' \<and> name = None \<and> index + 1 < length a then do {
          new_name \<leftarrow> idx a (index + 1);
          case client_name new_name limits of
            Inl e \<Rightarrow> Some (Inl e)
          | Inr _ \<Rightarrow> parse_hello_loop a limits (index + 2) auth (Some new_name)
        }
        else Some (Inl syntax_error)
      }
      else Some (Inr (auth, name)))"
  by pat_completeness auto
termination
  by (relation "measure (\<lambda>(a, _, index, _, _). length a - index)") auto

declare parse_hello_loop.simps [simp del]

definition parse_hello :: "bytes list \<Rightarrow> ParseLimits \<Rightarrow> (CommandError + Command) option" where
  "parse_hello a limits =
     (case (case idx a 1 of None \<Rightarrow> Inr None | Some v \<Rightarrow> map_sum id Some (integer v)) of
        Inl e \<Rightarrow> Some (Inl e)
      | Inr protocol \<Rightarrow> do {
          r \<leftarrow> parse_hello_loop a limits 2 None None;
          case r of
            Inl e \<Rightarrow> Some (Inl e)
          | Inr (auth, name) \<Rightarrow> Some (Inr (Hello protocol auth name))
        })"

definition parse_client :: "bytes list \<Rightarrow> ParseLimits \<Rightarrow> (CommandError + ClientCommand) option" where
  "parse_client a limits = do {
     sub \<leftarrow> idx a 1;
     if eq_ignore_ascii_case sub ''getname'' \<and> length a = 2 then Some (Inr GetName)
     else if eq_ignore_ascii_case sub ''setname'' \<and> length a = 3 then do {
       name \<leftarrow> idx a 2;
       case client_name name limits of
         Inl e \<Rightarrow> Some (Inl e)
       | Inr _ \<Rightarrow> Some (Inr (SetName name))
     }
     else if eq_ignore_ascii_case sub ''setinfo'' \<and> length a = 4 then do {
       value \<leftarrow> idx a 3;
       case client_name value limits of
         Inl e \<Rightarrow> Some (Inl e)
       | Inr _ \<Rightarrow> do {
           attribute \<leftarrow> idx a 2;
           if eq_ignore_ascii_case attribute ''lib-name'' then Some (Inr (SetInfo True value))
           else if eq_ignore_ascii_case attribute ''lib-ver'' then Some (Inr (SetInfo False value))
           else Some (Inl ''ERR unsupported CLIENT SETINFO attribute'')
         }
     }
     else Some (Inl ''ERR unsupported CLIENT subcommand or arguments'')
   }"

subsection \<open>parse\<close>

fun chunks2 :: "bytes list \<Rightarrow> (bytes \<times> bytes) list" where
  "chunks2 (k # v # rest) = (k, v) # chunks2 rest"
| "chunks2 _ = []"

definition starts_with :: "bytes \<Rightarrow> bytes \<Rightarrow> bool" where
  "starts_with s prefix = (take (length prefix) s = prefix)"

definition find_spec :: "bytes \<Rightarrow> CommandSpec option" where
  "find_spec name = List.find (\<lambda>spec. eq_ignore_ascii_case name (spec_name spec)) SPECS"

abbreviation data_result :: "Operation \<Rightarrow> (CommandError + Command) option" where
  "data_result op \<equiv> Some (Inr (Data op))"

definition parse_increment :: "bytes \<Rightarrow> bytes list \<Rightarrow> (CommandError + Command) option" where
  "parse_increment name a = do {
     key \<leftarrow> idx a 1;
     amount \<leftarrow> (if length a = 3 then map_option integer (idx a 2) else Some (Inr 1));
     case amount of
       Inl e \<Rightarrow> Some (Inl e)
     | Inr n \<Rightarrow> data_result (Increment key n (starts_with name ''decr''))
   }"

definition parse_expire :: "bytes \<Rightarrow> bytes list \<Rightarrow> (CommandError + Command) option" where
  "parse_expire name a = do {
     arg \<leftarrow> idx a 2;
     case integer arg of
       Inl e \<Rightarrow> Some (Inl e)
     | Inr value \<Rightarrow>
         (case (if name = ''expire'' then i64_checked_mul value 1000 else Some value) of
            None \<Rightarrow> Some (Inl expire_error)
          | Some milliseconds \<Rightarrow> do {
              key \<leftarrow> idx a 1;
              data_result (Expire key milliseconds)
            })
   }"

definition parse_command :: "bytes list \<Rightarrow> (CommandError + Command) option" where
  "parse_command a =
     (if length a = 1 then Some (Inr (Metadata AllCommands))
      else do {
        sub \<leftarrow> idx a 1;
        if eq_ignore_ascii_case sub ''count'' \<and> length a = 2
        then Some (Inr (Metadata CountCommands))
        else if eq_ignore_ascii_case sub ''info''
        then Some (Inr (Metadata (InfoCommands (drop 2 a))))
        else Some (Inl syntax_error)
      })"

definition parse_named :: "bytes \<Rightarrow> bytes list \<Rightarrow> ParseLimits \<Rightarrow> (CommandError + Command) option" where
  "parse_named name a limits =
     (if name = ''ping'' \<and> length a \<le> 2 then Some (Inr (Ping (idx a 1)))
      else if name = ''echo'' then do { v \<leftarrow> idx a 1; Some (Inr (Echo v)) }
      else if name = ''quit'' then Some (Inr Quit)
      else if name = ''get'' then do { key \<leftarrow> idx a 1; data_result (Get key) }
      else if name = ''set'' then do { r \<leftarrow> parse_set a; Some (map_sum id Data r) }
      else if name \<in> {''incr'', ''decr'', ''incrby'', ''decrby''} then parse_increment name a
      else if name = ''del'' then data_result (Delete (drop 1 a))
      else if name = ''exists'' then data_result (Exists (drop 1 a))
      else if name = ''mget'' then data_result (MultiGet (drop 1 a))
      else if name = ''mset'' \<and> length a mod 2 = 1 then data_result (MultiSet (chunks2 (drop 1 a)))
      else if name \<in> {''expire'', ''pexpire''} then parse_expire name a
      else if name \<in> {''ttl'', ''pttl''} then do { key \<leftarrow> idx a 1; data_result (Ttl key (name = ''pttl'')) }
      else if name = ''persist'' then do { key \<leftarrow> idx a 1; data_result (Persist key) }
      else if name = ''auth'' \<and> length a = 2 then do { p \<leftarrow> idx a 1; Some (Inr (Auth None p)) }
      else if name = ''auth'' \<and> length a = 3 then do {
        u \<leftarrow> idx a 1; p \<leftarrow> idx a 2; Some (Inr (Auth (Some u) p)) }
      else if name = ''select'' then do { v \<leftarrow> idx a 1; Some (map_sum id Select (integer v)) }
      else if name = ''hello'' then parse_hello a limits
      else if name = ''client'' then do { r \<leftarrow> parse_client a limits; Some (map_sum id Client r) }
      else if name = ''command'' then parse_command a
      else if name = ''info'' \<and> length a \<le> 2 then Some (Inr (Info (idx a 1)))
      else Some (Inl syntax_error))"

definition value_too_large :: "Operation \<Rightarrow> ParseLimits \<Rightarrow> bool" where
  "value_too_large operation limits =
     (case operation of
        Set _ value _ _ \<Rightarrow> length value > max_value_bytes limits
      | MultiSet pairs \<Rightarrow> list_ex (\<lambda>(_, value). length value > max_value_bytes limits) pairs
      | _ \<Rightarrow> False)"

definition check_limits :: "Command \<Rightarrow> ParseLimits \<Rightarrow> CommandError + Command" where
  "check_limits command limits =
     (case command of
        Data operation \<Rightarrow>
          if list_ex (\<lambda>key. length key > max_key_bytes limits) (Operation_keys operation)
          then Inl ''ERR key exceeds configured limit''
          else if value_too_large operation limits
          then Inl ''ERR value exceeds configured limit''
          else Inr command
      | _ \<Rightarrow> Inr command)"

definition wrong_arity :: "CommandSpec \<Rightarrow> nat \<Rightarrow> bool" where
  "wrong_arity sp n =
     (let count = as_i64 n in
      (spec_arity sp > 0 \<and> count \<noteq> spec_arity sp) \<or> (spec_arity sp < 0 \<and> count < - spec_arity sp))"

definition parse :: "bytes list \<Rightarrow> ParseLimits \<Rightarrow> (CommandError + Command) option" where
  "parse a limits =
     (case a of
        [] \<Rightarrow> Some (Inl ''ERR empty command'')
      | name # _ \<Rightarrow>
          (case find_spec name of
             None \<Rightarrow> Some (Inl ''ERR unknown command'')
           | Some sp \<Rightarrow>
               if wrong_arity sp (length a)
               then Some (Inl (''ERR wrong number of arguments for '' @ [CHR 0x27] @ spec_name sp
                      @ [CHR 0x27] @ '' command''))
               else do {
                 r \<leftarrow> parse_named (spec_name sp) a limits;
                 case r of
                   Inl e \<Rightarrow> Some (Inl e)
                 | Inr command \<Rightarrow> Some (check_limits command limits)
               }))"

subsection \<open>Command metadata\<close>

definition spec_reply :: "CommandSpec \<Rightarrow> Reply" where
  "spec_reply sp =
     (let flags = (if spec_first_key sp = 0 then []
                   else [Simple (if spec_write sp then ''write'' else ''readonly'')])
      in Array [Reply_bulk (spec_name sp), Integer (spec_arity sp), Array flags,
           Integer (spec_first_key sp), Integer (spec_last_key sp), Integer (spec_key_step sp)])"

definition metadata :: "MetadataCommand \<Rightarrow> Reply" where
  "metadata command =
     (case command of
        CountCommands \<Rightarrow> Integer (as_i64 (length SPECS))
      | AllCommands \<Rightarrow> Array (map spec_reply SPECS)
      | InfoCommands names \<Rightarrow>
          if names = [] then Array (map spec_reply SPECS)
          else Array (map (\<lambda>name. case find_spec name of
                              None \<Rightarrow> Bulk None
                            | Some sp \<Rightarrow> spec_reply sp) names))"

end
