(* ===== verification/Expiry_Index.thy ===== *)
theory Expiry_Index
  imports Recall_Prelude "HOL-Library.Multiset"
begin

section \<open>The expiration index (crates/recall-core/src/expiry.rs)\<close>

text \<open>
  An indexed binary heap: \<open>heap\<close> holds one timer per expiring key, ordered by deadline, and
  \<open>positions\<close> says where each key's timer is. The definitions follow the Rust functions, with
  \<open>None\<close> for an index panic. The theorems show that the operations never panic and keep the heap
  order and the position table, and that they implement the interface \<open>timer_index\<close>, a finite map
  from keys to deadlines with a least deadline.
\<close>

subsection \<open>State and operations\<close>

record Timer =
  t_key :: bytes
  t_deadline :: int

record ExpiryIndex =
  heap :: "Timer list"
  positions :: "(bytes \<times> nat) list"

definition ExpiryIndex_new :: "allocator \<Rightarrow> nat \<Rightarrow> ExpiryIndex option" where
  "ExpiryIndex_new alloc capacity =
     (if \<not> alloc TimerHeap capacity then None
      else if \<not> alloc TimerPositions capacity then None
      else Some \<lparr>heap = [], positions = []\<rparr>)"

definition ExpiryIndex_len :: "ExpiryIndex \<Rightarrow> nat" where
  "ExpiryIndex_len e = length (heap e)"

definition swap :: "ExpiryIndex \<Rightarrow> nat \<Rightarrow> nat \<Rightarrow> ExpiryIndex option" where
  "swap e left right = do {
     h \<leftarrow> vec_swap (heap e) left right;
     tl \<leftarrow> idx h left;
     tr \<leftarrow> idx h right;
     Some \<lparr>heap = h,
       positions = AList.update (t_key tr) right (AList.update (t_key tl) left (positions e))\<rparr>
   }"

fun up :: "ExpiryIndex \<Rightarrow> nat \<Rightarrow> (nat \<times> ExpiryIndex) option" where
  "up e index =
     (if index > 0 then
        let parent = (index - 1) div 2 in do {
          tp \<leftarrow> idx (heap e) parent;
          ti \<leftarrow> idx (heap e) index;
          if t_deadline tp \<le> t_deadline ti then Some (index, e)
          else do { e' \<leftarrow> swap e parent index; up e' parent }
        }
      else Some (index, e))"

lemma swap_length: "swap e i j = Some e' \<Longrightarrow> length (heap e') = length (heap e)"
  by (auto simp: swap_def vec_swap_def bind_eq_Some_conv split: if_splits)

function down :: "ExpiryIndex \<Rightarrow> nat \<Rightarrow> ExpiryIndex option" where
  "down e index =
     (let left = index * 2 + 1 in
      if left \<ge> length (heap e) then Some e
      else let right = left + 1 in do {
        tl \<leftarrow> idx (heap e) left;
        child \<leftarrow> (if right < length (heap e)
                   then do { tr \<leftarrow> idx (heap e) right;
                             Some (if t_deadline tr < t_deadline tl then right else left) }
                   else Some left);
        ti \<leftarrow> idx (heap e) index;
        tc \<leftarrow> idx (heap e) child;
        if t_deadline ti \<le> t_deadline tc then Some e
        else do { e' \<leftarrow> swap e index child; down e' child }
      })"
  by pat_completeness auto
termination
  by (relation "measure (\<lambda>(e, index). length (heap e) - index)")
    (auto dest!: swap_length simp: bind_eq_Some_conv split: if_splits)

definition ExpiryIndex_set :: "ExpiryIndex \<Rightarrow> bytes \<Rightarrow> int \<Rightarrow> ExpiryIndex option" where
  "ExpiryIndex_set e key deadline =
     (case map_of (positions e) key of
        Some index \<Rightarrow> do {
          t \<leftarrow> idx (heap e) index;
          (index', e') \<leftarrow>
            up (e\<lparr>heap := (heap e)[index := t\<lparr>t_deadline := deadline\<rparr>]\<rparr>) index;
          down e' index'
        }
      | None \<Rightarrow>
          let index = length (heap e) in do {
          (_, e') \<leftarrow>
            up \<lparr>heap = heap e @ [\<lparr>t_key = key, t_deadline = deadline\<rparr>],
                positions = AList.update key index (positions e)\<rparr> index;
          Some e'
        })"

definition ExpiryIndex_remove :: "ExpiryIndex \<Rightarrow> bytes \<Rightarrow> ExpiryIndex option" where
  "ExpiryIndex_remove e key =
     (case map_of (positions e) key of
        None \<Rightarrow> Some e
      | Some index \<Rightarrow> do {
          h \<leftarrow> swap_remove (heap e) index;
          let pos = AList.delete key (positions e) in
          if index < length h then do {
            t \<leftarrow> idx h index;
            (index', e') \<leftarrow>
              up \<lparr>heap = h, positions = AList.update (t_key t) index pos\<rparr> index;
            down e' index'
          }
          else Some \<lparr>heap = h, positions = pos\<rparr>
        })"

definition ExpiryIndex_expired :: "ExpiryIndex \<Rightarrow> int \<Rightarrow> bytes option" where
  "ExpiryIndex_expired e now_ms =
     (case heap e of
        [] \<Rightarrow> None
      | timer # _ \<Rightarrow> if t_deadline timer \<le> now_ms then Some (t_key timer) else None)"

declare up.simps [simp del] down.simps [simp del]

subsection \<open>Invariant and abstraction\<close>

abbreviation dl :: "Timer list \<Rightarrow> nat \<Rightarrow> int" where
  "dl h i \<equiv> t_deadline (h ! i)"

definition parent :: "nat \<Rightarrow> nat" where
  "parent i = (i - 1) div 2"

lemma parent_less: "0 < i \<Longrightarrow> parent i < i"
  by (auto simp: parent_def)

definition heap_ordered :: "Timer list \<Rightarrow> bool" where
  "heap_ordered h \<longleftrightarrow> (\<forall>i < length h. 0 < i \<longrightarrow> dl h (parent i) \<le> dl h i)"

text \<open>Every key of the position table points at its timer, and every timer is pointed at.\<close>

definition index_ok :: "ExpiryIndex \<Rightarrow> bool" where
  "index_ok e \<longleftrightarrow> hm_wf (positions e) \<and>
     (\<forall>k i. map_of (positions e) k = Some i \<longleftrightarrow> i < length (heap e) \<and> t_key (heap e ! i) = k)"

definition expiry_inv :: "ExpiryIndex \<Rightarrow> bool" where
  "expiry_inv e \<longleftrightarrow> index_ok e \<and> heap_ordered (heap e)"

definition timer_pair :: "Timer \<Rightarrow> bytes \<times> int" where
  "timer_pair t = (t_key t, t_deadline t)"

definition timers :: "ExpiryIndex \<Rightarrow> bytes \<rightharpoonup> int" where
  "timers e = map_of (map timer_pair (heap e))"

text \<open>
  During a sift the order may fail at one position \<open>i\<close>: between \<open>i\<close> and its parent (\<open>up\<close> mends
  that), or between \<open>i\<close> and its children (\<open>down\<close> mends that).
\<close>

definition heap_hole :: "Timer list \<Rightarrow> nat \<Rightarrow> bool" where
  "heap_hole h i \<longleftrightarrow>
     (\<forall>j < length h. 0 < j \<longrightarrow> j \<noteq> i \<longrightarrow> parent j \<noteq> i \<longrightarrow> dl h (parent j) \<le> dl h j) \<and>
     (\<forall>j < length h. 0 < j \<longrightarrow> 0 < i \<longrightarrow> parent j = i \<longrightarrow> dl h (parent i) \<le> dl h j)"

definition parent_le :: "Timer list \<Rightarrow> nat \<Rightarrow> bool" where
  "parent_le h i \<longleftrightarrow> (0 < i \<longrightarrow> dl h (parent i) \<le> dl h i)"

definition kids_le :: "Timer list \<Rightarrow> nat \<Rightarrow> bool" where
  "kids_le h i \<longleftrightarrow> (\<forall>j < length h. 0 < j \<longrightarrow> parent j = i \<longrightarrow> dl h i \<le> dl h j)"

subsection \<open>Sifting\<close>

lemma heap_holeI:
  assumes "\<And>j. j < length h \<Longrightarrow> 0 < j \<Longrightarrow> j \<noteq> i \<Longrightarrow> parent j \<noteq> i \<Longrightarrow> dl h (parent j) \<le> dl h j"
    and "\<And>j. j < length h \<Longrightarrow> 0 < j \<Longrightarrow> 0 < i \<Longrightarrow> parent j = i \<Longrightarrow> dl h (parent i) \<le> dl h j"
  shows "heap_hole h i"
  using assms by (simp add: heap_hole_def)

lemma nth_swapped:
  assumes "a < length xs" and "b < length xs"
  shows "xs[a := xs ! b, b := xs ! a] ! j =
    (if j = a then xs ! b else if j = b then xs ! a else xs ! j)"
  using assms by (cases "j < length xs") (auto simp: nth_list_update)

lemma heap_hole_up:
  assumes hole: "heap_hole h i" and i: "i < length h" "0 < i" and gt: "\<not> dl h (parent i) \<le> dl h i"
  shows "heap_hole (h[parent i := h ! i, i := h ! parent i]) (parent i)"
proof (rule heap_holeI)
  let ?p = "parent i" and ?h = "h[parent i := h ! i, i := h ! parent i]"
  have lt: "?p < i" using i(2) by (rule parent_less)
  have sw: "?h ! j = (if j = ?p then h ! i else if j = i then h ! ?p else h ! j)" for j
    using i(1) lt nth_swapped [of ?p h i j] by simp
  have edge: "dl h (parent j) \<le> dl h j" if "j < length h" "0 < j" "j \<noteq> i" "parent j \<noteq> i" for j
    using hole that by (simp add: heap_hole_def)
  {
    fix j
    assume j: "j < length ?h" "0 < j" "j \<noteq> ?p" "parent j \<noteq> ?p"
    show "dl ?h (parent j) \<le> dl ?h j"
    proof (cases "parent j = i")
      case True
      then have "dl h ?p \<le> dl h j" using hole j i(2) by (simp add: heap_hole_def)
      then show ?thesis using True j by (auto simp: sw)
    next
      case False
      then show ?thesis using j edge [of j] by (auto simp: sw)
    qed
  next
    fix j
    assume j: "j < length ?h" "0 < j" "0 < ?p" "parent j = ?p"
    have up2: "parent ?p < ?p" using j(3) by (rule parent_less)
    have above: "dl h (parent ?p) \<le> dl h ?p" using edge [of ?p] up2 lt i(1) j(3) by simp
    have "dl h ?p \<le> dl h j" if "j \<noteq> i" using edge [of j] that j lt by simp
    then show "dl ?h (parent ?p) \<le> dl ?h j"
      using above up2 lt j parent_less [of j] by (auto simp: sw intro: order_trans)
  }
qed

lemma kids_le_up:
  assumes hole: "heap_hole h i" and i: "i < length h" "0 < i" and gt: "\<not> dl h (parent i) \<le> dl h i"
  shows "kids_le (h[parent i := h ! i, i := h ! parent i]) (parent i)"
  unfolding kids_le_def
proof (intro allI impI)
  let ?p = "parent i" and ?h = "h[parent i := h ! i, i := h ! parent i]"
  fix j
  assume j: "j < length ?h" "0 < j" "parent j = ?p"
  have lt: "?p < i" using i(2) by (rule parent_less)
  have sw: "?h ! n = (if n = ?p then h ! i else if n = i then h ! ?p else h ! n)" for n
    using i(1) lt nth_swapped [of ?p h i n] by simp
  show "dl ?h ?p \<le> dl ?h j"
  proof (cases "j = i")
    case True
    then show ?thesis using lt gt by (simp add: sw)
  next
    case False
    then have "dl h ?p \<le> dl h j" using hole j lt by (auto simp: heap_hole_def)
    then show ?thesis using False gt j parent_less [of j] by (simp add: sw)
  qed
qed

lemma heap_hole_down:
  assumes hole: "heap_hole h i" and c: "c < length h" "0 < c" "parent c = i"
    and least: "\<And>j. j < length h \<Longrightarrow> 0 < j \<Longrightarrow> parent j = i \<Longrightarrow> dl h c \<le> dl h j"
    and gt: "\<not> dl h i \<le> dl h c"
  shows "heap_hole (h[i := h ! c, c := h ! i]) c"
    and "parent_le (h[i := h ! c, c := h ! i]) c"
proof -
  let ?h = "h[i := h ! c, c := h ! i]"
  have lt: "i < c" using c parent_less [of c] by simp
  have sw: "?h ! j = (if j = i then h ! c else if j = c then h ! i else h ! j)" for j
    using c(1) lt nth_swapped [of i h c j] by simp
  have edge: "dl h (parent j) \<le> dl h j" if "j < length h" "0 < j" "j \<noteq> i" "parent j \<noteq> i" for j
    using hole that by (simp add: heap_hole_def)
  show "heap_hole ?h c"
  proof (rule heap_holeI)
    fix j
    assume j: "j < length ?h" "0 < j" "j \<noteq> c" "parent j \<noteq> c"
    consider (child) "parent j = i" | (self) "parent j \<noteq> i" "j = i" | (other) "parent j \<noteq> i" "j \<noteq> i"
      by blast
    then show "dl ?h (parent j) \<le> dl ?h j"
    proof cases
      case child
      then show ?thesis using j least [of j] parent_less [of j] by (auto simp: sw)
    next
      case self
      then have "dl h (parent i) \<le> dl h c" using hole c j by (simp add: heap_hole_def)
      then show ?thesis using self j by (simp add: sw)
    next
      case other
      then show ?thesis using j edge [of j] by (simp add: sw)
    qed
  next
    fix j
    assume j: "j < length ?h" "0 < j" "0 < c" "parent j = c"
    then have "c < j" using parent_less [of j] by simp
    moreover have "dl h c \<le> dl h j" using edge [of j] j lt \<open>c < j\<close> by simp
    ultimately show "dl ?h (parent c) \<le> dl ?h j" using c(3) lt by (simp add: sw)
  qed
  show "parent_le ?h c"
    using c(3) lt gt by (auto simp: parent_le_def sw)
qed

lemma heap_hole_closed:
  assumes "heap_hole h i" and "parent_le h i" and "kids_le h i"
  shows "heap_ordered h"
  unfolding heap_ordered_def
proof (intro allI impI)
  fix j
  assume "j < length h" "0 < j"
  then show "dl h (parent j) \<le> dl h j"
    using assms by (cases "j = i"; cases "parent j = i")
      (auto simp: heap_hole_def parent_le_def kids_le_def)
qed

text \<open>Changing the deadline at one position of an ordered heap leaves a hole there.\<close>

lemma heap_hole_update:
  assumes ord: "heap_ordered h" and i: "i < length h"
  shows "heap_hole (h[i := t]) i"
proof (rule heap_holeI)
  fix j
  assume "j < length (h[i := t])" "0 < j" "j \<noteq> i" "parent j \<noteq> i"
  then show "dl (h[i := t]) (parent j) \<le> dl (h[i := t]) j"
    using ord by (simp add: heap_ordered_def)
next
  fix j
  assume j: "j < length (h[i := t])" "0 < j" "0 < i" "parent j = i"
  have "dl h (parent i) \<le> dl h i" "dl h i \<le> dl h j"
    using ord i j by (auto simp: heap_ordered_def)
  then show "dl (h[i := t]) (parent i) \<le> dl (h[i := t]) j"
    using parent_less [of i] parent_less [of j] j by simp
qed

lemma index_ok_lookup:
  assumes "index_ok e"
  shows "map_of (positions e) k = Some i \<longleftrightarrow> i < length (heap e) \<and> t_key (heap e ! i) = k"
  using assms by (simp add: index_ok_def)

lemma index_ok_inj:
  assumes "index_ok e" and "i < length (heap e)" and "j < length (heap e)"
    and "t_key (heap e ! i) = t_key (heap e ! j)"
  shows "i = j"
  using assms index_ok_lookup [OF assms(1)] by (metis option.inject)

lemma swap_ok:
  assumes ok: "index_ok e" and i: "i < length (heap e)" and j: "j < length (heap e)" and "i \<noteq> j"
  shows "\<exists>e'. swap e i j = Some e' \<and> index_ok e' \<and>
    heap e' = (heap e)[i := heap e ! j, j := heap e ! i] \<and> mset (heap e') = mset (heap e)"
proof -
  let ?h = "(heap e)[i := heap e ! j, j := heap e ! i]"
  let ?e = "\<lparr>heap = ?h, positions = AList.update (t_key (heap e ! i)) j
    (AList.update (t_key (heap e ! j)) i (positions e))\<rparr>"
  have sw: "?h ! k = (if k = i then heap e ! j else if k = j then heap e ! i else heap e ! k)" for k
    using i j by (rule nth_swapped)
  have "swap e i j = Some ?e"
    using i j by (simp add: swap_def vec_swap_def idx_def sw)
  moreover have "index_ok ?e"
    unfolding index_ok_def
  proof (intro conjI allI)
    show "hm_wf (positions ?e)"
      using ok by (simp add: index_ok_def distinct_update)
    fix k n
    show "map_of (positions ?e) k = Some n \<longleftrightarrow> n < length (heap ?e) \<and> t_key (heap ?e ! n) = k"
      using i j \<open>i \<noteq> j\<close> index_ok_lookup [OF ok, of k n] index_ok_inj [OF ok]
      by (auto simp: hm_simps sw)
  qed
  moreover have "mset ?h = mset (heap e)"
    using i j mset_swap [of j "heap e" i] by simp
  ultimately show ?thesis by simp
qed

lemma up_ok:
  assumes "index_ok e" and "i < length (heap e)" and "heap_hole (heap e) i"
  shows "\<exists>j e'. up e i = Some (j, e') \<and> index_ok e' \<and> j < length (heap e') \<and>
    mset (heap e') = mset (heap e) \<and> heap_hole (heap e') j \<and> parent_le (heap e') j \<and>
    (kids_le (heap e) i \<longrightarrow> heap_ordered (heap e'))"
  using assms
proof (induction i arbitrary: e rule: less_induct)
  case (less i)
  show ?case
  proof (cases "0 < i \<and> \<not> dl (heap e) (parent i) \<le> dl (heap e) i")
    case False
    then have "up e i = Some (i, e)" and "parent_le (heap e) i"
      using less.prems(2) by (auto simp: up.simps [of e i] idx_def parent_def parent_le_def Let_def)
    then show ?thesis using less.prems heap_hole_closed by blast
  next
    case True
    then have lt: "parent i < i" by (simp add: parent_less)
    obtain e1 where e1: "swap e (parent i) i = Some e1" "index_ok e1"
      "heap e1 = (heap e)[parent i := heap e ! i, i := heap e ! parent i]"
      "mset (heap e1) = mset (heap e)"
      using swap_ok [OF less.prems(1), of "parent i" i] less.prems(2) lt by auto
    have "heap_hole (heap e1) (parent i)" and "kids_le (heap e1) (parent i)"
      using heap_hole_up [OF less.prems(3,2)] kids_le_up [OF less.prems(3,2)] True e1(3) by simp_all
    moreover have "up e i = up e1 (parent i)"
      using True less.prems(2) lt e1(1) by (simp add: up.simps [of e i] idx_def Let_def flip: parent_def [of i, simplified])
    ultimately show ?thesis
      using less.IH [OF lt e1(2)] e1(3,4) less.prems(2) lt by auto
  qed
qed

lemma down_stop:
  assumes "i < length (heap e)"
    and "kids_le (heap e) i"
  shows "down e i = Some e"
  using assms(1) assms(2) [unfolded kids_le_def, rule_format, of "2 * i + 1"]
    assms(2) [unfolded kids_le_def, rule_format, of "2 * i + 2"]
  by (auto simp: down.simps [of e i] idx_def parent_def Let_def mult.commute)

lemma children_cases: "0 < j \<Longrightarrow> parent j = i \<longleftrightarrow> j = 2 * i + 1 \<or> j = 2 * i + 2"
  by (auto simp: parent_def)

lemma down_continue:
  assumes "i < length (heap e)" and "j < length (heap e)" "0 < j" "parent j = i"
    and "\<not> dl (heap e) i \<le> dl (heap e) j"
  shows "\<exists>c. c < length (heap e) \<and> 0 < c \<and> parent c = i \<and> \<not> dl (heap e) i \<le> dl (heap e) c \<and>
    (\<forall>j < length (heap e). 0 < j \<longrightarrow> parent j = i \<longrightarrow> dl (heap e) c \<le> dl (heap e) j) \<and>
    down e i = do { e' \<leftarrow> swap e i c; down e' c }"
proof -
  let ?l = "2 * i + 1" and ?r = "2 * i + 2"
  let ?c = "if ?r < length (heap e) \<and> dl (heap e) ?r < dl (heap e) ?l then ?r else ?l"
  have l: "?l < length (heap e)"
    using assms(2-4) children_cases [of j i] by auto
  have least: "dl (heap e) ?c \<le> dl (heap e) k"
    if "k < length (heap e)" "0 < k" "parent k = i" for k
    using that children_cases [of k i] by auto
  have "\<not> dl (heap e) i \<le> dl (heap e) ?c"
    using least [OF assms(2-4)] assms(5) by simp
  moreover from this have "down e i = do { e' \<leftarrow> swap e i ?c; down e' ?c }"
    using assms(1) l by (auto simp: down.simps [of e i] idx_def Let_def mult.commute)
  ultimately show ?thesis
    using l least by (intro exI [of _ ?c]) (auto simp: parent_def)
qed

lemma down_ok:
  assumes "index_ok e" and "i < length (heap e)" and "heap_hole (heap e) i" and "parent_le (heap e) i"
  shows "\<exists>e'. down e i = Some e' \<and> expiry_inv e' \<and> mset (heap e') = mset (heap e)"
  using assms
proof (induction "length (heap e) - i" arbitrary: e i rule: less_induct)
  case less
  show ?case
  proof (cases "kids_le (heap e) i")
    case True
    have "down e i = Some e" using less.prems(2) True by (rule down_stop)
    moreover have "heap_ordered (heap e)" using less.prems(3,4) True by (rule heap_hole_closed)
    ultimately show ?thesis using less.prems(1) by (simp add: expiry_inv_def)
  next
    case False
    then obtain c where c: "c < length (heap e)" "0 < c" "parent c = i"
      and gt: "\<not> dl (heap e) i \<le> dl (heap e) c"
      and least: "\<And>j. j < length (heap e) \<Longrightarrow> 0 < j \<Longrightarrow> parent j = i \<Longrightarrow> dl (heap e) c \<le> dl (heap e) j"
      and step: "down e i = do { e' \<leftarrow> swap e i c; down e' c }"
      using down_continue [OF less.prems(2)] unfolding kids_le_def by blast
    have lt: "i < c" using c parent_less [of c] by simp
    obtain e1 where e1: "swap e i c = Some e1" "index_ok e1"
      "heap e1 = (heap e)[i := heap e ! c, c := heap e ! i]" "mset (heap e1) = mset (heap e)"
      using swap_ok [OF less.prems(1,2) c(1)] lt by auto
    have hole: "heap_hole (heap e1) c" "parent_le (heap e1) c"
      unfolding e1(3) by (rule heap_hole_down [OF less.prems(3) c least gt]; assumption)+
    have "\<exists>e'. down e1 c = Some e' \<and> expiry_inv e' \<and> mset (heap e') = mset (heap e1)"
      using less.hyps [OF _ e1(2) _ hole] e1(3) c(1) lt by simp
    then show ?thesis using step e1(1,4) by simp
  qed
qed

lemma up_down_ok:
  assumes "index_ok e" and "i < length (heap e)" and "heap_hole (heap e) i"
  shows "\<exists>e'. do { (j, e1) \<leftarrow> up e i; down e1 j } = Some e' \<and> expiry_inv e' \<and>
    mset (heap e') = mset (heap e)"
  using up_ok [OF assms] down_ok by (fastforce simp: split_beta)

subsection \<open>The interface\<close>

text \<open>
  What the shard relies on of its expiration index: a finite map \<open>deadlines\<close> from keys to
  deadlines. No operation panics, and \<open>expired\<close> finds a key whose deadline has passed if there is
  one, a key with the least deadline.
\<close>

locale timer_index =
  fixes invar :: "'e \<Rightarrow> bool"
    and deadlines :: "'e \<Rightarrow> 'k \<rightharpoonup> int"
    and set_timer :: "'e \<Rightarrow> 'k \<Rightarrow> int \<Rightarrow> 'e option"
    and remove_timer :: "'e \<Rightarrow> 'k \<Rightarrow> 'e option"
    and expired :: "'e \<Rightarrow> int \<Rightarrow> 'k option"
    and timer_count :: "'e \<Rightarrow> nat"
  assumes set_law: "invar e \<Longrightarrow>
      \<exists>e'. set_timer e k d = Some e' \<and> invar e' \<and> deadlines e' = (deadlines e)(k \<mapsto> d)"
    and remove_law: "invar e \<Longrightarrow>
      \<exists>e'. remove_timer e k = Some e' \<and> invar e' \<and> deadlines e' = (deadlines e)(k := None)"
    and expired_none: "invar e \<Longrightarrow>
      expired e now = None \<longleftrightarrow> (\<forall>k d. deadlines e k = Some d \<longrightarrow> now < d)"
    and expired_least: "invar e \<Longrightarrow> expired e now = Some k \<Longrightarrow>
      \<exists>d. deadlines e k = Some d \<and> d \<le> now \<and> (\<forall>k' d'. deadlines e k' = Some d' \<longrightarrow> d \<le> d')"
    and count_law: "invar e \<Longrightarrow> timer_count e = card (dom (deadlines e))"
    and finite_law: "invar e \<Longrightarrow> finite (dom (deadlines e))"
begin

text \<open>Storing or clearing a key's deadline, as the shard does for each effect of a command.\<close>

definition put :: "'e \<Rightarrow> 'k \<Rightarrow> int option \<Rightarrow> 'e option" where
  "put e k d = (case d of Some d' \<Rightarrow> set_timer e k d' | None \<Rightarrow> remove_timer e k)"

lemma put_law:
  "invar e \<Longrightarrow> \<exists>e'. put e k d = Some e' \<and> invar e' \<and> deadlines e' = (deadlines e)(k := d)"
  using set_law remove_law by (cases d) (auto simp: put_def)

lemma put_count:
  assumes "invar e" and "put e k d = Some e'"
  shows "timer_count e' = card (dom ((deadlines e)(k := d)))"
  using put_law [OF assms(1), of k d] assms(2) by (auto simp: count_law)

text \<open>Removing an expired key leaves one key fewer with a passed deadline.\<close>

lemma remove_expired_count:
  assumes "invar e" and "expired e now = Some k" and "remove_timer e k = Some e'"
  shows "card {k'. \<exists>d. deadlines e k' = Some d \<and> d \<le> now} =
    Suc (card {k'. \<exists>d. deadlines e' k' = Some d \<and> d \<le> now})"
proof -
  let ?due = "\<lambda>f. {k'. \<exists>d. f k' = Some d \<and> d \<le> now}"
  have e': "deadlines e' = (deadlines e)(k := None)"
    using remove_law [OF assms(1), of k] assms(3) by auto
  have "k \<in> ?due (deadlines e)"
    using expired_least [OF assms(1,2)] by auto
  moreover have "?due (deadlines e') = ?due (deadlines e) - {k}"
    using e' by auto
  moreover have "finite (?due (deadlines e))"
    using finite_law [OF assms(1)] by (rule rev_finite_subset) auto
  ultimately show ?thesis by (simp only: card.remove)
qed

end

subsection \<open>The heap implements the interface\<close>

lemma index_ok_distinct: "index_ok e \<Longrightarrow> distinct (map t_key (heap e))"
  using index_ok_inj [of e] by (auto simp: distinct_conv_nth)

lemma timers_mset:
  assumes "index_ok e" and "index_ok e'" and "mset (heap e') = mset (heap e)"
  shows "timers e' = timers e"
proof -
  have "map fst (map timer_pair h) = map t_key h" for h
    by (simp add: timer_pair_def)
  then have "distinct (map fst (map timer_pair (heap e)))" "distinct (map fst (map timer_pair (heap e')))"
    using index_ok_distinct assms(1,2) by metis+
  moreover have "set (map timer_pair (heap e')) = set (map timer_pair (heap e))"
    using assms(3) by (metis mset_eq_setD mset_map)
  ultimately show ?thesis by (simp add: timers_def map_of_inject_set)
qed

lemma timers_nth:
  assumes "index_ok e"
  shows "timers e k = Some d \<longleftrightarrow> (\<exists>i < length (heap e). t_key (heap e ! i) = k \<and> dl (heap e) i = d)"
proof -
  have "distinct (map fst (map timer_pair (heap e)))"
    using index_ok_distinct [OF assms] by (simp add: timer_pair_def comp_def)
  then have "timers e k = Some d \<longleftrightarrow> (k, d) \<in> timer_pair ` set (heap e)"
    by (simp add: timers_def)
  also have "\<dots> \<longleftrightarrow> (\<exists>t \<in> set (heap e). t_key t = k \<and> t_deadline t = d)"
    by (auto simp: timer_pair_def)
  also have "\<dots> \<longleftrightarrow> (\<exists>i < length (heap e). t_key (heap e ! i) = k \<and> dl (heap e) i = d)"
    by (simp add: Bex_def in_set_conv_nth) blast
  finally show ?thesis .
qed

lemma timers_positions:
  assumes "index_ok e"
  shows "timers e k = map_option (dl (heap e)) (map_of (positions e) k)"
proof (cases "map_of (positions e) k")
  case None
  then have "timers e k \<noteq> Some d" for d
    using index_ok_lookup [OF assms, of k] timers_nth [OF assms, of k d] by auto
  then show ?thesis using None by (cases "timers e k") auto
next
  case (Some i)
  then have "i < length (heap e)" "t_key (heap e ! i) = k"
    using index_ok_lookup [OF assms] by blast+
  then have "timers e k = Some (dl (heap e) i)"
    using timers_nth [OF assms] by blast
  then show ?thesis using Some by simp
qed

lemma index_ok_set_deadline:
  fixes d :: int
  assumes ok: "index_ok e" and k: "map_of (positions e) k = Some i"
  defines "e1 \<equiv> e\<lparr>heap := (heap e)[i := (heap e ! i)\<lparr>t_deadline := d\<rparr>]\<rparr>"
  shows "index_ok e1" and "timers e1 = (timers e)(k \<mapsto> d)"
proof -
  have i: "i < length (heap e)" "t_key (heap e ! i) = k"
    using k index_ok_lookup [OF ok] by auto
  show ok1: "index_ok e1"
    using ok i by (auto simp: index_ok_def e1_def nth_list_update)
  show "timers e1 = (timers e)(k \<mapsto> d)"
  proof
    fix k'
    have "map_of (positions e) k' \<noteq> Some i" if "k' \<noteq> k"
      using index_ok_lookup [OF ok, of k' i] i that by simp
    then show "timers e1 k' = ((timers e)(k \<mapsto> d)) k'"
      using timers_positions [OF ok1, of k'] timers_positions [OF ok, of k'] k i
      by (cases "map_of (positions e) k'") (auto simp: e1_def nth_list_update)
  qed
qed

lemma index_ok_push:
  fixes d :: int
  assumes ok: "index_ok e" and k: "map_of (positions e) k = None"
  defines "e1 \<equiv> \<lparr>heap = heap e @ [\<lparr>t_key = k, t_deadline = d\<rparr>],
    positions = AList.update k (length (heap e)) (positions e)\<rparr>"
  shows "index_ok e1" and "timers e1 = (timers e)(k \<mapsto> d)"
proof -
  have fresh: "t_key (heap e ! i) \<noteq> k" if "i < length (heap e)" for i
    using index_ok_lookup [OF ok, of k i] k that by auto
  show ok1: "index_ok e1"
    unfolding index_ok_def
  proof (intro conjI allI)
    show "hm_wf (positions e1)"
      using ok by (simp add: index_ok_def e1_def distinct_update)
    fix k' i
    show "map_of (positions e1) k' = Some i \<longleftrightarrow> i < length (heap e1) \<and> t_key (heap e1 ! i) = k'"
      using index_ok_lookup [OF ok, of k' i] fresh [of i]
      by (auto simp: e1_def hm_simps nth_append less_Suc_eq)
  qed
  show "timers e1 = (timers e)(k \<mapsto> d)"
  proof
    fix k'
    show "timers e1 k' = ((timers e)(k \<mapsto> d)) k'"
      using timers_positions [OF ok1, of k'] timers_positions [OF ok, of k'] index_ok_lookup [OF ok, of k']
      by (cases "map_of (positions e) k'") (auto simp: e1_def hm_simps nth_append)
  qed
qed

lemma heap_hole_push:
  assumes "heap_ordered h"
  shows "heap_hole (h @ [t]) (length h)"
proof (rule heap_holeI)
  fix j
  assume j: "j < length (h @ [t])" "0 < j" "j \<noteq> length h" "parent j \<noteq> length h"
  then show "dl (h @ [t]) (parent j) \<le> dl (h @ [t]) j"
    using assms parent_less [of j] by (simp add: heap_ordered_def nth_append)
next
  fix j
  assume "j < length (h @ [t])" "0 < j" "parent j = length h"
  then show "dl (h @ [t]) (parent (length h)) \<le> dl (h @ [t]) j"
    using parent_less [of j] by simp
qed

lemma kids_le_push: "kids_le (h @ [t]) (length h)"
  unfolding kids_le_def
proof (intro allI impI)
  fix j
  assume "j < length (h @ [t])" "0 < j" "parent j = length h"
  then show "dl (h @ [t]) (length h) \<le> dl (h @ [t]) j"
    using parent_less [of j] by simp
qed

lemma ExpiryIndex_set_ok:
  assumes "expiry_inv e"
  shows "\<exists>e'. ExpiryIndex_set e k d = Some e' \<and> expiry_inv e' \<and> timers e' = (timers e)(k \<mapsto> d)"
proof (cases "map_of (positions e) k")
  case (Some i)
  have ok: "index_ok e" and ord: "heap_ordered (heap e)" using assms by (simp_all add: expiry_inv_def)
  let ?e1 = "e\<lparr>heap := (heap e)[i := (heap e ! i)\<lparr>t_deadline := d\<rparr>]\<rparr>"
  note e1 = index_ok_set_deadline [OF ok Some, of d]
  have i: "i < length (heap e)" using Some index_ok_lookup [OF ok] by simp
  obtain e' where e': "do { (j, e2) \<leftarrow> up ?e1 i; down e2 j } = Some e'" "expiry_inv e'"
    "mset (heap e') = mset (heap ?e1)"
    using up_down_ok [OF e1(1)] heap_hole_update [OF ord i] i by auto
  have "timers e' = timers ?e1"
    using timers_mset [OF e1(1) _ e'(3)] e'(2) by (simp add: expiry_inv_def)
  then show ?thesis
    using e' e1(2) Some i by (simp add: ExpiryIndex_set_def idx_def)
next
  case None
  have ok: "index_ok e" and ord: "heap_ordered (heap e)" using assms by (simp_all add: expiry_inv_def)
  let ?n = "length (heap e)"
  let ?e1 = "\<lparr>heap = heap e @ [\<lparr>t_key = k, t_deadline = d\<rparr>], positions = AList.update k ?n (positions e)\<rparr>"
  note e1 = index_ok_push [OF ok None, of d]
  obtain j e' where e': "up ?e1 ?n = Some (j, e')" "index_ok e'" "j < length (heap e')"
    "mset (heap e') = mset (heap ?e1)" "heap_ordered (heap e')"
    using up_ok [OF e1(1), of ?n] heap_hole_push [OF ord] kids_le_push by auto
  show ?thesis
    using e' e1 None timers_mset [OF e1(1) e'(2,4)] by (simp add: ExpiryIndex_set_def expiry_inv_def)
qed

text \<open>Removal: the last timer takes the removed one's place.\<close>

lemma index_ok_unique:
  assumes "index_ok e" and "i < length (heap e)" and "j < length (heap e)"
  shows "t_key (heap e ! i) = t_key (heap e ! j) \<longleftrightarrow> i = j"
  using index_ok_inj [OF assms] by blast

lemma index_ok_drop_last:
  assumes ok: "index_ok e" and n: "length (heap e) = Suc n" and k: "t_key (heap e ! n) = k"
  defines "e1 \<equiv> \<lparr>heap = butlast (heap e), positions = AList.delete k (positions e)\<rparr>"
  shows "index_ok e1" and "timers e1 = (timers e)(k := None)"
proof -
  have key: "t_key (heap e ! i) = k \<longleftrightarrow> i = n" if "i < Suc n" for i
    using index_ok_unique [OF ok, of i n] that n k by auto
  show ok1: "index_ok e1"
    unfolding index_ok_def
  proof (intro conjI allI)
    show "hm_wf (positions e1)"
      using ok by (simp add: index_ok_def e1_def distinct_delete)
    fix k' i
    show "map_of (positions e1) k' = Some i \<longleftrightarrow> i < length (heap e1) \<and> t_key (heap e1 ! i) = k'"
      using index_ok_lookup [OF ok, of k' i] n key [of i]
      by (auto simp: e1_def hm_simps nth_butlast less_Suc_eq)
  qed
  show "timers e1 = (timers e)(k := None)"
  proof
    fix k'
    have t: "timers e1 k' = map_option (dl (heap e1)) (map_of (positions e1) k')"
      "timers e k' = map_option (dl (heap e)) (map_of (positions e) k')"
      using timers_positions [OF ok1] timers_positions [OF ok] by auto
    show "timers e1 k' = ((timers e)(k := None)) k'"
    proof (cases "map_of (positions e) k'")
      case None
      then show ?thesis using t by (simp add: e1_def hm_simps)
    next
      case (Some j)
      then have "j < Suc n" "t_key (heap e ! j) = k'" using index_ok_lookup [OF ok] n by auto
      then show ?thesis using t Some key [of j] n by (auto simp: e1_def hm_simps nth_butlast)
    qed
  qed
qed

lemma index_ok_move_last:
  assumes ok: "index_ok e" and n: "length (heap e) = Suc n" and i: "i < n" "t_key (heap e ! i) = k"
  defines "e1 \<equiv> \<lparr>heap = butlast ((heap e)[i := last (heap e)]),
    positions = AList.update (t_key (last (heap e))) i (AList.delete k (positions e))\<rparr>"
  shows "index_ok e1" and "timers e1 = (timers e)(k := None)"
proof -
  have last: "last (heap e) = heap e ! n" using n by (cases "heap e" rule: rev_cases) auto
  have nth1: "heap e1 ! j = (if j = i then heap e ! n else heap e ! j)" if "j < n" for j
    using that n i last by (simp add: e1_def nth_butlast nth_list_update)
  have len1: "length (heap e1) = n" using n by (simp add: e1_def)
  have pos1: "map_of (positions e1) k' =
    (if k' = t_key (heap e ! n) then Some i else if k' = k then None else map_of (positions e) k')" for k'
    by (simp add: e1_def hm_simps last)
  have kn: "t_key (heap e ! n) \<noteq> k" using index_ok_unique [OF ok, of i n] n i by auto
  have look: "map_of (positions e) k' = Some j \<longleftrightarrow> j < Suc n \<and> t_key (heap e ! j) = k'" for k' j
    using index_ok_lookup [OF ok] n by simp
  have uniq: "t_key (heap e ! a) = t_key (heap e ! b) \<longleftrightarrow> a = b" if "a < Suc n" "b < Suc n" for a b
    using index_ok_unique [OF ok] that n by simp
  show ok1: "index_ok e1"
    unfolding index_ok_def
  proof (intro conjI allI)
    show "hm_wf (positions e1)"
      using ok by (simp add: index_ok_def e1_def distinct_delete distinct_update)
    fix k' j
    show "map_of (positions e1) k' = Some j \<longleftrightarrow> j < length (heap e1) \<and> t_key (heap e1 ! j) = k'"
      using pos1 [of k'] nth1 [of j] look [of k' j] len1 i kn uniq [of j n] uniq [of j i]
      by (auto simp: less_Suc_eq split: if_splits)
  qed
  show "timers e1 = (timers e)(k := None)"
  proof
    fix k'
    have t: "timers e1 k' = map_option (dl (heap e1)) (map_of (positions e1) k')"
      "timers e k' = map_option (dl (heap e)) (map_of (positions e) k')"
      using timers_positions [OF ok1] timers_positions [OF ok] by auto
    show "timers e1 k' = ((timers e)(k := None)) k'"
    proof (cases "map_of (positions e) k'")
      case None
      then have "k' \<noteq> t_key (heap e ! n)" using look [of k' n] by auto
      then show ?thesis using t pos1 [of k'] None by simp
    next
      case (Some j)
      then have j: "j < Suc n" "t_key (heap e ! j) = k'" using look by blast+
      then show ?thesis
        using t pos1 [of k'] Some i kn nth1 uniq [of j n] uniq [of j i] by (auto simp: less_Suc_eq)
    qed
  qed
qed

lemma heap_ordered_butlast:
  assumes "heap_ordered h"
  shows "heap_ordered (butlast h)"
  unfolding heap_ordered_def
proof (intro allI impI)
  fix i
  assume "i < length (butlast h)" "0 < i"
  then show "dl (butlast h) (parent i) \<le> dl (butlast h) i"
    using assms parent_less [of i] by (simp add: heap_ordered_def nth_butlast)
qed

lemma heap_hole_butlast:
  assumes "heap_hole h i" and "i < length h - 1"
  shows "heap_hole (butlast h) i"
proof (rule heap_holeI)
  fix j
  assume "j < length (butlast h)" "0 < j" "j \<noteq> i" "parent j \<noteq> i"
  then show "dl (butlast h) (parent j) \<le> dl (butlast h) j"
    using assms parent_less [of j] by (simp add: heap_hole_def nth_butlast)
next
  fix j
  assume "j < length (butlast h)" "0 < j" "0 < i" "parent j = i"
  then show "dl (butlast h) (parent i) \<le> dl (butlast h) j"
    using assms parent_less [of i] by (simp add: heap_hole_def nth_butlast)
qed

lemma ExpiryIndex_remove_ok:
  assumes inv: "expiry_inv e"
  shows "\<exists>e'. ExpiryIndex_remove e k = Some e' \<and> expiry_inv e' \<and> timers e' = (timers e)(k := None)"
proof (cases "map_of (positions e) k")
  case None
  have "timers e k = None"
    using timers_positions [of e k] inv None by (simp add: expiry_inv_def)
  then show ?thesis using inv None by (simp add: ExpiryIndex_remove_def fun_upd_idem)
next
  case (Some i)
  have ok: "index_ok e" and ord: "heap_ordered (heap e)" using inv by (simp_all add: expiry_inv_def)
  have i: "i < length (heap e)" "t_key (heap e ! i) = k" using Some index_ok_lookup [OF ok] by auto
  then obtain n where n: "length (heap e) = Suc n" by (cases "length (heap e)") auto
  show ?thesis
  proof (cases "i = n")
    case True
    have last: "(heap e)[n := last (heap e)] = heap e"
      using n by (metis last_conv_nth length_0_conv list_update_id diff_Suc_1 nat.simps(3))
    show ?thesis
      using index_ok_drop_last [OF ok n, of k] i Some n True last heap_ordered_butlast [OF ord]
      by (simp add: ExpiryIndex_remove_def swap_remove_def expiry_inv_def)
  next
    case False
    then have lt: "i < n" using i n by simp
    let ?h = "butlast ((heap e)[i := last (heap e)])"
    let ?e1 = "\<lparr>heap = ?h, positions = AList.update (t_key (last (heap e))) i (AList.delete k (positions e))\<rparr>"
    note e1 = index_ok_move_last [OF ok n lt i(2)]
    have hi: "?h ! i = last (heap e)" using lt n by (simp add: nth_butlast)
    have "heap_hole ?h i"
      using heap_hole_update [OF ord i(1)] lt n by (intro heap_hole_butlast) simp_all
    then obtain e' where e': "do { (j, e2) \<leftarrow> up ?e1 i; down e2 j } = Some e'" "expiry_inv e'"
      "mset (heap e') = mset (heap ?e1)"
      using up_down_ok [OF e1(1)] lt n by auto
    have "timers e' = timers ?e1"
      using timers_mset [OF e1(1) _ e'(3)] e'(2) by (simp add: expiry_inv_def)
    then show ?thesis
      using e' e1(2) Some i lt n hi by (simp add: ExpiryIndex_remove_def swap_remove_def idx_def)
  qed
qed

lemma heap_root_least:
  assumes "heap_ordered h" and "i < length h"
  shows "dl h 0 \<le> dl h i"
  using assms(2)
proof (induction i rule: less_induct)
  case (less i)
  show ?case
  proof (cases "i = 0")
    case False
    then have lt: "parent i < i" by (simp add: parent_less)
    then have "dl h 0 \<le> dl h (parent i)" using less by simp
    also have "\<dots> \<le> dl h i" using assms(1) less.prems False by (simp add: heap_ordered_def)
    finally show ?thesis .
  qed simp
qed

lemma dom_timers: "dom (timers e) = set (map t_key (heap e))"
  by (simp add: timers_def dom_map_of_conv_image_fst timer_pair_def image_image)

lemma expired_None_iff:
  assumes "expiry_inv e"
  shows "ExpiryIndex_expired e now = None \<longleftrightarrow> (\<forall>k d. timers e k = Some d \<longrightarrow> now < d)"
proof (cases "heap e")
  case Nil
  then show ?thesis by (simp add: ExpiryIndex_expired_def timers_def)
next
  case (Cons t ts)
  have ok: "index_ok e" and ord: "heap_ordered (heap e)" using assms by (simp_all add: expiry_inv_def)
  have "timers e (t_key t) = Some (t_deadline t)"
    using Cons by (simp add: timers_def timer_pair_def)
  moreover have "\<forall>k d. timers e k = Some d \<longrightarrow> t_deadline t \<le> d"
    using heap_root_least [OF ord] timers_nth [OF ok] Cons by auto
  moreover have "ExpiryIndex_expired e now = None \<longleftrightarrow> now < t_deadline t"
    using Cons by (simp add: ExpiryIndex_expired_def not_le)
  ultimately show ?thesis by (meson less_le_trans)
qed

lemma expired_SomeD:
  assumes "expiry_inv e" and "ExpiryIndex_expired e now = Some k"
  shows "\<exists>d. timers e k = Some d \<and> d \<le> now \<and> (\<forall>k' d'. timers e k' = Some d' \<longrightarrow> d \<le> d')"
proof -
  have ok: "index_ok e" and ord: "heap_ordered (heap e)" using assms(1) by (simp_all add: expiry_inv_def)
  obtain t ts where h: "heap e = t # ts" and t: "t_deadline t \<le> now" "t_key t = k"
    using assms(2) by (auto simp: ExpiryIndex_expired_def split: list.splits if_splits)
  have "timers e k = Some (t_deadline t)"
    using h t by (simp add: timers_def timer_pair_def)
  moreover have "t_deadline t \<le> d" if "timers e k' = Some d" for k' d
    using heap_root_least [OF ord] timers_nth [OF ok, of k' d] that h by auto
  ultimately show ?thesis using t by blast
qed

interpretation ei: timer_index expiry_inv timers ExpiryIndex_set ExpiryIndex_remove
  ExpiryIndex_expired ExpiryIndex_len
proof unfold_locales
  fix e :: ExpiryIndex
  assume inv: "expiry_inv e"
  then have "distinct (map t_key (heap e))"
    by (simp add: index_ok_distinct expiry_inv_def)
  then have "length (heap e) = card (set (map t_key (heap e)))"
    using distinct_card by fastforce
  then show "ExpiryIndex_len e = card (dom (timers e))"
    using dom_timers [of e] by (simp add: ExpiryIndex_len_def expiry_inv_def)
  show "finite (dom (timers e))"
    using dom_timers [of e] by (simp add: expiry_inv_def)
qed (use ExpiryIndex_set_ok ExpiryIndex_remove_ok expired_None_iff expired_SomeD in \<open>blast+\<close>)

subsection \<open>Properties\<close>

text \<open>Any sequence of calls, on the index and on the finite map it stands for.\<close>

datatype timer_call = SetTimer bytes int | RemoveTimer bytes

fun run_timers :: "timer_call list \<Rightarrow> ExpiryIndex \<Rightarrow> ExpiryIndex option" where
  "run_timers [] e = Some e"
| "run_timers (SetTimer k d # calls) e = do { e' \<leftarrow> ExpiryIndex_set e k d; run_timers calls e' }"
| "run_timers (RemoveTimer k # calls) e = do { e' \<leftarrow> ExpiryIndex_remove e k; run_timers calls e' }"

fun spec_timers :: "timer_call list \<Rightarrow> (bytes \<rightharpoonup> int) \<Rightarrow> (bytes \<rightharpoonup> int)" where
  "spec_timers [] m = m"
| "spec_timers (SetTimer k d # calls) m = spec_timers calls (m(k \<mapsto> d))"
| "spec_timers (RemoveTimer k # calls) m = spec_timers calls (m(k := None))"

lemma run_timers_ok:
  assumes "expiry_inv e"
  shows "\<exists>e'. run_timers calls e = Some e' \<and> expiry_inv e' \<and> timers e' = spec_timers calls (timers e)"
  using assms
proof (induction calls "timers e" arbitrary: e rule: spec_timers.induct)
  case (2 k d calls)
  then obtain e' where "ExpiryIndex_set e k d = Some e'" "expiry_inv e'" "timers e' = (timers e)(k \<mapsto> d)"
    using ei.set_law by blast
  then show ?case using 2(1) [of e'] by simp
next
  case (3 k calls)
  then obtain e' where "ExpiryIndex_remove e k = Some e'" "expiry_inv e'" "timers e' = (timers e)(k := None)"
    using ei.remove_law by blast
  then show ?case using 3(1) [of e'] by simp
qed simp

lemma ExpiryIndex_new_inv:
  "ExpiryIndex_new alloc n = Some e \<Longrightarrow> expiry_inv e \<and> timers e = Map.empty"
  by (auto simp: ExpiryIndex_new_def expiry_inv_def index_ok_def heap_ordered_def timers_def split: if_splits)

text \<open>
  Claim C30. The indexed heap is a finite map from keys to deadlines: any sequence of \<open>set\<close> and
  \<open>remove\<close> calls on a new index runs without a panic (no stale position is ever followed) and leaves
  a heap that is ordered, whose position table is exact, and that holds exactly the deadlines of the
  map. \<open>expired\<close> answers nothing exactly when no deadline has come, and else a key with the least
  deadline.
\<close>

theorem expiry_index_correct:
  assumes "ExpiryIndex_new alloc n = Some e"
  shows "\<exists>e'. run_timers calls e = Some e' \<and> heap_ordered (heap e') \<and>
    (\<forall>k i. map_of (positions e') k = Some i \<longleftrightarrow> i < length (heap e') \<and> t_key (heap e' ! i) = k) \<and>
    timers e' = spec_timers calls Map.empty \<and>
    ExpiryIndex_len e' = card (dom (spec_timers calls Map.empty)) \<and>
    (\<forall>now. case ExpiryIndex_expired e' now of
       None \<Rightarrow> \<forall>k d. spec_timers calls Map.empty k = Some d \<longrightarrow> now < d
     | Some k \<Rightarrow> \<exists>d. spec_timers calls Map.empty k = Some d \<and> d \<le> now \<and>
         (\<forall>k' d'. spec_timers calls Map.empty k' = Some d' \<longrightarrow> d \<le> d'))"
proof -
  obtain e' where e': "run_timers calls e = Some e'" "expiry_inv e'" "timers e' = spec_timers calls Map.empty"
    using run_timers_ok [of e calls] ExpiryIndex_new_inv [OF assms] by auto
  have "case ExpiryIndex_expired e' now of
       None \<Rightarrow> \<forall>k d. timers e' k = Some d \<longrightarrow> now < d
     | Some k \<Rightarrow> \<exists>d. timers e' k = Some d \<and> d \<le> now \<and> (\<forall>k' d'. timers e' k' = Some d' \<longrightarrow> d \<le> d')" for now
    using ei.expired_none [OF e'(2), of now] ei.expired_least [OF e'(2), of now]
    by (cases "ExpiryIndex_expired e' now") simp_all
  note ans = this [unfolded e'(3)]
  have ok: "heap_ordered (heap e')"
    "\<forall>k i. map_of (positions e') k = Some i \<longleftrightarrow> i < length (heap e') \<and> t_key (heap e' ! i) = k"
    using e'(2) unfolding expiry_inv_def index_ok_def by blast+
  show ?thesis
    by (intro exI [of _ e'] conjI allI ok ans e'(1,3)) (use ei.count_law [OF e'(2)] e'(3) ok(2) in simp_all)
qed

theorem expiry_index_correct_witness:
  "\<exists>e'. run_timers [SetTimer ''a'' 7, SetTimer ''b'' 3, SetTimer ''a'' 1, RemoveTimer ''b'']
      \<lparr>heap = [], positions = []\<rparr> = Some e' \<and> timers e' = [''a'' \<mapsto> 1]"
proof -
  have new: "ExpiryIndex_new (\<lambda>_ _. True) 4 = Some \<lparr>heap = [], positions = []\<rparr>"
    by (simp add: ExpiryIndex_new_def)
  have "spec_timers [SetTimer ''a'' 7, SetTimer ''b'' 3, SetTimer ''a'' 1, RemoveTimer ''b''] Map.empty = [''a'' \<mapsto> 1]"
    by (auto simp: fun_eq_iff)
  then show ?thesis
    using expiry_index_correct [OF new, of "[SetTimer ''a'' 7, SetTimer ''b'' 3, SetTimer ''a'' 1, RemoveTimer ''b'']"]
    by auto
qed

end
