(* ===== verification/Shard_Store.thy ===== *)
theory Shard_Store
  imports Command_Parser Expiry_Index
begin

section \<open>The owner-local store (crates/recall-core/src/store.rs)\<close>

text \<open>
  A shard keeps its key table, its expiration index and its accounting. \<open>prepare\<close> computes the
  effects and the reply of a command without changing the shard; \<open>apply\<close> installs them; \<open>execute\<close>
  is one after the other; \<open>expire_due\<close> removes due keys within a budget. \<open>None\<close> is a panic.
\<close>

subsection \<open>State\<close>

record ShardLimits =
  max_keys :: nat
  max_payload_bytes :: nat
  max_reply_bytes :: nat

definition ShardLimits_default :: ShardLimits where
  "ShardLimits_default = \<lparr>max_keys = 16384, max_payload_bytes = 32 * 1024 * 1024,
     max_reply_bytes = 4 * 1024 * 1024\<rparr>"

type_synonym EngineError = bytes

definition EngineError_reply :: "EngineError \<Rightarrow> Reply" where
  "EngineError_reply e = Reply_error e"

record Entry =
  e_value :: bytes
  e_expires :: "int option"

type_synonym Effects = "(bytes \<times> Entry option) list"

record Prepared =
  p_revision :: nat
  p_effects :: Effects
  p_payload_after :: nat
  p_response :: Reply

record ShardStats =
  st_keys :: nat
  st_payload_bytes :: nat
  st_expiring_keys :: nat
  st_expired_keys :: nat
  st_applied_commands :: nat
  st_max_keys :: nat
  st_max_payload_bytes :: nat

record Shard =
  entries :: "(bytes \<times> Entry) list"
  expiry :: ExpiryIndex
  limits :: ShardLimits
  payload_bytes :: nat
  revision :: nat
  expired_keys :: nat
  applied_commands :: nat

definition Shard_new :: "allocator \<Rightarrow> ShardLimits \<Rightarrow> EngineError + Shard" where
  "Shard_new alloc l =
     (if max_keys l = 0 \<or> max_payload_bytes l = 0 \<or> max_reply_bytes l < 64
      then Inl ''ERR invalid shard limits''
      else if \<not> alloc KeyTable (max_keys l) then Inl ''OOM could not reserve key table''
      else case ExpiryIndex_new alloc (max_keys l) of
             None \<Rightarrow> Inl ''OOM could not reserve expiration index''
           | Some e \<Rightarrow> Inr \<lparr>entries = [], expiry = e, limits = l, payload_bytes = 0, revision = 0,
               expired_keys = 0, applied_commands = 0\<rparr>)"

definition Shard_stats :: "Shard \<Rightarrow> ShardStats" where
  "Shard_stats s = \<lparr>st_keys = length (entries s), st_payload_bytes = payload_bytes s,
     st_expiring_keys = ExpiryIndex_len (expiry s), st_expired_keys = expired_keys s,
     st_applied_commands = applied_commands s, st_max_keys = max_keys (limits s),
     st_max_payload_bytes = max_payload_bytes (limits s)\<rparr>"

subsection \<open>observe and preflight\<close>

definition observe :: "Shard \<Rightarrow> bytes \<Rightarrow> int \<Rightarrow> Effects \<Rightarrow> Entry option \<times> Effects" where
  "observe s key now_ms effects =
     (case map_of (entries s) key of
        None \<Rightarrow> (None, effects)
      | Some entry \<Rightarrow>
          (case e_expires entry of
             Some deadline \<Rightarrow>
               if deadline \<le> now_ms then (None, AList.update key None effects)
               else (Some entry, effects)
           | None \<Rightarrow> (Some entry, effects)))"

fun preflight_loop :: "Shard \<Rightarrow> int \<Rightarrow> int \<Rightarrow> Effects \<Rightarrow> int \<times> int" where
  "preflight_loop s keys payload [] = (keys, payload)"
| "preflight_loop s keys payload ((key, next) # rest) =
     (let (keys1, payload1) =
            (case map_of (entries s) key of
               Some old \<Rightarrow> (keys - 1, payload - int (length key + length (e_value old)))
             | None \<Rightarrow> (keys, payload));
          (keys2, payload2) =
            (case next of
               Some e \<Rightarrow> (keys1 + 1, payload1 + int (length key + length (e_value e)))
             | None \<Rightarrow> (keys1, payload1))
      in preflight_loop s keys2 payload2 rest)"

definition preflight :: "Shard \<Rightarrow> Effects \<Rightarrow> Reply \<Rightarrow> (EngineError + Prepared) option" where
  "preflight s effects response =
     (if (case encoded_len response of None \<Rightarrow> True | Some n \<Rightarrow> n > max_reply_bytes (limits s))
      then Some (Inl ''ERR response exceeds configured limit'')
      else let (keys, payload) =
                 preflight_loop s (int (length (entries s))) (int (payload_bytes s)) effects in
        if keys > int (max_keys (limits s)) \<or> payload > int (max_payload_bytes (limits s))
        then Some (Inl ''OOM owner key or payload budget exhausted'')
        else if payload < 0 then None
        else Some (Inr \<lparr>p_revision = revision s, p_effects = effects,
               p_payload_after = nat payload, p_response = response\<rparr>))"

subsection \<open>prepare\<close>

definition overflow_error :: EngineError where
  "overflow_error = ''ERR increment or decrement would overflow''"

definition prepare_set :: "Shard \<Rightarrow> bytes \<Rightarrow> bytes \<Rightarrow> Condition \<Rightarrow> Expiry \<Rightarrow> int \<Rightarrow>
    EngineError + Effects \<times> Reply" where
  "prepare_set s key value condition lifetime now_ms =
     (let (old, effects) = observe s key now_ms [] in
      case (case lifetime of
              Clear \<Rightarrow> Inr None
            | Keep \<Rightarrow> Inr (Option.bind old e_expires)
            | AfterMilliseconds duration \<Rightarrow>
                (case i64_checked_add now_ms duration of
                   Some deadline \<Rightarrow> if duration > 0 then Inr (Some deadline) else Inl set_expire_error
                 | None \<Rightarrow> Inl set_expire_error)) of
        Inl e \<Rightarrow> Inl e
      | Inr deadline \<Rightarrow>
          if (condition = IfAbsent \<and> old \<noteq> None) \<or> (condition = IfPresent \<and> old = None)
          then Inr (effects, Bulk None)
          else Inr (AList.update key (Some \<lparr>e_value = value, e_expires = deadline\<rparr>) effects, Reply_ok))"

definition prepare_increment :: "Shard \<Rightarrow> bytes \<Rightarrow> int \<Rightarrow> bool \<Rightarrow> int \<Rightarrow> EngineError + Effects \<times> Reply" where
  "prepare_increment s key amount subtract now_ms =
     (if subtract \<and> amount = i64_min then Inl overflow_error
      else let (old, effects) = observe s key now_ms [] in
        case (case old of None \<Rightarrow> Inr 0 | Some entry \<Rightarrow> integer (e_value entry)) of
          Inl e \<Rightarrow> Inl e
        | Inr current \<Rightarrow>
            (case (if subtract then i64_checked_sub current amount
                   else i64_checked_add current amount) of
               None \<Rightarrow> Inl overflow_error
             | Some next \<Rightarrow>
                 Inr (AList.update key (Some \<lparr>e_value = i64_to_string next,
                        e_expires = Option.bind old e_expires\<rparr>) effects, Integer next)))"

fun delete_loop :: "Shard \<Rightarrow> int \<Rightarrow> bytes list \<Rightarrow> int \<Rightarrow> Effects \<Rightarrow> int \<times> Effects" where
  "delete_loop s now_ms [] removed effects = (removed, effects)"
| "delete_loop s now_ms (key # keys) removed effects =
     (if map_of effects key \<noteq> None then delete_loop s now_ms keys removed effects
      else let (old, effects1) = observe s key now_ms effects
           in delete_loop s now_ms keys (if old \<noteq> None then removed + 1 else removed)
                (AList.update key None effects1))"

fun exists_loop :: "Shard \<Rightarrow> int \<Rightarrow> bytes list \<Rightarrow> nat \<Rightarrow> Effects \<Rightarrow> nat \<times> Effects" where
  "exists_loop s now_ms [] found effects = (found, effects)"
| "exists_loop s now_ms (key # keys) found effects =
     (let (old, effects1) = observe s key now_ms effects
      in exists_loop s now_ms keys (if old \<noteq> None then found + 1 else found) effects1)"

fun multi_get_loop :: "Shard \<Rightarrow> int \<Rightarrow> bytes list \<Rightarrow> Effects \<Rightarrow> Reply list \<times> Effects" where
  "multi_get_loop s now_ms [] effects = ([], effects)"
| "multi_get_loop s now_ms (key # keys) effects =
     (let (old, effects1) = observe s key now_ms effects;
          (replies, effects2) = multi_get_loop s now_ms keys effects1
      in (Bulk (map_option e_value old) # replies, effects2))"

fun multi_set_loop :: "(bytes \<times> bytes) list \<Rightarrow> Effects \<Rightarrow> Effects" where
  "multi_set_loop [] effects = effects"
| "multi_set_loop ((key, value) # pairs) effects =
     multi_set_loop pairs (AList.update key (Some \<lparr>e_value = value, e_expires = None\<rparr>) effects)"

definition prepare_expire :: "Shard \<Rightarrow> bytes \<Rightarrow> int \<Rightarrow> int \<Rightarrow> EngineError + Effects \<times> Reply" where
  "prepare_expire s key milliseconds now_ms =
     (let (old, effects) = observe s key now_ms [] in
      case old of
        None \<Rightarrow> Inr (effects, Integer 0)
      | Some entry \<Rightarrow>
          if milliseconds \<le> 0 then Inr (AList.update key None effects, Integer 1)
          else (case i64_checked_add now_ms milliseconds of
                  None \<Rightarrow> Inl expire_error
                | Some deadline \<Rightarrow>
                    Inr (AList.update key (Some (entry\<lparr>e_expires := Some deadline\<rparr>)) effects, Integer 1)))"

definition ttl_of :: "Entry option \<Rightarrow> bool \<Rightarrow> int \<Rightarrow> int" where
  "ttl_of old milliseconds now_ms =
     (case old of
        None \<Rightarrow> -2
      | Some entry \<Rightarrow>
          (case e_expires entry of
             None \<Rightarrow> -1
           | Some deadline \<Rightarrow>
               let remaining = i64_saturating_sub deadline now_ms in
               if milliseconds then remaining
               else remaining sdiv 1000 + (if remaining smod 1000 \<ge> 500 then 1 else 0)))"

definition prepare_persist :: "Shard \<Rightarrow> bytes \<Rightarrow> int \<Rightarrow> Effects \<times> Reply" where
  "prepare_persist s key now_ms =
     (let (old, effects) = observe s key now_ms [] in
      case old of
        None \<Rightarrow> (effects, Integer 0)
      | Some entry \<Rightarrow>
          if e_expires entry \<noteq> None
          then (AList.update key (Some (entry\<lparr>e_expires := None\<rparr>)) effects, Integer 1)
          else (effects, Integer 0))"

fun prepare_effects :: "Shard \<Rightarrow> Operation \<Rightarrow> int \<Rightarrow> EngineError + Effects \<times> Reply" where
  "prepare_effects s (Get key) now_ms =
     (let (old, effects) = observe s key now_ms [] in Inr (effects, Bulk (map_option e_value old)))"
| "prepare_effects s (Set key value condition lifetime) now_ms =
     prepare_set s key value condition lifetime now_ms"
| "prepare_effects s (Increment key amount subtract) now_ms =
     prepare_increment s key amount subtract now_ms"
| "prepare_effects s (Delete keys) now_ms =
     (let (removed, effects) = delete_loop s now_ms keys 0 [] in Inr (effects, Integer removed))"
| "prepare_effects s (Exists keys) now_ms =
     (let (found, effects) = exists_loop s now_ms keys 0 [] in Inr (effects, Integer (as_i64 found)))"
| "prepare_effects s (MultiGet keys) now_ms =
     (let (replies, effects) = multi_get_loop s now_ms keys [] in Inr (effects, Array replies))"
| "prepare_effects s (MultiSet pairs) now_ms = Inr (multi_set_loop pairs [], Reply_ok)"
| "prepare_effects s (Expire key milliseconds) now_ms = prepare_expire s key milliseconds now_ms"
| "prepare_effects s (Ttl key milliseconds) now_ms =
     (let (old, effects) = observe s key now_ms []
      in Inr (effects, Integer (ttl_of old milliseconds now_ms)))"
| "prepare_effects s (Persist key) now_ms = Inr (prepare_persist s key now_ms)"

definition prepare :: "allocator \<Rightarrow> Shard \<Rightarrow> Operation \<Rightarrow> int \<Rightarrow> (EngineError + Prepared) option" where
  "prepare alloc s operation now_ms =
     (if \<not> alloc CommandEffects (length (Operation_keys operation))
      then Some (Inl ''OOM could not reserve command effects'')
      else case prepare_effects s operation now_ms of
             Inl e \<Rightarrow> Some (Inl e)
           | Inr (effects, response) \<Rightarrow> preflight s effects response)"

subsection \<open>apply, execute and expire_due\<close>

definition apply_effect :: "bytes \<Rightarrow> Entry option \<Rightarrow> Shard \<Rightarrow> Shard option" where
  "apply_effect key next s =
     (case next of
        Some entry \<Rightarrow> do {
          e \<leftarrow> (case e_expires entry of
                 Some deadline \<Rightarrow> ExpiryIndex_set (expiry s) key deadline
               | None \<Rightarrow> ExpiryIndex_remove (expiry s) key);
          Some (s\<lparr>expiry := e, entries := AList.update key entry (entries s)\<rparr>)
        }
      | None \<Rightarrow> do {
          e \<leftarrow> ExpiryIndex_remove (expiry s) key;
          Some (s\<lparr>expiry := e, entries := AList.delete key (entries s)\<rparr>)
        })"

fun apply_effects :: "Effects \<Rightarrow> Shard \<Rightarrow> Shard option" where
  "apply_effects [] s = Some s"
| "apply_effects ((key, next) # rest) s = do {
     s' \<leftarrow> apply_effect key next s;
     apply_effects rest s'
   }"

definition Shard_apply :: "Shard \<Rightarrow> Prepared \<Rightarrow> (Reply \<times> Shard) option" where
  "Shard_apply s prepared =
     (if revision s \<noteq> p_revision prepared then None
      else do {
        s1 \<leftarrow> apply_effects (p_effects prepared) s;
        rev \<leftarrow> u64_checked_add (revision s1) 1;
        Some (p_response prepared,
          s1\<lparr>payload_bytes := p_payload_after prepared, revision := rev,
             applied_commands := u64_saturating_add (applied_commands s1) 1\<rparr>)
      })"

definition execute :: "allocator \<Rightarrow> Shard \<Rightarrow> Operation \<Rightarrow> int \<Rightarrow> ((EngineError + Reply) \<times> Shard) option" where
  "execute alloc s operation now_ms = do {
     r \<leftarrow> prepare alloc s operation now_ms;
     case r of
       Inl e \<Rightarrow> Some (Inl e, s)
     | Inr prepared \<Rightarrow> do {
         (reply, s') \<leftarrow> Shard_apply s prepared;
         Some (Inr reply, s')
       }
   }"

definition expire_key :: "Shard \<Rightarrow> bytes \<Rightarrow> int \<Rightarrow> Shard option" where
  "expire_key s key now_ms = do {
     e \<leftarrow> ExpiryIndex_remove (expiry s) key;
     entry \<leftarrow> map_of (entries s) key;
     deadline \<leftarrow> e_expires entry;
     if deadline \<le> now_ms then
       if length key + length (e_value entry) \<le> payload_bytes s then do {
         rev \<leftarrow> u64_checked_add (revision s) 1;
         Some (s\<lparr>expiry := e, entries := AList.delete key (entries s),
           payload_bytes := payload_bytes s - (length key + length (e_value entry)),
           expired_keys := u64_saturating_add (expired_keys s) 1,
           revision := rev\<rparr>)
       }
       else None
     else None
   }"

function expire_loop :: "Shard \<Rightarrow> int \<Rightarrow> nat \<Rightarrow> nat \<Rightarrow> (nat \<times> Shard) option" where
  "expire_loop s now_ms budget removed =
     (if removed < budget then
        (case ExpiryIndex_expired (expiry s) now_ms of
           None \<Rightarrow> Some (removed, s)
         | Some key \<Rightarrow> do {
             s' \<leftarrow> expire_key s key now_ms;
             expire_loop s' now_ms budget (removed + 1)
           })
      else Some (removed, s))"
  by pat_completeness auto
termination
  by (relation "measure (\<lambda>(_, _, budget, removed). budget - removed)") auto

declare expire_loop.simps [simp del]

definition expire_due :: "Shard \<Rightarrow> int \<Rightarrow> nat \<Rightarrow> (nat \<times> Shard) option" where
  "expire_due s now_ms budget = expire_loop s now_ms budget 0"

end
