(* ===== verification/Keyspace_Spec.thy ===== *)
theory Keyspace_Spec
  imports Shard_Store
begin

section \<open>What the keyspace promises\<close>

text \<open>
  The abstract specification of the data commands: a keyspace is a map from keys to live entries,
  and a command maps a keyspace and the time to an error or a reply and a new keyspace. It knows
  nothing of effects, hash tables, timers, budgets or lazily removed keys. \<open>live now m\<close> is the
  keyspace a physical table \<open>m\<close> stands for at time \<open>now\<close>: the entries whose deadline has not
  come.
\<close>

type_synonym keyspace = "bytes \<rightharpoonup> Entry"

definition due :: "int \<Rightarrow> Entry \<Rightarrow> bool" where
  "due now e = (case e_expires e of None \<Rightarrow> False | Some d \<Rightarrow> d \<le> now)"

definition live :: "int \<Rightarrow> keyspace \<Rightarrow> keyspace" where
  "live now m = (\<lambda>k. case m k of None \<Rightarrow> None | Some e \<Rightarrow> if due now e then None else Some e)"

definition spec_set :: "int \<Rightarrow> keyspace \<Rightarrow> bytes \<Rightarrow> bytes \<Rightarrow> Condition \<Rightarrow> Expiry \<Rightarrow>
    EngineError + Reply \<times> keyspace" where
  "spec_set now m k v c x =
     (let store = (\<lambda>d. Inr (if (c = IfAbsent \<and> m k \<noteq> None) \<or> (c = IfPresent \<and> m k = None)
                            then (Bulk None, m)
                            else (Reply_ok, m(k \<mapsto> \<lparr>e_value = v, e_expires = d\<rparr>))))
      in case x of
           Clear \<Rightarrow> store None
         | Keep \<Rightarrow> store (Option.bind (m k) e_expires)
         | AfterMilliseconds ms \<Rightarrow>
             if 0 < ms \<and> in_i64 (now + ms) then store (Some (now + ms)) else Inl set_expire_error)"

definition spec_increment :: "keyspace \<Rightarrow> bytes \<Rightarrow> int \<Rightarrow> bool \<Rightarrow> EngineError + Reply \<times> keyspace" where
  "spec_increment m k n subtract =
     (if subtract \<and> n = i64_min then Inl overflow_error
      else case (case m k of None \<Rightarrow> Inr 0 | Some e \<Rightarrow> integer (e_value e)) of
             Inl e \<Rightarrow> Inl e
           | Inr current \<Rightarrow>
               let new = (if subtract then current - n else current + n) in
               if in_i64 new
               then Inr (Integer new,
                      m(k \<mapsto> \<lparr>e_value = i64_to_string new, e_expires = Option.bind (m k) e_expires\<rparr>))
               else Inl overflow_error)"

definition spec_expire :: "int \<Rightarrow> keyspace \<Rightarrow> bytes \<Rightarrow> int \<Rightarrow> EngineError + Reply \<times> keyspace" where
  "spec_expire now m k ms =
     (case m k of
        None \<Rightarrow> Inr (Integer 0, m)
      | Some e \<Rightarrow>
          if ms \<le> 0 then Inr (Integer 1, m(k := None))
          else if in_i64 (now + ms)
          then Inr (Integer 1, m(k \<mapsto> e\<lparr>e_expires := Some (now + ms)\<rparr>))
          else Inl expire_error)"

text \<open>Remaining time, in milliseconds or rounded to the nearest second.\<close>

definition spec_ttl :: "int \<Rightarrow> keyspace \<Rightarrow> bytes \<Rightarrow> bool \<Rightarrow> int" where
  "spec_ttl now m k ms =
     (case m k of
        None \<Rightarrow> -2
      | Some e \<Rightarrow>
          (case e_expires e of
             None \<Rightarrow> -1
           | Some d \<Rightarrow>
               let r = min i64_max (d - now) in if ms then r else (r + 500) div 1000))"

definition spec_persist :: "keyspace \<Rightarrow> bytes \<Rightarrow> Reply \<times> keyspace" where
  "spec_persist m k =
     (case m k of
        None \<Rightarrow> (Integer 0, m)
      | Some e \<Rightarrow>
          if e_expires e = None then (Integer 0, m)
          else (Integer 1, m(k \<mapsto> e\<lparr>e_expires := None\<rparr>)))"

definition spec_bulk :: "keyspace \<Rightarrow> bytes \<Rightarrow> Reply" where
  "spec_bulk m k = Bulk (map_option e_value (m k))"

text \<open>A repeated assignment keeps the last value; a repeated deletion counts once.\<close>

fun spec_op :: "int \<Rightarrow> keyspace \<Rightarrow> Operation \<Rightarrow> EngineError + Reply \<times> keyspace" where
  "spec_op now m (Get k) = Inr (spec_bulk m k, m)"
| "spec_op now m (Set k v c x) = spec_set now m k v c x"
| "spec_op now m (Increment k n subtract) = spec_increment m k n subtract"
| "spec_op now m (Delete ks) =
     Inr (Integer (int (length (filter (\<lambda>k. m k \<noteq> None) (remdups ks)))),
          \<lambda>k. if k \<in> set ks then None else m k)"
| "spec_op now m (Exists ks) = Inr (Integer (int (length (filter (\<lambda>k. m k \<noteq> None) ks))), m)"
| "spec_op now m (MultiGet ks) = Inr (Array (map (spec_bulk m) ks), m)"
| "spec_op now m (MultiSet kvs) =
     Inr (Reply_ok,
          m ++ map_of (rev (map (\<lambda>(k, v). (k, \<lparr>e_value = v, e_expires = None\<rparr>)) kvs)))"
| "spec_op now m (Expire k ms) = spec_expire now m k ms"
| "spec_op now m (Ttl k ms) = Inr (Integer (spec_ttl now m k ms), m)"
| "spec_op now m (Persist k) = Inr (spec_persist m k)"

subsection \<open>Live entries\<close>

lemma live_simps [simp]:
  "live now (m(k := None)) = (live now m)(k := None)"
  "due now e \<Longrightarrow> live now (m(k \<mapsto> e)) = (live now m)(k := None)"
  "\<not> due now e \<Longrightarrow> live now (m(k \<mapsto> e)) = (live now m)(k \<mapsto> e)"
  "live now Map.empty = Map.empty"
  by (auto simp: live_def)

lemma due_mono: "due now e \<Longrightarrow> now \<le> later \<Longrightarrow> due later e"
  by (auto simp: due_def split: option.splits)

text \<open>What is live later is decided by what is live now: time only takes entries away.\<close>

lemma live_live: "now \<le> later \<Longrightarrow> live later (live now m) = live later m"
  by (rule ext) (auto simp: live_def due_mono split: option.splits)

lemma live_SomeD: "live now m k = Some e \<Longrightarrow> m k = Some e \<and> \<not> due now e"
  by (auto simp: live_def split: option.splits if_splits)

lemma live_eq_None: "live now m k = None \<longleftrightarrow> (\<forall>e. m k = Some e \<longrightarrow> due now e)"
  by (auto simp: live_def split: option.splits)

end
