(* ===== verification/Shard_Props.thy ===== *)
theory Shard_Props
  imports Keyspace_Spec
begin

section \<open>Correctness of the owner-local store\<close>

text \<open>
  The shard invariant, its preservation by every operation without a panic, and the refinement of
  the abstract keyspace by \<open>execute\<close>.
\<close>

subsection \<open>The invariant\<close>

definition entry_bytes :: "bytes \<Rightarrow> Entry \<Rightarrow> int" where
  "entry_bytes k e = int (length k + length (e_value e))"

abbreviation "table" :: "Shard \<Rightarrow> keyspace" where
  "table s \<equiv> map_of (entries s)"

text \<open>The table and the timers agree: every entry with a deadline has its timer, and no other key.\<close>

definition shard_core :: "Shard \<Rightarrow> bool" where
  "shard_core s \<longleftrightarrow> hm_wf (entries s) \<and> expiry_inv (expiry s) \<and>
     timers (expiry s) = (\<lambda>k. Option.bind (table s k) e_expires)"

definition shard_inv :: "Shard \<Rightarrow> bool" where
  "shard_inv s \<longleftrightarrow> shard_core s \<and>
     int (payload_bytes s) = alist_total entry_bytes (entries s) \<and>
     length (entries s) \<le> max_keys (limits s) \<and>
     payload_bytes s \<le> max_payload_bytes (limits s) \<and>
     (\<forall>k e d. table s k = Some e \<longrightarrow> e_expires e = Some d \<longrightarrow> in_i64 d)"

lemma entry_bytes_nonneg: "0 \<le> entry_bytes k e"
  by (simp add: entry_bytes_def)

lemma Shard_new_inv:
  assumes "Shard_new alloc l = Inr s"
  shows "shard_inv s" and "limits s = l" and "table s = Map.empty"
  using assms
  by (auto simp: Shard_new_def ExpiryIndex_new_def shard_inv_def shard_core_def alist_total_def
      expiry_inv_def index_ok_def heap_ordered_def timers_def fun_eq_iff split: if_splits)

subsection \<open>Applying effects\<close>

lemma apply_effect_ok:
  assumes "shard_core s"
  shows "\<exists>s'. apply_effect k x s = Some s' \<and> shard_core s' \<and> entries s' = patch [(k, x)] (entries s) \<and>
    s' = s\<lparr>expiry := expiry s', entries := entries s'\<rparr>"
proof -
  have inv: "expiry_inv (expiry s)" and wf: "hm_wf (entries s)"
    and tm: "timers (expiry s) = (\<lambda>k. Option.bind (table s k) e_expires)"
    using assms by (simp_all add: shard_core_def)
  obtain e where e: "ei.put (expiry s) k (Option.bind x e_expires) = Some e" "expiry_inv e"
    "timers e = (timers (expiry s))(k := Option.bind x e_expires)"
    using ei.put_law [OF inv] by blast
  let ?s = "s\<lparr>expiry := e, entries := patch [(k, x)] (entries s)\<rparr>"
  have "apply_effect k x s = Some ?s"
    using e(1) by (auto simp: apply_effect_def ei.put_def split: option.splits)
  moreover have "shard_core ?s"
    using e(2,3) wf tm hm_wf_patch [OF wf, of "[(k, x)]"]
    by (auto simp: shard_core_def map_of_patch)
  ultimately show ?thesis by auto
qed

lemma apply_effects_ok:
  assumes "shard_core s"
  shows "\<exists>s'. apply_effects eff s = Some s' \<and> shard_core s' \<and> entries s' = patch eff (entries s) \<and>
    s' = s\<lparr>expiry := expiry s', entries := entries s'\<rparr>"
  using assms
proof (induction eff arbitrary: s)
  case Nil
  then show ?case by simp
next
  case (Cons kx eff)
  obtain k x where kx: "kx = (k, x)" by (cases kx)
  obtain s1 where s1: "apply_effect k x s = Some s1" "shard_core s1"
    "entries s1 = patch [(k, x)] (entries s)" "s1 = s\<lparr>expiry := expiry s1, entries := entries s1\<rparr>"
    using apply_effect_ok [OF Cons.prems] by blast
  obtain s2 where s2: "apply_effects eff s1 = Some s2" "shard_core s2"
    "entries s2 = patch eff (entries s1)" "s2 = s1\<lparr>expiry := expiry s2, entries := entries s2\<rparr>"
    using Cons.IH [OF s1(2)] by blast
  have "patch (kx # eff) (entries s) = patch eff (entries s1)"
    using s1(3) kx by (cases x) auto
  moreover have "s2 = s\<lparr>expiry := expiry s2, entries := entries s2\<rparr>"
    by (subst s2(4), subst s1(4)) simp
  ultimately show ?case using s1(1) s2 kx by auto
qed

subsection \<open>Admission: preflight computes the size of the patched table\<close>

lemma preflight_loop_sum:
  "preflight_loop s keys payload eff =
    (keys + sum_list (map (\<lambda>(k, x). weight (\<lambda>_ _. 1) k x - weight (\<lambda>_ _. 1) k (table s k)) eff),
     payload + sum_list (map (\<lambda>(k, x). weight entry_bytes k x - weight entry_bytes k (table s k)) eff))"
proof (induction eff arbitrary: keys payload)
  case (Cons kx eff)
  obtain k x where kx: "kx = (k, x)" by (cases kx)
  show ?case
    using Cons by (cases "table s k"; cases x) (simp_all add: kx entry_bytes_def)
qed simp

lemma preflight_loop_patch:
  assumes "shard_inv s" and "hm_wf eff"
  shows "preflight_loop s (int (length (entries s))) (int (payload_bytes s)) eff =
    (int (length (patch eff (entries s))), alist_total entry_bytes (patch eff (entries s)))"
proof -
  have "hm_wf (entries s)" "int (payload_bytes s) = alist_total entry_bytes (entries s)"
    using assms(1) by (simp_all add: shard_inv_def shard_core_def)
  then show ?thesis
    using alist_total_patch [OF assms(2), of "entries s" "\<lambda>_ _. 1"]
      alist_total_patch [OF assms(2), of "entries s" entry_bytes]
    by (simp add: preflight_loop_sum alist_total_one)
qed

definition reply_fits :: "Shard \<Rightarrow> Reply \<Rightarrow> bool" where
  "reply_fits s reply = (case encoded_len reply of None \<Rightarrow> False | Some n \<Rightarrow> n \<le> max_reply_bytes (limits s))"

definition table_fits :: "Shard \<Rightarrow> (bytes \<times> Entry) list \<Rightarrow> bool" where
  "table_fits s m \<longleftrightarrow> length m \<le> max_keys (limits s) \<and>
     alist_total entry_bytes m \<le> int (max_payload_bytes (limits s))"

lemma preflight_eq:
  assumes "shard_inv s" and "hm_wf eff"
  shows "preflight s eff reply =
    Some (if \<not> reply_fits s reply then Inl ''ERR response exceeds configured limit''
          else if \<not> table_fits s (patch eff (entries s))
          then Inl ''OOM owner key or payload budget exhausted''
          else Inr \<lparr>p_revision = revision s, p_effects = eff,
            p_payload_after = nat (alist_total entry_bytes (patch eff (entries s))), p_response = reply\<rparr>)"
  using alist_total_nonneg [where f = entry_bytes and m = "patch eff (entries s)", OF entry_bytes_nonneg]
  by (auto simp: preflight_def preflight_loop_patch [OF assms] reply_fits_def table_fits_def
      split: option.splits)

subsection \<open>prepare computes the effects of the specification\<close>

text \<open>
  \<open>eff_spec\<close> relates the outcome of \<open>prepare_effects\<close> to the outcome of the specification on the
  live keyspace: the same error, or the same reply and effects whose installation gives the
  specified keyspace. New deadlines are machine integers.
\<close>

definition eff_ok :: "Shard \<Rightarrow> Effects \<Rightarrow> bool" where
  "eff_ok s eff \<longleftrightarrow> hm_wf eff \<and>
     (\<forall>k e d. map_of eff k = Some (Some e) \<longrightarrow> e_expires e = Some d \<longrightarrow> in_i64 d)"

fun eff_spec :: "Shard \<Rightarrow> int \<Rightarrow> EngineError + Effects \<times> Reply \<Rightarrow> EngineError + Reply \<times> keyspace \<Rightarrow> bool" where
  "eff_spec s now (Inl e) r = (r = Inl e)"
| "eff_spec s now (Inr (eff, reply)) r =
     (eff_ok s eff \<and> r = Inr (reply, live now (override (table s) eff)))"

lemma observe_eq:
  "observe s k now eff =
    (live now (table s) k,
     if \<exists>e. table s k = Some e \<and> due now e then AList.update k None eff else eff)"
  by (auto simp: observe_def live_def due_def split: option.splits)

text \<open>Effects that only remove keys that are not live leave the live keyspace as it is.\<close>

definition only_expired :: "Shard \<Rightarrow> int \<Rightarrow> Effects \<Rightarrow> bool" where
  "only_expired s now eff \<longleftrightarrow> hm_wf eff \<and>
     (\<forall>k x. map_of eff k = Some x \<longrightarrow> x = None \<and> live now (table s) k = None)"

lemma only_expired_Nil [simp]: "only_expired s now []"
  by (simp add: only_expired_def)

lemma only_expired_ok: "only_expired s now eff \<Longrightarrow> eff_ok s eff"
  unfolding only_expired_def eff_ok_def by blast

lemma only_expired_live:
  assumes "only_expired s now eff"
  shows "live now (override (table s) eff) = live now (table s)"
proof
  fix k
  show "live now (override (table s) eff) k = live now (table s) k"
    using assms unfolding only_expired_def
    by (cases "map_of eff k") (fastforce simp: override_def live_def)+
qed

lemma observe_only_expired:
  assumes "only_expired s now eff" and "observe s k now eff = (old, eff')"
  shows "only_expired s now eff'" and "old = live now (table s) k"
  using assms
  by (auto simp: observe_eq only_expired_def hm_simps distinct_update live_eq_None
      split: if_splits)

lemma observe_then_update:
  assumes "observe s k now [] = (old, eff)"
  shows "AList.update k x eff = [(k, x)]"
  using assms by (auto simp: observe_eq split: if_splits)

lemma eff_spec_keep:
  assumes "observe s k now [] = (old, eff)"
  shows "eff_spec s now (Inr (eff, reply)) (Inr (reply, live now (table s)))"
  using observe_only_expired(1) [OF only_expired_Nil assms]
  by (simp add: only_expired_ok only_expired_live)

lemma eff_spec_put:
  assumes "\<not> due now e" and "\<And>d. e_expires e = Some d \<Longrightarrow> in_i64 d"
  shows "eff_spec s now (Inr ([(k, Some e)], reply)) (Inr (reply, (live now (table s))(k \<mapsto> e)))"
  using assms by (simp add: eff_ok_def)

lemma live_deadline:
  assumes "shard_inv s" and "live now (table s) k = Some e" and "e_expires e = Some d"
  shows "in_i64 d" and "now < d"
  using assms live_SomeD [OF assms(2)] by (auto simp: shard_inv_def due_def)

lemma prepare_set_spec:
  assumes inv: "shard_inv s"
  shows "eff_spec s now (prepare_set s k v c x now) (spec_set now (live now (table s)) k v c x)"
proof -
  obtain old eff where ob: "observe s k now [] = (old, eff)" by fastforce
  have old: "old = live now (table s) k" using observe_only_expired(2) [OF only_expired_Nil ob] .
  let ?skip = "(c = IfAbsent \<and> old \<noteq> None) \<or> (c = IfPresent \<and> old = None)"
  have store: "eff_spec s now
      (if ?skip then Inr (eff, Bulk None)
       else Inr (AList.update k (Some \<lparr>e_value = v, e_expires = d\<rparr>) eff, Reply_ok))
      (Inr (if ?skip then (Bulk None, live now (table s))
            else (Reply_ok, (live now (table s))(k \<mapsto> \<lparr>e_value = v, e_expires = d\<rparr>))))"
    if "\<And>t. d = Some t \<Longrightarrow> now < t \<and> in_i64 t" for d
  proof -
    have "\<not> due now \<lparr>e_value = v, e_expires = d\<rparr>"
      using that by (auto simp: due_def split: option.splits)
    then have "eff_spec s now (Inr ([(k, Some \<lparr>e_value = v, e_expires = d\<rparr>)], Reply_ok))
        (Inr (Reply_ok, (live now (table s))(k \<mapsto> \<lparr>e_value = v, e_expires = d\<rparr>)))"
      using that by (intro eff_spec_put) simp_all
    then show ?thesis
      using eff_spec_keep [OF ob, of "Bulk None"]
      by (cases ?skip) (simp_all only: observe_then_update [OF ob] if_True if_False)
  qed
  show ?thesis
  proof (cases x)
    case Clear
    then show ?thesis using store [of None] ob old by (simp add: prepare_set_def spec_set_def)
  next
    case Keep
    have "now < t \<and> in_i64 t" if "Option.bind old e_expires = Some t" for t
      using that live_deadline [OF inv] old by (auto simp: bind_eq_Some_conv)
    then show ?thesis
      using Keep store [of "Option.bind old e_expires"] ob old [symmetric]
      by (simp add: prepare_set_def spec_set_def del: eff_spec.simps)
  next
    case (AfterMilliseconds ms)
    then show ?thesis
      using store [of "Some (now + ms)"] ob old
      by (auto simp: prepare_set_def spec_set_def i64_checked_add_def)
  qed
qed

lemma prepare_increment_spec:
  assumes inv: "shard_inv s"
  shows "eff_spec s now (prepare_increment s k n b now) (spec_increment (live now (table s)) k n b)"
proof -
  obtain old eff where ob: "observe s k now [] = (old, eff)" by fastforce
  have old: "old = live now (table s) k" using observe_only_expired(2) [OF only_expired_Nil ob] .
  have put: "eff_spec s now (Inr (AList.update k (Some \<lparr>e_value = v, e_expires = Option.bind old e_expires\<rparr>) eff, r))
      (Inr (r, (live now (table s))(k \<mapsto> \<lparr>e_value = v, e_expires = Option.bind old e_expires\<rparr>)))" for v r
  proof -
    have "now < t \<and> in_i64 t" if "Option.bind old e_expires = Some t" for t
      using that live_deadline [OF inv] old by (auto simp: bind_eq_Some_conv)
    then show ?thesis
      unfolding observe_then_update [OF ob] by (intro eff_spec_put) (auto simp: due_def split: option.splits)
  qed
  show ?thesis
    using put old ob
    by (auto simp: prepare_increment_def spec_increment_def i64_checked_add_def i64_checked_sub_def Let_def
        split: sum.splits simp del: eff_spec.simps(2))
qed

lemma prepare_expire_spec:
  assumes inv: "shard_inv s"
  shows "eff_spec s now (prepare_expire s k ms now) (spec_expire now (live now (table s)) k ms)"
proof -
  obtain old eff where ob: "observe s k now [] = (old, eff)" by fastforce
  have old: "old = live now (table s) k" using observe_only_expired(2) [OF only_expired_Nil ob] .
  show ?thesis
  proof (cases old)
    case None
    then show ?thesis
      using eff_spec_keep [OF ob] ob old by (simp add: prepare_expire_def spec_expire_def)
  next
    case (Some e)
    have "eff_spec s now (Inr ([(k, Some (e\<lparr>e_expires := Some (now + ms)\<rparr>))], Integer 1))
        (Inr (Integer 1, (live now (table s))(k \<mapsto> e\<lparr>e_expires := Some (now + ms)\<rparr>)))"
      if "0 < ms" "in_i64 (now + ms)"
      using that by (intro eff_spec_put) (auto simp: due_def)
    moreover have "eff_spec s now (Inr ([(k, None)], Integer 1)) (Inr (Integer 1, (live now (table s))(k := None)))"
      by (simp add: eff_ok_def)
    ultimately show ?thesis
      using Some ob old [symmetric]
      by (auto simp: prepare_expire_def spec_expire_def i64_checked_add_def observe_then_update [OF ob]
          simp del: eff_spec.simps(2))
  qed
qed

lemma round_to_seconds:
  assumes "0 \<le> (r::int)"
  shows "r sdiv 1000 + (if r smod 1000 \<ge> 500 then 1 else 0) = (r + 500) div 1000"
proof -
  have "r sdiv 1000 = r div 1000" "r smod 1000 = r mod 1000"
    using assms by (cases "r = 0"; simp add: signed_divide_int_def signed_modulo_int_def)+
  moreover have "(if r mod 1000 \<ge> 500 then 1 else 0) + r div 1000 = (r + 500) div 1000"
  proof (rule int_div_pos_eq [symmetric])
    let ?m = "r mod 1000" and ?q = "r div 1000"
    have "0 \<le> ?m" "?m < 1000" "r = 1000 * ?q + ?m" by simp_all
    then show "r + 500 = 1000 * ((if ?m \<ge> 500 then 1 else 0) + ?q) +
        (if ?m \<ge> 500 then ?m - 500 else ?m + 500)"
      and "0 \<le> (if ?m \<ge> 500 then ?m - 500 else ?m + 500)"
      and "(if ?m \<ge> 500 then ?m - 500 else ?m + 500) < 1000"
      by (auto split: if_splits)
  qed
  ultimately show ?thesis by (simp only: add.commute)
qed

lemma ttl_of_spec:
  assumes inv: "shard_inv s" and old: "old = live now (table s) k"
  shows "ttl_of old ms now = spec_ttl now (live now (table s)) k ms"
proof (cases "\<exists>e d. old = Some e \<and> e_expires e = Some d")
  case True
  then obtain e d where e: "old = Some e" "e_expires e = Some d" by blast
  then have "now < d" using live_deadline [OF inv] old by simp
  then have "i64_saturating_sub d now = min i64_max (d - now)" "0 \<le> min i64_max (d - now)"
    by (auto simp: machine_defs)
  then show ?thesis
    using e old [symmetric] round_to_seconds [of "min i64_max (d - now)"]
    by (simp only: ttl_of_def spec_ttl_def option.case Let_def)
next
  case False
  then show ?thesis using old [symmetric] by (auto simp: ttl_of_def spec_ttl_def split: option.splits)
qed

lemma prepare_persist_spec:
  assumes inv: "shard_inv s"
  shows "eff_spec s now (Inr (prepare_persist s k now)) (Inr (spec_persist (live now (table s)) k))"
proof -
  obtain old eff where ob: "observe s k now [] = (old, eff)" by fastforce
  have old: "old = live now (table s) k" using observe_only_expired(2) [OF only_expired_Nil ob] .
  have "eff_spec s now (Inr ([(k, Some (e\<lparr>e_expires := None\<rparr>))], Integer 1))
      (Inr (Integer 1, (live now (table s))(k \<mapsto> e\<lparr>e_expires := None\<rparr>)))" for e
    by (intro eff_spec_put) (auto simp: due_def)
  then show ?thesis
    using eff_spec_keep [OF ob, of "Integer 0"] ob old [symmetric]
    by (auto simp: prepare_persist_def spec_persist_def observe_then_update [OF ob]
        split: option.splits simp del: eff_spec.simps(2))
qed

subsection \<open>Multi-key commands\<close>

lemma exists_loop_eq:
  assumes "only_expired s now eff"
  shows "\<exists>eff'. exists_loop s now ks n eff =
      (n + length (filter (\<lambda>k. live now (table s) k \<noteq> None) ks), eff') \<and> only_expired s now eff'"
  using assms
proof (induction ks arbitrary: n eff)
  case (Cons k ks)
  obtain old eff1 where ob: "observe s k now eff = (old, eff1)" by fastforce
  note o1 = observe_only_expired [OF Cons.prems ob]
  show ?case
    using Cons.IH [OF o1(1), of "if old \<noteq> None then n + 1 else n"] ob o1(2)
    by (cases "live now (table s) k") auto
qed simp

lemma multi_get_loop_eq:
  assumes "only_expired s now eff"
  shows "\<exists>eff'. multi_get_loop s now ks eff = (map (spec_bulk (live now (table s))) ks, eff') \<and>
    only_expired s now eff'"
  using assms
proof (induction ks arbitrary: eff)
  case (Cons k ks)
  obtain old eff1 where ob: "observe s k now eff = (old, eff1)" by fastforce
  note o1 = observe_only_expired [OF Cons.prems ob]
  show ?case using Cons.IH [OF o1(1)] ob o1(2) by (fastforce simp: spec_bulk_def)
qed simp

text \<open>Deletion marks each of its keys for removal, whether it was there or not.\<close>

definition removes :: "Effects \<Rightarrow> bytes set \<Rightarrow> bool" where
  "removes eff K \<longleftrightarrow> hm_wf eff \<and> map_of eff = (\<lambda>k. if k \<in> K then Some None else None)"

lemma removes_update: "removes eff K \<Longrightarrow> removes (AList.update k None eff) (insert k K)"
  by (auto simp: removes_def hm_simps distinct_update)

lemma delete_loop_eq:
  assumes "removes eff K"
  shows "\<exists>eff'. delete_loop s now ks n eff =
      (n + int (card {k \<in> set ks. k \<notin> K \<and> live now (table s) k \<noteq> None}), eff') \<and>
    removes eff' (K \<union> set ks)"
  using assms
proof (induction ks arbitrary: n eff K)
  case Nil
  then show ?case by simp
next
  case (Cons k ks)
  let ?D = "\<lambda>K ks. {k \<in> set ks. k \<notin> K \<and> live now (table s) k \<noteq> None}"
  show ?case
  proof (cases "k \<in> K")
    case True
    then have "?D K (k # ks) = ?D K ks" "K \<union> set (k # ks) = K \<union> set ks" by auto
    then show ?thesis
      using True Cons.IH [OF Cons.prems, of n] Cons.prems by (simp add: removes_def)
  next
    case False
    obtain old eff1 where ob: "observe s k now eff = (old, eff1)" by fastforce
    have old: "old = live now (table s) k" and "removes (AList.update k None eff1) (insert k K)"
      using ob Cons.prems removes_update [of eff K k] removes_update [of "AList.update k None eff" "insert k K" k]
      by (auto simp: observe_eq split: if_splits)
    then obtain eff' where IH: "delete_loop s now ks (if old \<noteq> None then n + 1 else n) (AList.update k None eff1) =
        ((if old \<noteq> None then n + 1 else n) + int (card (?D (insert k K) ks)), eff')"
      "removes eff' (insert k K \<union> set ks)"
      using Cons.IH by blast
    have "?D K (k # ks) = (if old \<noteq> None then insert k (?D (insert k K) ks) else ?D (insert k K) ks)"
      using False old by auto
    moreover have "k \<notin> ?D (insert k K) ks" by simp
    ultimately show ?thesis
      using IH False Cons.prems ob by (auto simp: removes_def)
  qed
qed

lemma multi_set_loop_eq:
  assumes "eff_ok s eff"
  shows "eff_ok s (multi_set_loop kvs eff)"
    and "map_of (multi_set_loop kvs eff) =
      map_of eff ++ map_of (rev (map (\<lambda>(k, v). (k, Some \<lparr>e_value = v, e_expires = None\<rparr>)) kvs))"
  using assms
proof (induction kvs arbitrary: eff)
  case (Cons kv kvs)
  obtain k v where kv: "kv = (k, v)" by (cases kv)
  have ok: "eff_ok s (AList.update k (Some \<lparr>e_value = v, e_expires = None\<rparr>) eff)"
    if "eff_ok s eff" for eff
    using that by (auto simp: eff_ok_def hm_simps distinct_update split: if_splits)
  {
    case 1
    show ?case using Cons.IH(1) [OF ok [OF 1]] kv by simp
  next
    case 2
    show ?case
      using Cons.IH(2) [OF ok [OF 2]] kv
      by (auto simp: hm_simps map_add_def fun_eq_iff split: option.splits)
  }
qed simp_all

lemma override_removes:
  "removes eff K \<Longrightarrow> live now (override m eff) = (\<lambda>k. if k \<in> K then None else live now m k)"
  by (auto simp: removes_def override_def live_def fun_eq_iff)

lemma live_map_add:
  assumes "\<And>k e. m' k = Some e \<Longrightarrow> \<not> due now e"
  shows "live now (m ++ m') = live now m ++ m'"
  using assms by (auto simp: live_def map_add_def fun_eq_iff split: option.splits)

lemma override_map_option:
  assumes "map_of eff = map_of (map (\<lambda>(k, e). (k, Some e)) kes)"
  shows "override m eff = m ++ map_of kes"
proof -
  have "map_of (map (\<lambda>(k, e). (k, Some e)) kes) k = map_option Some (map_of kes k)" for k
    by (induction kes) auto
  then show ?thesis
    using assms by (auto simp: override_def map_add_def fun_eq_iff split: option.splits)
qed

lemma multi_set_spec:
  "eff_spec s now (Inr (multi_set_loop kvs [], Reply_ok)) (spec_op now (live now (table s)) (MultiSet kvs))"
proof -
  let ?kes = "rev (map (\<lambda>(k, v). (k, \<lparr>e_value = v, e_expires = None\<rparr>)) kvs)"
  have "map (\<lambda>(k, e). (k, Some e)) ?kes = rev (map (\<lambda>(k, v). (k, Some \<lparr>e_value = v, e_expires = None\<rparr>)) kvs)"
    by (simp add: rev_map comp_def split_def)
  then have "override (table s) (multi_set_loop kvs []) = table s ++ map_of ?kes"
    using multi_set_loop_eq(2) [of s "[]" kvs] by (intro override_map_option) (simp add: eff_ok_def)
  moreover have "\<not> due now e" if "map_of ?kes k = Some e" for k e
    using that by (auto dest!: map_of_SomeD simp: due_def)
  from live_map_add [of "map_of ?kes", OF this]
  have "live now (table s ++ map_of ?kes) = live now (table s) ++ map_of ?kes" .
  ultimately have "live now (override (table s) (multi_set_loop kvs [])) = live now (table s) ++ map_of ?kes"
    by simp
  then show ?thesis
    using multi_set_loop_eq(1) [of s "[]" kvs] by (simp add: eff_ok_def)
qed

lemma card_filter_remdups: "card {k \<in> set ks. P k} = length (filter P (remdups ks))"
  using distinct_card [of "filter P (remdups ks)"] by simp

text \<open>\<open>Vec::len\<close> never exceeds \<open>isize::MAX\<close>, so the cast in EXISTS is exact.\<close>

definition keys_fit :: "Operation \<Rightarrow> bool" where
  "keys_fit op \<longleftrightarrow> int (length (Operation_keys op)) \<le> i64_max"

lemma as_i64_exact: "int n \<le> i64_max \<Longrightarrow> as_i64 n = int n"
  by (simp add: machine_defs)

lemma prepare_effects_spec:
  assumes inv: "shard_inv s" and fit: "keys_fit op"
  shows "eff_spec s now (prepare_effects s op now) (spec_op now (live now (table s)) op)"
proof (cases op)
  case (Get k)
  obtain old eff where ob: "observe s k now [] = (old, eff)" by fastforce
  then show ?thesis
    using Get eff_spec_keep [OF ob] observe_only_expired(2) [OF only_expired_Nil ob]
    by (simp add: spec_bulk_def)
next
  case (Delete ks)
  obtain eff where eff: "delete_loop s now ks 0 [] =
      (int (card {k \<in> set ks. live now (table s) k \<noteq> None}), eff)" "removes eff (set ks)"
    using delete_loop_eq [of "[]" "{}" s now ks 0] by (auto simp: removes_def)
  have "eff_ok s eff"
    using eff(2) by (auto simp: removes_def eff_ok_def fun_eq_iff split: if_splits)
  then show ?thesis
    using Delete eff by (simp add: override_removes card_filter_remdups)
next
  case (Exists ks)
  obtain eff where eff: "exists_loop s now ks 0 [] =
      (length (filter (\<lambda>k. live now (table s) k \<noteq> None) ks), eff)" "only_expired s now eff"
    using exists_loop_eq [OF only_expired_Nil, of s now ks 0] by auto
  let ?n = "length (filter (\<lambda>k. live now (table s) k \<noteq> None) ks)"
  have "int ?n \<le> int (length ks)" by simp
  also have "\<dots> \<le> i64_max" using fit Exists by (simp add: keys_fit_def)
  finally have "as_i64 ?n = int ?n" by (rule as_i64_exact)
  then show ?thesis
    using Exists eff by (simp add: only_expired_ok only_expired_live)
next
  case (MultiGet ks)
  then show ?thesis
    using multi_get_loop_eq [OF only_expired_Nil, of s now ks]
    by (auto simp: only_expired_ok only_expired_live)
next
  case (Ttl k ms)
  obtain old eff where ob: "observe s k now [] = (old, eff)" by fastforce
  then show ?thesis
    using Ttl eff_spec_keep [OF ob] ttl_of_spec [OF inv observe_only_expired(2) [OF only_expired_Nil ob]]
    by simp
qed (simp_all add: prepare_set_spec prepare_increment_spec prepare_expire_spec prepare_persist_spec
    inv multi_set_spec del: eff_spec.simps spec_op.simps(7) flip: spec_op.simps(7))

subsection \<open>execute\<close>

lemma prepare_cases:
  assumes inv: "shard_inv s" and fit: "keys_fit op"
  shows "(\<exists>e. prepare alloc s op now = Some (Inl e)) \<or>
    (\<exists>eff reply. prepare_effects s op now = Inr (eff, reply) \<and> eff_ok s eff \<and>
      spec_op now (live now (table s)) op = Inr (reply, live now (override (table s) eff)) \<and>
      reply_fits s reply \<and> table_fits s (patch eff (entries s)) \<and>
      prepare alloc s op now = Some (Inr \<lparr>p_revision = revision s, p_effects = eff,
        p_payload_after = nat (alist_total entry_bytes (patch eff (entries s))), p_response = reply\<rparr>))"
proof (cases "prepare_effects s op now")
  case (Inl e)
  then show ?thesis by (simp add: prepare_def)
next
  case (Inr er)
  obtain eff reply where er: "er = (eff, reply)" by (cases er)
  have "eff_ok s eff" and "spec_op now (live now (table s)) op = Inr (reply, live now (override (table s) eff))"
    using prepare_effects_spec [OF inv fit, of now] Inr er by simp_all
  then show ?thesis
    using Inr er preflight_eq [OF inv, of eff reply] by (auto simp: prepare_def eff_ok_def)
qed

text \<open>What a successful preparation holds, whoever installs it and when.\<close>

lemma Shard_apply_ok:
  assumes inv: "shard_inv s" and eff: "eff_ok s (p_effects p)" and rev: "p_revision p = revision s"
    and lt: "revision s < u64_max" and fits: "table_fits s (patch (p_effects p) (entries s))"
    and pay: "p_payload_after p = nat (alist_total entry_bytes (patch (p_effects p) (entries s)))"
  shows "\<exists>s'. Shard_apply s p = Some (p_response p, s') \<and> shard_inv s' \<and>
    entries s' = patch (p_effects p) (entries s) \<and> limits s' = limits s \<and>
    revision s' = Suc (revision s) \<and> expired_keys s' = expired_keys s \<and>
    applied_commands s' = min u64_max (Suc (applied_commands s))"
proof -
  have core: "shard_core s" and wf: "hm_wf (p_effects p)"
    using inv eff by (simp_all add: shard_inv_def eff_ok_def)
  obtain s1 where s1: "apply_effects (p_effects p) s = Some s1" "shard_core s1"
    "entries s1 = patch (p_effects p) (entries s)" "s1 = s\<lparr>expiry := expiry s1, entries := entries s1\<rparr>"
    using apply_effects_ok [OF core] by blast
  have fields: "revision s1 = revision s" "limits s1 = limits s" "expired_keys s1 = expired_keys s"
    "applied_commands s1 = applied_commands s"
    by (subst s1(4), simp)+
  let ?s = "s1\<lparr>payload_bytes := p_payload_after p, revision := Suc (revision s),
    applied_commands := u64_saturating_add (applied_commands s1) 1\<rparr>"
  have "Shard_apply s p = Some (p_response p, ?s)"
    using s1(1) rev lt fields(1) by (simp add: Shard_apply_def u64_checked_add_def)
  moreover have "in_i64 d" if "table s1 k = Some e" "e_expires e = Some d" for k e d
    using that eff inv s1(3) unfolding eff_ok_def shard_inv_def
    by (auto simp: map_of_patch override_def split: option.splits)
  moreover have "0 \<le> alist_total entry_bytes (patch (p_effects p) (entries s))"
    by (rule alist_total_nonneg) (rule entry_bytes_nonneg)
  ultimately show ?thesis
    using s1(2,3) fits pay fields
    by (auto simp: shard_inv_def shard_core_def table_fits_def u64_saturating_add_def)
qed

lemma execute_cases:
  assumes inv: "shard_inv s" and fit: "keys_fit op" and lt: "revision s < u64_max"
  shows "(\<exists>e. execute alloc s op now = Some (Inl e, s)) \<or>
    (\<exists>eff reply s'. execute alloc s op now = Some (Inr reply, s') \<and> shard_inv s' \<and>
      spec_op now (live now (table s)) op = Inr (reply, live now (table s')) \<and>
      entries s' = patch eff (entries s) \<and> hm_wf eff \<and> reply_fits s reply \<and>
      limits s' = limits s \<and> revision s' = Suc (revision s))"
  using prepare_cases [OF inv fit, of alloc now]
proof (elim disjE exE conjE)
  fix e
  assume "prepare alloc s op now = Some (Inl e)"
  then show ?thesis by (simp add: execute_def)
next
  fix eff reply
  let ?p = "\<lparr>p_revision = revision s, p_effects = eff,
    p_payload_after = nat (alist_total entry_bytes (patch eff (entries s))), p_response = reply\<rparr>"
  assume eff: "eff_ok s eff" and fits: "table_fits s (patch eff (entries s))" "reply_fits s reply"
    and sp: "spec_op now (live now (table s)) op = Inr (reply, live now (override (table s) eff))"
    and prep: "prepare alloc s op now = Some (Inr ?p)"
  obtain s' where s': "Shard_apply s ?p = Some (reply, s')" "shard_inv s'"
    "entries s' = patch eff (entries s)" "limits s' = limits s" "revision s' = Suc (revision s)"
    using Shard_apply_ok [OF inv, of ?p] eff fits lt by auto
  have "table s' = override (table s) eff" and "hm_wf eff"
    using s'(3) eff by (simp_all add: map_of_patch eff_ok_def)
  then show ?thesis
    using s' prep sp fits(2) by (intro disjI2 exI [of _ eff] exI [of _ reply] exI [of _ s']) (simp add: execute_def)
qed

subsection \<open>expire\_due\<close>

definition due_keys :: "int \<Rightarrow> keyspace \<Rightarrow> bytes set" where
  "due_keys now m = {k. \<exists>e. m k = Some e \<and> due now e}"

lemma due_keys_timers:
  assumes "shard_core s"
  shows "due_keys now (table s) = {k. \<exists>d. timers (expiry s) k = Some d \<and> d \<le> now}"
  using assms
  by (auto simp: due_keys_def due_def shard_core_def bind_eq_Some_conv split: option.splits)

lemma finite_due_keys: "finite (due_keys now (table s))"
  by (rule finite_subset [OF _ finite_dom_map_of [of "entries s"]]) (auto simp: due_keys_def)

lemma expire_key_ok:
  assumes inv: "shard_inv s" and ex: "ExpiryIndex_expired (expiry s) now = Some k"
    and lt: "revision s < u64_max"
  shows "\<exists>s'. expire_key s k now = Some s' \<and> shard_inv s' \<and> table s' = (table s)(k := None) \<and>
    revision s' = Suc (revision s) \<and> limits s' = limits s \<and> applied_commands s' = applied_commands s"
    and "k \<in> due_keys now (table s)"
    and "\<And>k' d d'. timers (expiry s) k = Some d \<Longrightarrow> timers (expiry s) k' = Some d' \<Longrightarrow> d \<le> d'"
proof -
  have core: "shard_core s" and wf: "hm_wf (entries s)" and einv: "expiry_inv (expiry s)"
    and tm: "timers (expiry s) = (\<lambda>k. Option.bind (table s k) e_expires)"
    and pay: "int (payload_bytes s) = alist_total entry_bytes (entries s)"
    using inv by (simp_all add: shard_inv_def shard_core_def)
  obtain d where d: "timers (expiry s) k = Some d" "d \<le> now"
    "\<forall>k' d'. timers (expiry s) k' = Some d' \<longrightarrow> d \<le> d'"
    using ei.expired_least [OF einv ex] by blast
  then obtain e where e: "table s k = Some e" "e_expires e = Some d"
    using tm by (auto simp: bind_eq_Some_conv)
  obtain x where x: "ExpiryIndex_remove (expiry s) k = Some x" "expiry_inv x"
    "timers x = (timers (expiry s))(k := None)"
    using ei.remove_law [OF einv] by blast
  let ?w = "length k + length (e_value e)"
  have w: "int ?w \<le> alist_total entry_bytes (entries s)"
    using alist_total_ge [where f = entry_bytes and k = k, OF wf entry_bytes_nonneg] e by (simp add: entry_bytes_def)
  then have w': "?w \<le> payload_bytes s" using pay by linarith
  let ?s = "s\<lparr>expiry := x, entries := AList.delete k (entries s), payload_bytes := payload_bytes s - ?w,
    expired_keys := u64_saturating_add (expired_keys s) 1, revision := Suc (revision s)\<rparr>"
  have "expire_key s k now = Some ?s"
    using x(1) e d(2) w' lt by (simp add: expire_key_def u64_checked_add_def)
  moreover have "shard_core ?s"
    using x wf tm by (auto simp: shard_core_def hm_simps distinct_delete)
  moreover have "alist_total entry_bytes (AList.delete k (entries s)) = int (payload_bytes s - ?w)"
    using alist_total_delete [OF wf, of entry_bytes k] e pay w' by (simp add: entry_bytes_def of_nat_diff)
  moreover have "length (AList.delete k (entries s)) \<le> length (entries s)"
    using hm.len_remove [OF wf, of k] by simp
  ultimately show "\<exists>s'. expire_key s k now = Some s' \<and> shard_inv s' \<and> table s' = (table s)(k := None) \<and>
    revision s' = Suc (revision s) \<and> limits s' = limits s \<and> applied_commands s' = applied_commands s"
    using inv by (intro exI [of _ ?s]) (auto simp: shard_inv_def hm_simps split: if_splits)
  show "k \<in> due_keys now (table s)"
    using e d(2) by (simp add: due_keys_def due_def)
  show "d' \<le> d''" if "timers (expiry s) k = Some d'" "timers (expiry s) k' = Some d''" for k' d' d''
    using that d(1,3) by simp
qed

text \<open>The outcome of an expiration pass that removed the keys \<open>R\<close>.\<close>

definition expired_pass :: "int \<Rightarrow> bytes set \<Rightarrow> Shard \<Rightarrow> Shard \<Rightarrow> bool" where
  "expired_pass now R s s' \<longleftrightarrow> R \<subseteq> due_keys now (table s) \<and> table s' = (table s) |` (- R) \<and>
     (\<forall>k k' d d'. k \<in> R \<longrightarrow> k' \<notin> R \<longrightarrow> timers (expiry s) k = Some d \<longrightarrow>
        timers (expiry s) k' = Some d' \<longrightarrow> d \<le> d') \<and>
     shard_inv s' \<and> limits s' = limits s \<and> revision s' = revision s + card R \<and>
     applied_commands s' = applied_commands s"

lemma expired_pass_insert:
  assumes core: "shard_core s" "shard_core s1" and pass: "expired_pass now R s1 s'"
    and k: "k \<in> due_keys now (table s)"
      "\<And>k' d d'. timers (expiry s) k = Some d \<Longrightarrow> timers (expiry s) k' = Some d' \<Longrightarrow> d \<le> d'"
    and s1: "table s1 = (table s)(k := None)" "revision s1 = Suc (revision s)" "limits s1 = limits s"
      "applied_commands s1 = applied_commands s"
  shows "expired_pass now (insert k R) s s'" and "k \<notin> R"
proof -
  have R: "R \<subseteq> due_keys now (table s1)" using pass by (simp add: expired_pass_def)
  then show kR: "k \<notin> R" using s1(1) by (auto simp: due_keys_def)
  have "finite R" using R finite_due_keys finite_subset by blast
  then have card: "card (insert k R) = Suc (card R)" using kR by simp
  have tm: "timers (expiry s1) = (timers (expiry s))(k := None)"
    using core s1(1) by (auto simp: shard_core_def)
  have "R \<subseteq> due_keys now (table s)" using R s1(1) by (auto simp: due_keys_def split: if_splits)
  moreover have "table s' = (table s) |` (- insert k R)"
    using pass s1(1) by (auto simp: expired_pass_def restrict_map_def fun_eq_iff)
  moreover have "d \<le> d'" if "a \<in> insert k R" "b \<notin> insert k R" "timers (expiry s) a = Some d"
      "timers (expiry s) b = Some d'" for a b d d'
  proof (cases "a = k")
    case True
    then show ?thesis using that k(2) by blast
  next
    case False
    then have "a \<in> R" "b \<notin> R" "timers (expiry s1) a = Some d" "timers (expiry s1) b = Some d'"
      using that tm by auto
    then show ?thesis using pass unfolding expired_pass_def by blast
  qed
  ultimately show "expired_pass now (insert k R) s s'"
    using pass k(1) card s1(2-4) unfolding expired_pass_def by auto
qed

lemma expire_key_revision: "expire_key s k now = Some s' \<Longrightarrow> revision s < u64_max"
  by (auto simp: expire_key_def u64_checked_add_def split: Option.bind_splits if_splits)

lemma expire_loop_pass:
  assumes "shard_inv s" and "expire_loop s now budget removed = Some (n, s')"
  shows "\<exists>R. n = removed + card R \<and> card R = min (budget - removed) (card (due_keys now (table s))) \<and>
    expired_pass now R s s'"
  using assms
proof (induction "budget - removed" arbitrary: s removed)
  case 0
  then have "n = removed" "s' = s" by (simp_all add: expire_loop.simps)
  then show ?case
    using 0 by (intro exI [of _ "{}"]) (simp add: expired_pass_def restrict_map_def)
next
  case (Suc m)
  have inv: "shard_inv s" and core: "shard_core s" using Suc.prems by (simp_all add: shard_inv_def)
  have lt: "removed < budget" using Suc.hyps(2) by linarith
  show ?case
  proof (cases "ExpiryIndex_expired (expiry s) now")
    case None
    then have "due_keys now (table s) = {}"
      using ei.expired_none [of "expiry s" now] core
      unfolding due_keys_timers [OF core] shard_core_def by fastforce
    moreover have "n = removed" "s' = s" using Suc.prems(2) None lt by (simp_all add: expire_loop.simps)
    ultimately show ?thesis
      using inv by (intro exI [of _ "{}"]) (simp add: expired_pass_def restrict_map_def)
  next
    case (Some k)
    obtain s1 where s1: "expire_key s k now = Some s1" "expire_loop s1 now budget (removed + 1) = Some (n, s')"
      using Suc.prems(2) Some lt by (auto simp: expire_loop.simps [of s] split: Option.bind_splits)
    note k = expire_key_ok [OF inv Some expire_key_revision [OF s1(1)]]
    have s1': "shard_inv s1" "table s1 = (table s)(k := None)" "revision s1 = Suc (revision s)"
      "limits s1 = limits s" "applied_commands s1 = applied_commands s"
      using k(1) s1(1) by auto
    have m: "m = budget - (removed + 1)" using Suc.hyps(2) by linarith
    obtain R where R: "n = removed + 1 + card R" "expired_pass now R s1 s'"
      "card R = min (budget - (removed + 1)) (card (due_keys now (table s1)))"
      using Suc.hyps(1) [OF m s1'(1) s1(2)] by blast
    have core1: "shard_core s1" using s1'(1) by (simp add: shard_inv_def)
    note ins = expired_pass_insert [OF core core1 R(2) k(2,3) s1'(2-5)]
    have "finite R" using R(2) finite_due_keys finite_subset unfolding expired_pass_def by blast
    moreover have "due_keys now (table s) = insert k (due_keys now (table s1))"
      "k \<notin> due_keys now (table s1)"
      using k(2) s1'(2) by (auto simp: due_keys_def split: if_splits)
    ultimately show ?thesis
      using R(1,3) ins lt finite_due_keys [of now s1] by (intro exI [of _ "insert k R"]) simp
  qed
qed

lemma expire_loop_total:
  assumes "shard_inv s" and "revision s + (budget - removed) \<le> u64_max"
  shows "\<exists>r. expire_loop s now budget removed = Some r"
  using assms
proof (induction "budget - removed" arbitrary: s removed)
  case (Suc m)
  have lt: "removed < budget" "revision s < u64_max" using Suc by linarith+
  show ?case
  proof (cases "ExpiryIndex_expired (expiry s) now")
    case (Some k)
    obtain s1 where s1: "expire_key s k now = Some s1" "shard_inv s1" "revision s1 = Suc (revision s)"
      using expire_key_ok(1) [OF Suc.prems(1) Some lt(2)] by blast
    have "m = budget - (removed + 1)" "revision s1 + (budget - (removed + 1)) \<le> u64_max"
      using Suc.hyps(2) Suc.prems(2) s1(3) by linarith+
    then show ?thesis
      using Suc.hyps(1) [OF _ s1(2)] Some s1(1) lt(1) by (simp add: expire_loop.simps [of s])
  qed (use lt in \<open>simp add: expire_loop.simps\<close>)
qed (simp add: expire_loop.simps)

lemma expire_loop_ok:
  assumes "shard_inv s" and "revision s + (budget - removed) \<le> u64_max"
  shows "\<exists>R s'. expire_loop s now budget removed = Some (removed + card R, s') \<and>
    card R = min (budget - removed) (card (due_keys now (table s))) \<and> expired_pass now R s s'"
  using expire_loop_total [OF assms, of now] expire_loop_pass [OF assms(1)] by fastforce

subsection \<open>Reachable shards\<close>

text \<open>
  The shards an owner can hold: a new one, then any commands at any times (whatever the allocator
  answers) and any expiration passes.
\<close>

inductive shard_reach :: "ShardLimits \<Rightarrow> Shard \<Rightarrow> bool" for l where
  new: "Shard_new alloc l = Inr s \<Longrightarrow> shard_reach l s"
| exec: "shard_reach l s \<Longrightarrow> keys_fit op \<Longrightarrow> execute alloc s op now = Some (r, s') \<Longrightarrow> shard_reach l s'"
| expire: "shard_reach l s \<Longrightarrow> expire_due s now budget = Some (n, s') \<Longrightarrow> shard_reach l s'"

lemma execute_revision:
  assumes inv: "shard_inv s" and "execute alloc s op now = Some (Inr reply, s')"
  shows "revision s < u64_max"
proof -
  obtain p where "Shard_apply s p = Some (reply, s')"
    using assms(2) by (auto simp: execute_def split: Option.bind_splits sum.splits)
  then obtain s1 where "apply_effects (p_effects p) s = Some s1" "revision s1 < u64_max"
    by (auto simp: Shard_apply_def u64_checked_add_def split: if_splits Option.bind_splits)
  moreover have "shard_core s" using inv by (simp add: shard_inv_def)
  ultimately show ?thesis
    using apply_effects_ok [of s "p_effects p"] by (metis option.inject Shard.select_convs(5)
        Shard.update_convs(1,2) Shard.surjective Shard.ext_inject)
qed

lemma shard_reach_inv: "shard_reach l s \<Longrightarrow> shard_inv s \<and> limits s = l"
proof (induction rule: shard_reach.induct)
  case (new alloc s)
  then show ?case using Shard_new_inv by blast
next
  case (exec s op alloc now r s')
  show ?case
  proof (cases r)
    case (Inl e)
    then have "s' = s"
      using exec.hyps(3) by (auto simp: execute_def split: Option.bind_splits sum.splits)
    then show ?thesis using exec.IH by simp
  next
    case (Inr reply)
    then show ?thesis
      using exec execute_revision execute_cases [of s op alloc now] by fastforce
  qed
next
  case (expire s now budget n s')
  then show ?case
    using expire_loop_pass [of s now budget 0 n s'] by (auto simp: expire_due_def expired_pass_def)
qed

subsection \<open>The counters\<close>

text \<open>
  A history of a shard with what it did: \<open>applied\<close> commands succeeded in it and expiration passes removed
  \<open>expired\<close> keys from its table.
\<close>

inductive shard_history :: "ShardLimits \<Rightarrow> nat \<Rightarrow> nat \<Rightarrow> Shard \<Rightarrow> bool" for l where
  new: "Shard_new alloc l = Inr s \<Longrightarrow> shard_history l 0 0 s"
| success: "shard_history l applied expired s \<Longrightarrow> keys_fit op \<Longrightarrow> execute alloc s op now = Some (Inr reply, s') \<Longrightarrow>
    shard_history l (applied + 1) expired s'"
| refused: "shard_history l applied expired s \<Longrightarrow> keys_fit op \<Longrightarrow> execute alloc s op now = Some (Inl e, s') \<Longrightarrow>
    shard_history l applied expired s'"
| expire: "shard_history l applied expired s \<Longrightarrow> expire_due s now budget = Some (n, s') \<Longrightarrow>
    shard_history l applied (expired + card (dom (table s) - dom (table s'))) s'"

lemma shard_history_reach: "shard_history l applied expired s \<Longrightarrow> shard_reach l s"
  by (induction rule: shard_history.induct) (auto intro: shard_reach.intros)

lemma shard_reach_history: "shard_reach l s \<Longrightarrow> \<exists>applied expired. shard_history l applied expired s"
proof (induction rule: shard_reach.induct)
  case (exec s op alloc now r s')
  then show ?case by (cases r) (auto intro: shard_history.intros)
qed (auto intro: shard_history.intros)

lemma execute_counts:
  assumes "shard_inv s" and "execute alloc s op now = Some (Inr reply, s')"
  shows "applied_commands s' = min u64_max (applied_commands s + 1) \<and> expired_keys s' = expired_keys s"
proof -
  obtain p where p: "Shard_apply s p = Some (reply, s')"
    using assms(2) by (auto simp: execute_def split: Option.bind_splits sum.splits)
  then obtain s1 rev where s1: "apply_effects (p_effects p) s = Some s1"
    and "s' = s1\<lparr>payload_bytes := p_payload_after p, revision := rev,
      applied_commands := u64_saturating_add (applied_commands s1) 1\<rparr>"
    by (auto simp: Shard_apply_def split: Option.bind_splits if_splits)
  then have s': "applied_commands s' = u64_saturating_add (applied_commands s1) 1" "expired_keys s' = expired_keys s1"
    by simp_all
  moreover have "shard_core s" using assms(1) by (simp add: shard_inv_def)
  ultimately have "s1 = s\<lparr>expiry := expiry s1, entries := entries s1\<rparr>"
    using apply_effects_ok [of s "p_effects p"] s1 by auto
  then have "applied_commands s1 = applied_commands s" "expired_keys s1 = expired_keys s"
    by (metis Shard.select_convs Shard.update_convs(1,2) Shard.surjective)+
  then show ?thesis using s' by (simp add: u64_saturating_add_def)
qed

lemma expire_loop_counts:
  assumes "expire_loop s now budget removed = Some (n, s')" and "expired_keys s \<le> u64_max"
  shows "removed \<le> n \<and> expired_keys s' = min u64_max (expired_keys s + (n - removed))"
  using assms
proof (induction s now budget removed rule: expire_loop.induct)
  case (1 s now budget removed)
  show ?case
  proof (cases "removed < budget \<and> ExpiryIndex_expired (expiry s) now \<noteq> None")
    case True
    then obtain k s1 where k: "removed < budget" "ExpiryIndex_expired (expiry s) now = Some k"
      "expire_key s k now = Some s1" "expire_loop s1 now budget (removed + 1) = Some (n, s')"
      using 1(2) by (auto simp: expire_loop.simps [of s] split: Option.bind_splits)
    have "expired_keys s1 = min u64_max (expired_keys s + 1)"
      using k(3) by (auto simp: expire_key_def u64_saturating_add_def split: Option.bind_splits if_splits)
    then show ?thesis using 1(1) [OF k(1,2) _ k(4)] k(3) by auto
  qed (use 1 in \<open>auto simp: expire_loop.simps [of s] min_def split: if_splits option.splits\<close>)
qed

lemma shard_history_counts:
  assumes "shard_history l applied expired s"
  shows "applied_commands s = min u64_max applied \<and> expired_keys s = min u64_max expired"
  using assms
proof (induction rule: shard_history.induct)
  case (new alloc s)
  then show ?case by (auto simp: Shard_new_def split: if_splits option.splits)
next
  case (success applied expired s op alloc now reply s')
  then show ?case using execute_counts shard_reach_inv [OF shard_history_reach] by fastforce
next
  case (refused applied expired s op alloc now e s')
  then have "s' = s" by (auto simp: execute_def split: Option.bind_splits sum.splits)
  then show ?case using refused.IH by simp
next
  case (expire applied expired s now budget n s')
  have "shard_inv s" using shard_reach_inv [OF shard_history_reach [OF expire.hyps(1)]] by simp
  then obtain R where R: "n = card R" "expired_pass now R s s'"
    using expire_loop_pass [of s now budget 0 n s'] expire.hyps(2) by (auto simp: expire_due_def)
  then have "dom (table s) - dom (table s') = R"
    by (auto simp: expired_pass_def due_keys_def restrict_map_def split: if_splits)
  then show ?case
    using expire.IH R expire_loop_counts [of s now budget 0 n s'] expire.hyps(2)
    by (auto simp: expire_due_def expired_pass_def)
qed

end
