(* ===== verification/Resp_Encoding.thy ===== *)
theory Resp_Encoding
  imports Resp_Protocol
begin

section \<open>Correctness of the reply encoder\<close>

text \<open>
  \<open>encoded_len\<close> is the exact size of what \<open>encode\<close> writes, or \<open>None\<close> when that size is not a
  \<open>usize\<close>. The sizes are computed by counting decimal digits with divisions, the text is produced
  by formatting, so the two must be shown to agree. A client that reads RESP2 replies gets back the
  reply that was encoded.
\<close>

subsection \<open>Decimal text\<close>

lemma decimal_digits_loop_eq: "decimal_digits_loop n v + 1 = n + length (nat_to_string v)"
proof (induction n v rule: decimal_digits_loop.induct)
  case (1 n v)
  then show ?case
    by (subst decimal_digits_loop.simps, subst nat_to_string.simps) auto
qed

lemma decimal_digits_eq: "decimal_digits v = length (nat_to_string v)"
  using decimal_digits_loop_eq [of 1 v] by (simp add: decimal_digits_def)

lemma length_i64_to_string:
  "length (i64_to_string n) = decimal_digits (nat \<bar>n\<bar>) + (if n < 0 then 1 else 0)"
  by (simp add: i64_to_string_def decimal_digits_eq)

subsection \<open>Size and text\<close>

text \<open>\<open>encode\<close> appends to its buffer; \<open>wire\<close> is what it appends.\<close>

definition wire :: "Reply \<Rightarrow> bytes" where
  "wire r = encode r []"

lemma encode_shift: "encode r (o1 @ out) = o1 @ encode r out"
  and encode_list_shift: "encode_list rs (o1 @ out) = o1 @ encode_list rs out"
  by (induction r out and rs out rule: encode_encode_list.induct) simp_all

lemma encode_wire: "encode r out = out @ wire r"
  using encode_shift [of r out "[]"] by (simp add: wire_def)

lemma wire_simps [simp]:
  "wire (Simple v) = ''+'' @ v @ crlf"
  "wire (Error v) = ''-'' @ v @ crlf"
  "wire (Integer n) = '':'' @ i64_to_string n @ crlf"
  "wire (Bulk None) = ''$-1'' @ crlf"
  "wire (Bulk (Some v)) = ''$'' @ nat_to_string (length v) @ crlf @ v @ crlf"
  by (simp_all add: wire_def)

lemma encode_list_wire: "encode_list rs out = out @ concat (map wire rs)"
  by (induction rs arbitrary: out) (simp_all add: encode_wire)

lemma wire_Array [simp]:
  "wire (Array rs) = ''*'' @ nat_to_string (length rs) @ crlf @ concat (map wire rs)"
  by (simp add: wire_def [of "Array rs"] encode_list_wire)

lemma encoded_len_wire:
  "encoded_len r = (if length (wire r) \<le> usize_max then Some (length (wire r)) else None)"
  and encoded_len_fold_wire:
  "sum0 \<le> usize_max \<Longrightarrow> encoded_len_fold sum0 rs =
    (if sum0 + length (concat (map wire rs)) \<le> usize_max
     then Some (sum0 + length (concat (map wire rs))) else None)"
proof (induction r and sum0 rs rule: encoded_len_encoded_len_fold.induct)
  case (6 rs)
  then show ?case
    by (auto simp: usize_checked_add_def decimal_digits_eq crlf_def split: Option.bind_splits)
qed (auto simp: usize_checked_add_def decimal_digits_eq crlf_def length_i64_to_string usize_max_def
    simp del: length_concat split: Option.bind_splits)

subsection \<open>Properties\<close>

text \<open>
  Claim C39. The size check before a reply is written is exact: \<open>encoded_len\<close> is the number of bytes
  \<open>encode\<close> appends to the output, for every reply, and it overflows exactly when that number does
  not fit a machine word. The output before is kept.
\<close>

theorem encoded_len_exact:
  "encoded_len r = (if length (encode r []) \<le> usize_max then Some (length (encode r [])) else None) \<and>
   encode r out = out @ encode r []"
  using encoded_len_wire [of r] encode_wire [of r out] by (simp add: wire_def)

text \<open>
  Replies are self-delimiting as long as the texts of simple strings and errors, which the server
  writes itself, hold no line end.
\<close>

fun line_safe :: "Reply \<Rightarrow> bool" where
  "line_safe (Simple v) = (CHR 0x0D \<notin> set v)"
| "line_safe (Error v) = (CHR 0x0D \<notin> set v)"
| "line_safe (Array rs) = (\<forall>r \<in> set rs. line_safe r)"
| "line_safe _ = True"

lemma line_split:
  assumes "CHR 0x0D \<notin> set v" and "CHR 0x0D \<notin> set v'" and "v @ crlf @ x = v' @ crlf @ y"
  shows "v = v' \<and> x = y"
  using assms
proof (induction v arbitrary: v')
  case Nil
  then show ?case by (cases v') (auto simp: crlf_def)
next
  case (Cons c v)
  then show ?case by (cases v') (auto simp: crlf_def)
qed

lemma number_line_split:
  "nat_to_string m @ crlf @ x = nat_to_string n @ crlf @ y \<Longrightarrow> m = n \<and> x = y"
  "i64_to_string a @ crlf @ x = i64_to_string b @ crlf @ y \<Longrightarrow> a = b \<and> x = y"
  using line_split [of "nat_to_string m" "nat_to_string n" x y]
    line_split [of "i64_to_string a" "i64_to_string b" x y]
  by (auto dest: i64_to_string_no_newline nat_to_string_digits digit_not_newline simp: i64_to_string_inj)

lemma null_bulk_split: "CHR ''-'' # z \<noteq> nat_to_string n @ y"
  using hd_nat_to_string(1) [of n] by (cases "nat_to_string n") auto

lemma wire_prefix_free:
  "line_safe r \<Longrightarrow> line_safe r' \<Longrightarrow> wire r @ x = wire r' @ y \<Longrightarrow> r = r' \<and> x = y"
proof (induction r arbitrary: r' x y)
  case (Simple v)
  then show ?case using line_split [of v _ x y] by (cases r' rule: encoded_len.cases) auto
next
  case (Error v)
  then show ?case using line_split [of v _ x y] by (cases r' rule: encoded_len.cases) auto
next
  case (Integer n)
  then show ?case using number_line_split(2) [of n x _ y] by (cases r' rule: encoded_len.cases) auto
next
  case (Bulk b)
  show ?case
  proof (cases b)
    case None
    then show ?thesis
      using Bulk.prems null_bulk_split [of "CHR ''1'' # crlf @ x"] by (cases r' rule: encoded_len.cases) auto
  next
    case (Some v)
    show ?thesis
    proof (cases "\<exists>v'. r' = Bulk (Some v')")
      case True
      then obtain v' where v': "r' = Bulk (Some v')" by blast
      then have "length v = length v' \<and> v @ crlf @ x = v' @ crlf @ y"
        using Bulk.prems(3) Some number_line_split(1) [of "length v" "v @ crlf @ x" "length v'"] by simp
      then show ?thesis using v' Some by (auto simp: append_eq_append_conv)
    next
      case False
      then show ?thesis
        using Bulk.prems Some null_bulk_split [of "CHR ''1'' # crlf @ y", symmetric]
        by (cases r' rule: encoded_len.cases) auto
    qed
  qed
next
  case (Array rs)
  have list: "as = bs \<and> x = y" if "set as \<subseteq> set rs" "\<forall>b \<in> set bs. line_safe b" "length as = length bs"
      "concat (map wire as) @ x = concat (map wire bs) @ y" for as bs x y
    using that(3,1,2,4)
  proof (induction as bs arbitrary: x y rule: list_induct2)
    case (Cons a as b bs)
    have ab: "a \<in> set rs" "line_safe a" "line_safe b"
      "wire a @ concat (map wire as) @ x = wire b @ concat (map wire bs) @ y"
      using Cons.prems Array.prems(1) by auto
    have rest: "a = b \<and> concat (map wire as) @ x = concat (map wire bs) @ y"
      by (rule Array.IH [OF ab])
    have "as = bs \<and> x = y"
      by (rule Cons.IH) (use Cons.prems rest in simp_all)
    then show ?case using rest by simp
  qed simp
  show ?case
  proof (cases r')
    case (Array bs)
    then have "length rs = length bs \<and> concat (map wire rs) @ x = concat (map wire bs) @ y"
      using Array.prems(3) number_line_split(1) [of "length rs" "concat (map wire rs) @ x" "length bs"] by simp
    then have "rs = bs \<and> x = y"
      using list [of rs bs x y] Array Array.prems(2) by (simp del: length_concat)
    then show ?thesis using Array by simp
  next
    case (Bulk b)
    then show ?thesis using Array.prems by (cases b) simp_all
  qed (use Array.prems in simp_all)
qed

text \<open>
  Pipelined replies can be told apart: from the bytes of a reply followed by anything, a
  reader recovers the reply and where it ends, because no encoding is a prefix of another reply's.
\<close>

theorem encode_uniquely_decodable:
  assumes "line_safe r" and "line_safe r'" and "encode r [] @ x = encode r' [] @ y"
  shows "r = r' \<and> x = y"
  using wire_prefix_free [OF assms(1,2)] assms(3) by (simp add: wire_def)

theorem encode_uniquely_decodable_witness:
  "Array [Bulk None, Integer (-7)] = Array [Bulk None, Integer (-7)] \<and> ''+'' = ''+''"
  by (rule encode_uniquely_decodable) simp_all

end
