(* ===== verification/Shard_Correctness.thy ===== *)
theory Shard_Correctness
  imports Shard_Props Resp_Encoding
begin

section \<open>The properties of the owner-local store\<close>

text \<open>
  The exact outcome of every command on a reachable shard, the expiration pass, the revision check
  that makes a preparation single-use, and the independence of the hash map's iteration order.
\<close>

subsection \<open>The keys a command touches\<close>

text \<open>
  Effects concern the keys \<open>K\<close> only, and after their installation no key of \<open>K\<close> is due: what is
  physically there is what is live.
\<close>

definition settles :: "Shard \<Rightarrow> int \<Rightarrow> bytes set \<Rightarrow> Effects \<Rightarrow> bool" where
  "settles s now K eff \<longleftrightarrow> (\<forall>k x. map_of eff k = Some x \<longrightarrow> k \<in> K) \<and>
     (\<forall>k e. k \<in> K \<longrightarrow> override (table s) eff k = Some e \<longrightarrow> \<not> due now e)"

lemma settles_Nil [simp]: "settles s now {} []"
  by (simp add: settles_def)

lemma settles_update:
  assumes "settles s now K eff" and "\<And>e. x = Some e \<Longrightarrow> \<not> due now e"
  shows "settles s now (insert k K) (AList.update k x eff)"
  using assms by (auto simp: settles_def override_def hm_simps split: option.splits)

lemma observe_settles:
  assumes "settles s now K eff" and "observe s k now eff = (old, eff')"
  shows "settles s now (insert k K) eff'"
proof (cases "\<exists>e. table s k = Some e \<and> due now e")
  case True
  then have "eff' = AList.update k None eff" using assms(2) by (simp add: observe_eq)
  then show ?thesis using settles_update [OF assms(1), of None k] by simp
next
  case False
  then have "eff' = eff" using assms(2) by (auto simp: observe_eq split: if_splits)
  then show ?thesis using assms(1) False by (auto simp: settles_def override_def split: option.splits)
qed

lemma exists_loop_settles:
  "settles s now K eff \<Longrightarrow> exists_loop s now ks n eff = (m, eff') \<Longrightarrow> settles s now (K \<union> set ks) eff'"
proof (induction ks arbitrary: K n eff)
  case (Cons k ks)
  obtain old eff1 where ob: "observe s k now eff = (old, eff1)" by fastforce
  show ?case using Cons.IH [OF observe_settles [OF Cons.prems(1) ob]] Cons.prems(2) ob by simp
qed simp

lemma multi_get_loop_settles:
  "settles s now K eff \<Longrightarrow> multi_get_loop s now ks eff = (rs, eff') \<Longrightarrow> settles s now (K \<union> set ks) eff'"
proof (induction ks arbitrary: K eff rs)
  case (Cons k ks)
  obtain old eff1 where ob: "observe s k now eff = (old, eff1)" by fastforce
  show ?case
    using Cons.IH [OF observe_settles [OF Cons.prems(1) ob]] Cons.prems(2) ob by (auto split: prod.splits)
qed simp

lemma delete_loop_settles:
  "settles s now K eff \<Longrightarrow> delete_loop s now ks n eff = (m, eff') \<Longrightarrow> settles s now (K \<union> set ks) eff'"
proof (induction ks arbitrary: K n eff)
  case (Cons k ks)
  show ?case
  proof (cases "map_of eff k")
    case (Some x)
    then have "k \<in> K" using Cons.prems(1) by (simp add: settles_def)
    then show ?thesis using Cons.IH [OF Cons.prems(1)] Cons.prems(2) Some by (simp add: insert_absorb)
  next
    case None
    obtain old eff1 where ob: "observe s k now eff = (old, eff1)" by fastforce
    have "settles s now (insert k (insert k K)) (AList.update k None eff1)"
      by (rule settles_update [OF observe_settles [OF Cons.prems(1) ob]]) simp
    then show ?thesis using Cons.IH [of "insert k K"] Cons.prems(2) None ob by simp
  qed
qed simp

lemma multi_set_loop_settles:
  "settles s now K eff \<Longrightarrow> settles s now (K \<union> fst ` set kvs) (multi_set_loop kvs eff)"
proof (induction kvs arbitrary: K eff)
  case (Cons kv kvs)
  obtain k v where kv: "kv = (k, v)" by (cases kv)
  have "settles s now (insert k K) (AList.update k (Some \<lparr>e_value = v, e_expires = None\<rparr>) eff)"
    by (rule settles_update [OF Cons.prems]) (auto simp: due_def)
  then show ?case using Cons.IH kv by fastforce
qed simp

lemma observe_live: "observe s k now [] = (Some e, eff) \<Longrightarrow> \<not> due now e"
  by (auto simp: observe_eq dest: live_SomeD)

lemma due_same_deadline: "e_expires e' = e_expires e \<Longrightarrow> due now e' = due now e"
  by (simp add: due_def)

lemma prepare_set_settles:
  assumes "prepare_set s k v c x now = Inr (eff, reply)"
  shows "settles s now {k} eff"
proof -
  obtain old eff0 where ob: "observe s k now [] = (old, eff0)" by fastforce
  note st = observe_settles [OF settles_Nil ob]
  have kp: "\<not> due now \<lparr>e_value = v, e_expires = Option.bind old e_expires\<rparr>"
    using observe_live [of s k now] ob by (cases old) (auto simp: due_def)
  show ?thesis
    using assms ob st kp settles_update [OF st, of "Some \<lparr>e_value = v, e_expires = d\<rparr>" k for d]
    by (auto simp: prepare_set_def due_def i64_checked_add_def split: Expiry.splits if_splits option.splits)
qed

lemma prepare_increment_settles:
  assumes "prepare_increment s k n b now = Inr (eff, reply)"
  shows "settles s now {k} eff"
proof -
  obtain old eff0 where ob: "observe s k now [] = (old, eff0)" by fastforce
  note st = observe_settles [OF settles_Nil ob]
  have kp: "\<not> due now \<lparr>e_value = v, e_expires = Option.bind old e_expires\<rparr>" for v
    using observe_live [of s k now] ob by (cases old) (auto simp: due_def)
  show ?thesis
    using assms ob kp settles_update [OF st, of "Some \<lparr>e_value = v, e_expires = d\<rparr>" k for v d]
    by (auto simp: prepare_increment_def split: if_splits option.splits sum.splits)
qed

lemma prepare_expire_settles:
  assumes "prepare_expire s k ms now = Inr (eff, reply)"
  shows "settles s now {k} eff"
proof -
  obtain old eff0 where ob: "observe s k now [] = (old, eff0)" by fastforce
  note st = observe_settles [OF settles_Nil ob]
  show ?thesis
    using assms ob st settles_update [OF st, of None k] settles_update [OF st, of "Some e" k for e]
    by (auto simp: prepare_expire_def i64_checked_add_def due_def split: if_splits option.splits)
qed

lemma prepare_persist_settles:
  assumes "prepare_persist s k now = (eff, reply)"
  shows "settles s now {k} eff"
proof -
  obtain old eff0 where ob: "observe s k now [] = (old, eff0)" by fastforce
  note st = observe_settles [OF settles_Nil ob]
  show ?thesis
    using assms ob st settles_update [OF st, of "Some e" k for e]
    by (auto simp: prepare_persist_def due_def split: if_splits option.splits)
qed

lemma prepare_effects_settles:
  assumes "prepare_effects s op now = Inr (eff, reply)"
  shows "settles s now (set (Operation_keys op)) eff"
proof (cases op)
  case (Get k)
  then show ?thesis using assms observe_settles [OF settles_Nil, of s k now] by (auto split: prod.splits)
next
  case (Delete ks)
  then show ?thesis using assms delete_loop_settles [OF settles_Nil, of s now ks] by (auto split: prod.splits)
next
  case (Exists ks)
  then show ?thesis using assms exists_loop_settles [OF settles_Nil, of s now ks] by (auto split: prod.splits)
next
  case (MultiGet ks)
  then show ?thesis using assms multi_get_loop_settles [OF settles_Nil, of s now ks] by (auto split: prod.splits)
next
  case (MultiSet kvs)
  then show ?thesis using assms multi_set_loop_settles [OF settles_Nil, of s now kvs] by auto
next
  case (Ttl k ms)
  then show ?thesis using assms observe_settles [OF settles_Nil, of s k now] by (auto split: prod.splits)
qed (use assms in \<open>auto simp: prepare_set_settles prepare_increment_settles prepare_expire_settles
  prepare_persist_settles\<close>)

subsection \<open>The exact outcome of a command\<close>

text \<open>
  The store promises more than the keyspace specification: which table is left behind, and when a
  command is refused for lack of room. A command rewrites the keys it names (the entries of other
  keys stay, due or not), and it is refused when its reply or the table it would leave does not fit.
\<close>

definition after_op :: "keyspace \<Rightarrow> Operation \<Rightarrow> keyspace \<Rightarrow> keyspace" where
  "after_op m op m' = (\<lambda>k. if k \<in> set (Operation_keys op) then m' k else m k)"

definition within_budget :: "ShardLimits \<Rightarrow> keyspace \<Rightarrow> bool" where
  "within_budget l m \<longleftrightarrow> card (dom m) \<le> max_keys l \<and>
     (\<Sum>k \<in> dom m. length k + length (e_value (the (m k)))) \<le> max_payload_bytes l"

definition spec_execute :: "bool \<Rightarrow> ShardLimits \<Rightarrow> keyspace \<Rightarrow> Operation \<Rightarrow> int \<Rightarrow>
    (EngineError + Reply) \<times> keyspace" where
  "spec_execute allocated l m op now =
     (if \<not> allocated then (Inl ''OOM could not reserve command effects'', m)
      else case spec_op now (live now m) op of
             Inl e \<Rightarrow> (Inl e, m)
           | Inr (reply, m') \<Rightarrow>
               if length (encode reply []) > max_reply_bytes l
               then (Inl ''ERR response exceeds configured limit'', m)
               else if \<not> within_budget l (after_op m op m')
               then (Inl ''OOM owner key or payload budget exhausted'', m)
               else (Inr reply, after_op m op m'))"

lemma alist_total_sum:
  assumes "hm_wf m"
  shows "alist_total f m = (\<Sum>k \<in> dom (map_of m). f k (the (map_of m k)))"
  using assms
proof (induction m)
  case (Cons kv m)
  obtain k v where kv: "kv = (k, v)" by (cases kv)
  have fresh: "k \<notin> dom (map_of m)" using Cons.prems kv by (simp add: dom_map_of_conv_image_fst)
  have "(\<Sum>k' \<in> dom (map_of (kv # m)). f k' (the (map_of (kv # m) k'))) =
      f k v + (\<Sum>k' \<in> dom (map_of m). f k' (the (map_of (kv # m) k')))"
    using fresh by (simp add: kv finite_dom_map_of insert_absorb)
  also have "(\<Sum>k' \<in> dom (map_of m). f k' (the (map_of (kv # m) k'))) =
      (\<Sum>k' \<in> dom (map_of m). f k' (the (map_of m k')))"
    using fresh by (intro sum.cong) (auto simp: kv)
  finally show ?case using Cons kv by (simp add: alist_total_def)
qed (simp add: alist_total_def)

lemma table_fits_budget:
  assumes "hm_wf m"
  shows "table_fits s m \<longleftrightarrow> within_budget (limits s) (map_of m)"
proof -
  have "alist_total entry_bytes m =
      int (\<Sum>k \<in> dom (map_of m). length k + length (e_value (the (map_of m k))))"
    by (simp add: alist_total_sum [OF assms] entry_bytes_def)
  then show ?thesis
    using hm.len_card [OF assms] by (simp only: table_fits_def within_budget_def of_nat_le_iff)
qed

text \<open>Limits are machine words.\<close>

definition machine_limits :: "ShardLimits \<Rightarrow> bool" where
  "machine_limits l \<longleftrightarrow> max_keys l \<le> usize_max \<and> max_payload_bytes l \<le> usize_max \<and> max_reply_bytes l \<le> usize_max"

lemma reply_fits_length:
  assumes "machine_limits (limits s)"
  shows "reply_fits s reply \<longleftrightarrow> length (encode reply []) \<le> max_reply_bytes (limits s)"
  using assms encoded_len_wire [of reply] by (auto simp: reply_fits_def machine_limits_def wire_def)

lemma after_op_override:
  assumes "settles s now (set (Operation_keys op)) eff"
  shows "after_op (table s) op (live now (override (table s) eff)) = override (table s) eff"
proof
  fix k
  have "override (table s) eff k = table s k" if "k \<notin> set (Operation_keys op)"
    using assms that by (auto simp: settles_def override_def split: option.splits)
  moreover have "live now (override (table s) eff) k = override (table s) eff k" if "k \<in> set (Operation_keys op)"
    using assms that by (auto simp: settles_def live_def split: option.splits)
  ultimately show "after_op (table s) op (live now (override (table s) eff)) k = override (table s) eff k"
    by (simp add: after_op_def)
qed

lemma execute_exact:
  fixes alloc :: allocator and now :: int
  assumes inv: "shard_inv s" and fit: "keys_fit op" and lt: "revision s < u64_max"
    and lim: "machine_limits (limits s)"
  defines "r \<equiv> spec_execute (alloc CommandEffects (length (Operation_keys op))) (limits s) (table s) op now"
  shows "\<exists>s'. execute alloc s op now = Some (fst r, s') \<and> table s' = snd r \<and> shard_inv s' \<and>
    limits s' = limits s \<and> (case fst r of Inl _ \<Rightarrow> s' = s | Inr _ \<Rightarrow> revision s' = Suc (revision s))"
proof -
  note sp = prepare_effects_spec [OF inv fit, of now]
  consider (oom) "\<not> alloc CommandEffects (length (Operation_keys op))"
    | (err) e where "alloc CommandEffects (length (Operation_keys op))" "prepare_effects s op now = Inl e"
    | (eff) eff reply where "alloc CommandEffects (length (Operation_keys op))" "prepare_effects s op now = Inr (eff, reply)"
    by (metis old.sum.exhaust surj_pair)
  then show ?thesis
  proof cases
    case oom
    then show ?thesis using inv by (simp add: r_def spec_execute_def execute_def prepare_def)
  next
    case err
    then show ?thesis using inv sp by (simp add: r_def spec_execute_def execute_def prepare_def)
  next
    case eff
    let ?m = "override (table s) eff"
    have ok: "eff_ok s eff" and wf: "hm_wf eff" and spec: "spec_op now (live now (table s)) op = Inr (reply, live now ?m)"
      using sp eff(2) by (simp_all add: eff_ok_def)
    have after: "after_op (table s) op (live now ?m) = ?m"
      by (rule after_op_override) (rule prepare_effects_settles [OF eff(2)])
    have wfe: "hm_wf (patch eff (entries s))" using inv by (intro hm_wf_patch) (simp add: shard_inv_def shard_core_def)
    have fits: "table_fits s (patch eff (entries s)) \<longleftrightarrow> within_budget (limits s) ?m"
      using table_fits_budget [OF wfe, of s] map_of_patch [OF wf] by simp
    let ?p = "\<lparr>p_revision = revision s, p_effects = eff,
      p_payload_after = nat (alist_total entry_bytes (patch eff (entries s))), p_response = reply\<rparr>"
    show ?thesis
    proof (cases "reply_fits s reply \<and> within_budget (limits s) ?m")
      case False
      then show ?thesis
        using eff spec after fits preflight_eq [OF inv wf, of reply] inv reply_fits_length [OF lim, of reply]
        by (auto simp: r_def spec_execute_def execute_def prepare_def)
    next
      case True
      then obtain s' where s': "Shard_apply s ?p = Some (reply, s')" "shard_inv s'"
        "entries s' = patch eff (entries s)" "limits s' = limits s" "revision s' = Suc (revision s)"
        using Shard_apply_ok [OF inv, of ?p] ok fits lt by auto
      have "execute alloc s op now = Some (Inr reply, s')"
        using s'(1) True eff fits preflight_eq [OF inv wf, of reply] by (simp add: execute_def prepare_def)
      moreover have "r = (Inr reply, ?m)"
        using True eff(1) spec after reply_fits_length [OF lim, of reply] by (simp add: r_def spec_execute_def)
      ultimately show ?thesis using s' map_of_patch [OF wf, of "entries s"] by simp
    qed
  qed
qed

subsection \<open>Properties\<close>

text \<open>A small shard and a granting allocator, on which the properties are evaluated.\<close>

definition granting :: allocator where
  "granting site n = True"

definition tiny :: ShardLimits where
  "tiny = \<lparr>max_keys = 2, max_payload_bytes = 20, max_reply_bytes = 64\<rparr>"

definition tiny_shard :: Shard where
  "tiny_shard = \<lparr>entries = [], expiry = \<lparr>heap = [], positions = []\<rparr>, limits = tiny, payload_bytes = 0,
     revision = 0, expired_keys = 0, applied_commands = 0\<rparr>"

definition leased_shard :: Shard where
  "leased_shard = \<lparr>entries = [(''k'', \<lparr>e_value = ''v'', e_expires = Some 15\<rparr>)],
     expiry = \<lparr>heap = [\<lparr>t_key = ''k'', t_deadline = 15\<rparr>], positions = [(''k'', 0)]\<rparr>, limits = tiny,
     payload_bytes = 2, revision = 1, expired_keys = 0, applied_commands = 1\<rparr>"

lemma tiny_reach: "shard_reach tiny tiny_shard"
  by (rule shard_reach.new [of granting]) code_simp

lemma tiny_lease:
  "execute granting tiny_shard (Set ''k'' ''v'' Always (AfterMilliseconds 5)) 10 = Some (Inr Reply_ok, leased_shard)"
  by code_simp

lemma tiny_expired:
  obtains s where "expire_due leased_shard 15 8 = Some (1, s)" "table s = Map.empty"
proof
  show "expire_due leased_shard 15 8 = Some (1, tiny_shard\<lparr>revision := 2, expired_keys := 1, applied_commands := 1\<rparr>)"
    by code_simp
qed (simp add: tiny_shard_def)

lemma leased_reach: "shard_reach tiny leased_shard"
  by (rule shard_reach.exec [OF tiny_reach _ tiny_lease]) (simp add: keys_fit_def i64_max_def)

lemma tiny_machine: "machine_limits tiny"
  by (simp add: machine_limits_def tiny_def usize_max_def)

text \<open>
  Claim C9. Every data command implements the keyspace specification: on a reachable shard a command
  that succeeds gives the reply the specification gives on the live keyspace, and leaves a shard
  whose live keyspace is the specified one, now and as seen at every later time; a command that is
  refused leaves the shard as it was.
\<close>

theorem execute_refines_keyspace:
  assumes "shard_reach l s" and "keys_fit op" and "execute alloc s op now = Some (r, s')"
  shows "case r of
      Inl e \<Rightarrow> s' = s
    | Inr reply \<Rightarrow> \<exists>m. spec_op now (live now (table s)) op = Inr (reply, m) \<and>
        (\<forall>later \<ge> now. live later (table s') = live later m)"
proof (cases r)
  case (Inl e)
  then show ?thesis using assms(3) by (auto simp: execute_def split: Option.bind_splits sum.splits)
next
  case (Inr reply)
  have inv: "shard_inv s" using shard_reach_inv [OF assms(1)] by simp
  have "revision s < u64_max" using execute_revision [OF inv] assms(3) Inr by blast
  then have "spec_op now (live now (table s)) op = Inr (reply, live now (table s'))"
    using execute_cases [OF inv assms(2), of alloc now] assms(3) Inr by auto
  then show ?thesis using Inr by (auto simp: live_live)
qed

theorem execute_refines_keyspace_witness:
  "\<exists>m. spec_op 10 (live 10 (table tiny_shard)) (Set ''k'' ''v'' Always (AfterMilliseconds 5)) = Inr (Reply_ok, m) \<and>
    (\<forall>later \<ge> 10. live later (table leased_shard) = live later m)"
  using execute_refines_keyspace [OF tiny_reach _ tiny_lease] by (simp add: keys_fit_def i64_max_def)

text \<open>
  Claim C10. The exact outcome of a command, every refusal included: on a reachable shard whose
  revision counter has not run out, \<open>execute\<close> never panics and returns what \<open>spec_execute\<close> says:
  an allocation failure, the command's own error, a reply over the limit, a table over the key or
  byte budget (counted with due keys that no command has touched yet), or success, and then exactly
  the keys of the command are rewritten.
\<close>

theorem execute_outcome:
  assumes "shard_reach l s" and "machine_limits l" and "keys_fit op" and "revision s < u64_max"
  shows "\<exists>s'. execute alloc s op now =
      Some (fst (spec_execute (alloc CommandEffects (length (Operation_keys op))) l (table s) op now), s') \<and>
    table s' = snd (spec_execute (alloc CommandEffects (length (Operation_keys op))) l (table s) op now) \<and>
    limits s' = l"
proof -
  have "shard_inv s" "limits s = l" using shard_reach_inv [OF assms(1)] by simp_all
  then show ?thesis using execute_exact [of s op alloc now] assms(2-4) by auto
qed

theorem execute_outcome_witness:
  "\<exists>s'. execute granting leased_shard (Set ''k'' ''a value too long to fit'' Always Clear) 11 =
      Some (fst (spec_execute (granting CommandEffects (length (Operation_keys (Set ''k'' ''a value too long to fit'' Always Clear))))
        tiny (table leased_shard) (Set ''k'' ''a value too long to fit'' Always Clear) 11), s') \<and>
    table s' = snd (spec_execute (granting CommandEffects (length (Operation_keys (Set ''k'' ''a value too long to fit'' Always Clear))))
        tiny (table leased_shard) (Set ''k'' ''a value too long to fit'' Always Clear) 11) \<and>
    limits s' = tiny"
  by (rule execute_outcome [OF leased_reach tiny_machine])
    (simp_all add: keys_fit_def i64_max_def leased_shard_def u64_max_def)

lemma shard_inv_payload:
  assumes "shard_inv s"
  shows "payload_bytes s = (\<Sum>k \<in> dom (table s). length k + length (e_value (the (table s k))))"
proof -
  have "hm_wf (entries s)" "int (payload_bytes s) = alist_total entry_bytes (entries s)"
    using assms by (simp_all add: shard_inv_def shard_core_def)
  then have "int (payload_bytes s) = int (\<Sum>k \<in> dom (table s). length k + length (e_value (the (table s k))))"
    by (simp add: alist_total_sum entry_bytes_def)
  then show ?thesis by (simp only: of_nat_eq_iff)
qed

lemma shard_inv_budget:
  assumes "shard_inv s"
  shows "within_budget (limits s) (table s)"
proof -
  have wf: "hm_wf (entries s)" using assms by (simp add: shard_inv_def shard_core_def)
  have "length (entries s) \<le> max_keys (limits s)" "payload_bytes s \<le> max_payload_bytes (limits s)"
    using assms by (simp_all add: shard_inv_def)
  then show ?thesis unfolding within_budget_def shard_inv_payload [OF assms] hm.len_card [OF wf] ..
qed

lemma shard_reach_budget: "shard_reach l s \<Longrightarrow> within_budget l (table s)"
  using shard_reach_inv shard_inv_budget by metis

text \<open>
  Claim C22. Accounting: in every history of a shard its statistics are exact and within budget. The
  payload counter is the sum of the lengths of all keys and values, kept by differences only; the
  table has at most \<open>max_keys\<close> keys; the expiration index holds one timer for each key with a
  deadline, with that deadline; the counters of applied commands and of expired keys are the numbers of
  commands that succeeded and of keys that expiration passes removed (saturating at the largest 64-bit
  number), and the reported limits are those the shard was built with.
\<close>

theorem shard_accounting:
  assumes "shard_history l applied expired s"
  shows "st_keys (Shard_stats s) = card (dom (table s)) \<and>
    st_payload_bytes (Shard_stats s) = (\<Sum>k \<in> dom (table s). length k + length (e_value (the (table s k)))) \<and>
    st_expiring_keys (Shard_stats s) = card {k. \<exists>e d. table s k = Some e \<and> e_expires e = Some d} \<and>
    st_applied_commands (Shard_stats s) = min u64_max applied \<and>
    st_expired_keys (Shard_stats s) = min u64_max expired \<and>
    st_max_keys (Shard_stats s) = max_keys l \<and> st_max_payload_bytes (Shard_stats s) = max_payload_bytes l \<and>
    within_budget l (table s) \<and> timers (expiry s) = (\<lambda>k. Option.bind (table s k) e_expires)"
proof -
  have inv: "shard_inv s" and l: "limits s = l" using shard_reach_inv [OF shard_history_reach [OF assms]] by simp_all
  have wf: "hm_wf (entries s)" and einv: "expiry_inv (expiry s)"
    and tm: "timers (expiry s) = (\<lambda>k. Option.bind (table s k) e_expires)"
    using inv by (simp_all add: shard_inv_def shard_core_def)
  have "dom (timers (expiry s)) = {k. \<exists>e d. table s k = Some e \<and> e_expires e = Some d}"
    by (auto simp: tm dom_def bind_eq_Some_conv)
  then show ?thesis
    using l hm.len_card [OF wf] ei.count_law [OF einv] shard_inv_payload [OF inv] shard_inv_budget [OF inv] tm
      shard_history_counts [OF assms] by (simp add: Shard_stats_def)
qed

theorem shard_accounting_witness:
  "\<exists>s. shard_history tiny 1 1 s \<and> st_keys (Shard_stats s) = card (dom (table s)) \<and>
    st_payload_bytes (Shard_stats s) = (\<Sum>k \<in> dom (table s). length k + length (e_value (the (table s k)))) \<and>
    st_expiring_keys (Shard_stats s) = card {k. \<exists>e d. table s k = Some e \<and> e_expires e = Some d} \<and>
    st_applied_commands (Shard_stats s) = 1 \<and> st_expired_keys (Shard_stats s) = 1 \<and>
    st_max_keys (Shard_stats s) = 2 \<and> st_max_payload_bytes (Shard_stats s) = 20 \<and>
    within_budget tiny (table s) \<and> timers (expiry s) = (\<lambda>k. Option.bind (table s k) e_expires)"
proof -
  have new: "shard_history tiny 0 0 tiny_shard" by (rule shard_history.new [of granting]) code_simp
  have leased: "shard_history tiny 1 0 leased_shard"
    using shard_history.success [OF new _ tiny_lease] by (simp add: keys_fit_def i64_max_def)
  obtain s where s: "expire_due leased_shard 15 8 = Some (1, s)" "table s = Map.empty" by (rule tiny_expired)
  have h: "shard_history tiny 1 1 s" using shard_history.expire [OF leased s(1)] s(2) by (simp add: leased_shard_def)
  show ?thesis
    using shard_accounting [OF h] h by (intro exI [of _ s]) (simp add: tiny_def u64_max_def)
qed

text \<open>
  Claim C29. The expiration pass never panics and is exact: it removes as many due keys as the budget
  allows, those with the oldest deadlines first, and nothing else; the live keyspace is the same
  before and after, at this time and at every later one; the store stays within its limits.
\<close>

theorem expire_due_exact:
  assumes "shard_reach l s" and "revision s + budget \<le> u64_max"
  shows "\<exists>R s'. expire_due s now budget = Some (card R, s') \<and> R \<subseteq> due_keys now (table s) \<and>
    card R = min budget (card (due_keys now (table s))) \<and> table s' = (table s) |` (- R) \<and>
    (\<forall>k k' d d'. k \<in> R \<longrightarrow> k' \<notin> R \<longrightarrow> timers (expiry s) k = Some d \<longrightarrow>
       timers (expiry s) k' = Some d' \<longrightarrow> d \<le> d') \<and>
    (\<forall>later \<ge> now. live later (table s') = live later (table s)) \<and> shard_reach l s'"
proof -
  have inv: "shard_inv s" using shard_reach_inv [OF assms(1)] by simp
  obtain R s' where R: "expire_loop s now budget 0 = Some (0 + card R, s')"
    "card R = min (budget - 0) (card (due_keys now (table s)))" "expired_pass now R s s'"
    using expire_loop_ok [OF inv, of budget 0 now] assms(2) by auto
  have sub: "R \<subseteq> due_keys now (table s)" and tab: "table s' = (table s) |` (- R)"
    using R(3) by (simp_all add: expired_pass_def)
  have run: "expire_due s now budget = Some (card R, s')" using R(1) by (simp add: expire_due_def)
  have "live later (table s') k = live later (table s) k" if "now \<le> later" for later k
    using sub tab that by (auto simp: live_def restrict_map_def due_keys_def due_mono split: option.splits)
  then have "\<forall>later \<ge> now. live later (table s') = live later (table s)" by blast
  moreover have "shard_reach l s'" using shard_reach.expire [OF assms(1) run] .
  ultimately show ?thesis
    using R run by (intro exI [of _ R] exI [of _ s']) (simp add: expired_pass_def)
qed

theorem expire_due_exact_witness:
  "\<exists>R s'. expire_due leased_shard 15 8 = Some (card R, s') \<and> R \<subseteq> due_keys 15 (table leased_shard) \<and>
    card R = min 8 (card (due_keys 15 (table leased_shard))) \<and> table s' = (table leased_shard) |` (- R) \<and>
    (\<forall>k k' d d'. k \<in> R \<longrightarrow> k' \<notin> R \<longrightarrow> timers (expiry leased_shard) k = Some d \<longrightarrow>
       timers (expiry leased_shard) k' = Some d' \<longrightarrow> d \<le> d') \<and>
    (\<forall>later \<ge> 15. live later (table s') = live later (table leased_shard)) \<and> shard_reach tiny s'"
  by (rule expire_due_exact [OF leased_reach]) (simp add: leased_shard_def u64_max_def)

subsection \<open>Preparations are single-use\<close>

lemma prepare_revision: "prepare alloc s op now = Some (Inr p) \<Longrightarrow> p_revision p = revision s"
  by (auto simp: prepare_def preflight_def Let_def split: sum.splits prod.splits if_splits)

text \<open>
  Claim C32. Two phases: a preparation made on a reachable shard can be applied to it without a panic
  and gives its reply; after any command has been applied or any key has been expired in between,
  the revision check refuses it, so effects computed on an older table are never installed.
\<close>

theorem prepared_single_use:
  assumes "shard_reach l s" and "keys_fit op" and "prepare alloc s op now = Some (Inr p)" and "revision s < u64_max"
  shows "(\<exists>s'. Shard_apply s p = Some (p_response p, s') \<and> shard_reach l s') \<and>
    (\<forall>alloc' op' now' reply s'. keys_fit op' \<longrightarrow>
       execute alloc' s op' now' = Some (Inr reply, s') \<longrightarrow> Shard_apply s' p = None) \<and>
    (\<forall>now' budget n s'. expire_due s now' budget = Some (n, s') \<longrightarrow> 0 < n \<longrightarrow> Shard_apply s' p = None)"
proof (intro conjI allI impI)
  have inv: "shard_inv s" using shard_reach_inv [OF assms(1)] by simp
  have rev: "p_revision p = revision s" using prepare_revision [OF assms(3)] .
  obtain reply s' where "execute alloc s op now = Some (Inr reply, s')"
    "Shard_apply s p = Some (reply, s')"
    using execute_cases [OF inv assms(2,4), of alloc now] assms(3)
    by (auto simp: execute_def split: Option.bind_splits)
  moreover from this(2) have "reply = p_response p"
    by (auto simp: Shard_apply_def split: if_splits Option.bind_splits)
  ultimately show "\<exists>s'. Shard_apply s p = Some (p_response p, s') \<and> shard_reach l s'"
    using shard_reach.exec [OF assms(1,2)] by blast
  show "Shard_apply s' p = None"
    if "keys_fit op'" "execute alloc' s op' now' = Some (Inr reply, s')" for alloc' op' now' reply s'
  proof -
    have "revision s' = Suc (revision s)"
      using execute_cases [OF inv that(1) assms(4), of alloc' now'] that(2) by auto
    then show ?thesis using rev by (simp add: Shard_apply_def)
  qed
  show "Shard_apply s' p = None"
    if "expire_due s now' budget = Some (n, s')" "0 < n" for now' budget n s'
  proof -
    have "revision s' = revision s + n"
      using expire_loop_pass [OF inv, of now' budget 0 n s'] that(1) by (auto simp: expire_due_def expired_pass_def)
    then show ?thesis using rev that(2) by (simp add: Shard_apply_def)
  qed
qed

definition lease_prepared :: Prepared where
  "lease_prepared = \<lparr>p_revision = 0, p_effects = [(''k'', Some \<lparr>e_value = ''v'', e_expires = Some 15\<rparr>)],
     p_payload_after = 2, p_response = Reply_ok\<rparr>"

theorem prepared_single_use_witness:
  "Shard_apply tiny_shard lease_prepared = Some (Reply_ok, leased_shard) \<and> Shard_apply leased_shard lease_prepared = None"
proof
  let ?op = "Set ''k'' ''v'' Always (AfterMilliseconds 5)"
  have fit: "keys_fit ?op" by (simp add: keys_fit_def i64_max_def)
  have prep: "prepare granting tiny_shard ?op 10 = Some (Inr lease_prepared)" by code_simp
  have rev: "revision tiny_shard < u64_max" by (simp add: tiny_shard_def u64_max_def)
  show "Shard_apply leased_shard lease_prepared = None"
    using prepared_single_use [OF tiny_reach fit prep rev] fit tiny_lease by blast
  show "Shard_apply tiny_shard lease_prepared = Some (Reply_ok, leased_shard)" by code_simp
qed

subsection \<open>The iteration order of the effects does not matter\<close>

lemma map_of_mset_eq:
  assumes "hm_wf xs" and "mset xs = mset ys"
  shows "map_of xs = map_of ys" and "hm_wf ys"
proof -
  have "mset (map fst xs) = mset (map fst ys)" using assms(2) by simp
  then show wf: "hm_wf ys" using assms(1) mset_eq_imp_distinct_iff by blast
  show "map_of xs = map_of ys"
    using assms wf by (metis map_of_inject_set mset_eq_setD)
qed

lemma preflight_loop_mset:
  assumes "mset eff = mset eff'"
  shows "preflight_loop s keys payload eff = preflight_loop s keys payload eff'"
proof -
  have "sum_list (map f eff) = sum_list (map f eff')" for f :: "bytes \<times> Entry option \<Rightarrow> int"
    using assms by (metis mset_map sum_mset_sum_list)
  then show ?thesis by (simp add: preflight_loop_sum)
qed

text \<open>
  Claim C33. \<open>apply\<close> and \<open>preflight\<close> iterate over a hash map of effects, whose order is arbitrary:
  in whatever order the same effects are visited, the admission check adds up the same totals, and
  their installation succeeds and leaves the same table, the same timers and the same counters.
\<close>

theorem effects_order_irrelevant:
  assumes "shard_reach l s" and "hm_wf eff" and "mset eff = mset eff'"
  shows "preflight_loop s keys payload eff = preflight_loop s keys payload eff' \<and>
    (\<exists>s1 s2. apply_effects eff s = Some s1 \<and> apply_effects eff' s = Some s2 \<and> table s1 = table s2 \<and>
      timers (expiry s1) = timers (expiry s2) \<and> Shard_stats s1 = Shard_stats s2 \<and>
      (\<forall>now. ExpiryIndex_expired (expiry s1) now = None \<longleftrightarrow> ExpiryIndex_expired (expiry s2) now = None))"
proof -
  have core: "shard_core s" using shard_reach_inv [OF assms(1)] by (simp add: shard_inv_def)
  have wf: "hm_wf (entries s)" using core by (simp add: shard_core_def)
  obtain s1 s2 where s1: "apply_effects eff s = Some s1" "shard_core s1" "entries s1 = patch eff (entries s)"
      "s1 = s\<lparr>expiry := expiry s1, entries := entries s1\<rparr>"
    and s2: "apply_effects eff' s = Some s2" "shard_core s2" "entries s2 = patch eff' (entries s)"
      "s2 = s\<lparr>expiry := expiry s2, entries := entries s2\<rparr>"
    using apply_effects_ok [OF core] by metis
  have tab: "table s1 = table s2"
    using map_of_mset_eq [OF assms(2,3)] s1(3) s2(3) assms(2) by (simp add: map_of_patch override_def)
  then have tm: "timers (expiry s1) = timers (expiry s2)" using s1(2) s2(2) by (simp add: shard_core_def)
  have inv: "expiry_inv (expiry s1)" "expiry_inv (expiry s2)" "hm_wf (entries s1)" "hm_wf (entries s2)"
    using s1(2) s2(2) by (simp_all add: shard_core_def)
  have "length (entries s1) = length (entries s2)" using hm.len_eq [OF inv(3,4) tab] .
  moreover have "ExpiryIndex_len (expiry s1) = ExpiryIndex_len (expiry s2)"
    using ei.count_law [OF inv(1)] ei.count_law [OF inv(2)] tm by simp
  ultimately have "Shard_stats s1 = Shard_stats s2"
    by (subst s1(4), subst s2(4)) (simp add: Shard_stats_def)
  moreover have "ExpiryIndex_expired (expiry s1) now = None \<longleftrightarrow> ExpiryIndex_expired (expiry s2) now = None" for now
    using ei.expired_none [OF inv(1)] ei.expired_none [OF inv(2)] tm by simp
  ultimately show ?thesis using s1(1) s2(1) tab tm preflight_loop_mset [OF assms(3)] by blast
qed

theorem effects_order_irrelevant_witness:
  "preflight_loop leased_shard 1 2 [(''a'', None), (''k'', None)] = preflight_loop leased_shard 1 2 [(''k'', None), (''a'', None)] \<and>
    (\<exists>s1 s2. apply_effects [(''a'', None), (''k'', None)] leased_shard = Some s1 \<and>
      apply_effects [(''k'', None), (''a'', None)] leased_shard = Some s2 \<and> table s1 = table s2 \<and>
      timers (expiry s1) = timers (expiry s2) \<and> Shard_stats s1 = Shard_stats s2 \<and>
      (\<forall>now. ExpiryIndex_expired (expiry s1) now = None \<longleftrightarrow> ExpiryIndex_expired (expiry s2) now = None))"
  by (rule effects_order_irrelevant [OF leased_reach]) simp_all

end
