(* ===== verification/Server_Config.thy ===== *)
theory Server_Config
  imports Shard_Correctness
begin

section \<open>Configuration (crates/recall-server/src/config.rs)\<close>

text \<open>
  The configuration record, its default, its validation and the apportioning of the storage budget
  to the owners. Durations are milliseconds; an address is an IPv4 or IPv6 address with a port. The
  number of processors, which the standard library reports or not, is an argument of the default.
\<close>

subsection \<open>Definitions\<close>

datatype IpAddr = V4 nat nat nat nat | V6 "nat list"

text \<open>\<open>IpAddr::is_loopback\<close>: 127.0.0.0/8 or ::1.\<close>

fun is_loopback :: "IpAddr \<Rightarrow> bool" where
  "is_loopback (V4 a b c d) = (a = 127)"
| "is_loopback (V6 segments) = (segments = [0, 0, 0, 0, 0, 0, 0, 1])"

record SocketAddr =
  ip :: IpAddr
  port :: nat

record Config =
  bind_addr :: SocketAddr
  workers :: nat
  io_threads :: nat
  max_connections :: nat
  queue_capacity :: nat
  queue_bytes :: nat
  admission_timeout :: nat
  read_timeout :: nat
  write_timeout :: nat
  expiry_interval :: nat
  expiry_batch :: nat
  cfg_max_payload_bytes :: nat
  keys_per_worker :: nat
  cfg_max_reply_bytes :: nat
  protocol :: Limits
  commands :: ParseLimits
  password :: "bytes option"

definition Config_default :: "nat option \<Rightarrow> Config" where
  "Config_default available_parallelism =
     (let cpus = (case available_parallelism of None \<Rightarrow> 4 | Some n \<Rightarrow> n) in
      \<lparr>bind_addr = \<lparr>ip = V4 127 0 0 1, port = 6379\<rparr>,
       workers = min 16 (max 1 (cpus - 2)),
       io_threads = 2,
       max_connections = 128,
       queue_capacity = 256,
       queue_bytes = 4 * 1024 * 1024,
       admission_timeout = 250,
       read_timeout = 30000,
       write_timeout = 10000,
       expiry_interval = 10,
       expiry_batch = 64,
       cfg_max_payload_bytes = 512 * 1024 * 1024,
       keys_per_worker = 16384,
       cfg_max_reply_bytes = 4 * 1024 * 1024,
       protocol = Limits_default,
       commands = ParseLimits_default,
       password = None\<rparr>)"

text \<open>An \<open>io::Error\<close> of kind \<open>InvalidInput\<close> with its message.\<close>

type_synonym ConfigError = bytes

definition invalid :: "bytes \<Rightarrow> ConfigError" where
  "invalid message = message"

definition validate :: "Config \<Rightarrow> ConfigError + unit" where
  "validate c =
     (if \<not> is_loopback (ip (bind_addr c))
      then Inl (invalid ''this milestone permits loopback binds only; transport security is not implemented'')
      else if \<not> (1 \<le> workers c \<and> workers c \<le> 64)
         \<or> \<not> (1 \<le> io_threads c \<and> io_threads c \<le> 64)
         \<or> \<not> (1 \<le> max_connections c \<and> max_connections c \<le> 65536)
         \<or> \<not> (1 \<le> queue_capacity c \<and> queue_capacity c \<le> 65536)
         \<or> queue_bytes c = 0
         \<or> queue_bytes c > u32_max
         \<or> keys_per_worker c = 0
         \<or> keys_per_worker c > 1048576
         \<or> cfg_max_payload_bytes c < workers c
      then Inl (invalid ''invalid worker, connection, queue, key, or payload limit'')
      else if admission_timeout c = 0
         \<or> read_timeout c = 0
         \<or> write_timeout c = 0
         \<or> expiry_interval c = 0
         \<or> expiry_batch c = 0
      then Inl (invalid ''timeouts and expiration budgets must be nonzero'')
      else case Limits_validate (protocol c) of
        Inl e \<Rightarrow> Inl (invalid e)
      | Inr _ \<Rightarrow>
          if max_frame_bytes (protocol c) > 16 * 1024 * 1024
             \<or> max_arguments (protocol c) > 4096
             \<or> max_key_bytes (commands c) > max_bulk_bytes (protocol c)
             \<or> max_value_bytes (commands c) > max_bulk_bytes (protocol c)
             \<or> max_client_metadata_bytes (commands c) > 1024
             \<or> cfg_max_reply_bytes c < usize_saturating_add (max_value_bytes (commands c)) 64
             \<or> cfg_max_reply_bytes c > 64 * 1024 * 1024
          then Inl (invalid ''inconsistent or excessive protocol/command/reply limits'')
          else if (case password c of None \<Rightarrow> False | Some p \<Rightarrow> p = [] \<or> length p > 1024)
          then Inl (invalid ''the configured password must contain 1 to 1024 bytes'')
          else Inr ())"

definition shard_limits :: "Config \<Rightarrow> nat \<Rightarrow> ShardLimits" where
  "shard_limits c owner =
     \<lparr>max_keys = keys_per_worker c,
      max_payload_bytes = cfg_max_payload_bytes c div workers c
        + (if owner < cfg_max_payload_bytes c mod workers c then 1 else 0),
      max_reply_bytes = cfg_max_reply_bytes c\<rparr>"

subsection \<open>Properties\<close>

lemma validate_facts:
  assumes "validate c = Inr ()"
  shows "is_loopback (ip (bind_addr c))" "1 \<le> workers c" "workers c \<le> 64" "1 \<le> queue_capacity c"
    "1 \<le> max_connections c" "queue_bytes c \<le> u32_max" "1 \<le> keys_per_worker c" "keys_per_worker c \<le> 1048576"
    "workers c \<le> cfg_max_payload_bytes c"
    "Limits_validate (protocol c) = Inr ()" "max_frame_bytes (protocol c) \<le> 16777216"
    "max_value_bytes (commands c) + 64 \<le> cfg_max_reply_bytes c" "cfg_max_reply_bytes c \<le> 67108864"
    "max_value_bytes (commands c) \<le> max_bulk_bytes (protocol c)" "password c \<noteq> Some []"
proof -
  have *: "usize_saturating_add (max_value_bytes (commands c)) 64 \<le> cfg_max_reply_bytes c"
    "cfg_max_reply_bytes c \<le> 67108864"
    using assms by (auto simp: validate_def split: if_splits sum.splits)
  then show "max_value_bytes (commands c) + 64 \<le> cfg_max_reply_bytes c" "cfg_max_reply_bytes c \<le> 67108864"
    by (auto simp: usize_saturating_add_def usize_max_def)
qed (use assms in \<open>auto simp: validate_def split: if_splits sum.splits option.splits\<close>)

lemma apportion: "0 < n \<Longrightarrow> (\<Sum>i < n. (b::nat) div n + (if i < b mod n then 1 else 0)) = b"
proof -
  assume n: "0 < n"
  have "(\<Sum>i < n. if i < b mod n then 1 else (0::nat)) = card ({..<n} \<inter> {i. i < b mod n})"
    by (simp add: sum.If_cases)
  also have "{..<n} \<inter> {i. i < b mod n} = {..<b mod n}"
    using less_trans [OF _ mod_less_divisor [OF n, of b]] by auto
  finally show ?thesis using n by (simp add: sum.distrib)
qed

text \<open>
  A validated configuration can always start and never exceeds its memory budget: the
  payload budgets of the owners add up to exactly the configured budget, every owner gets at least
  one byte and at least one key, and every owner's shard passes the checks of \<open>Shard::new\<close>, so that
  it is created whenever the allocator grants its tables.
\<close>

theorem shard_limits_apportion:
  assumes "validate c = Inr ()"
  shows "(\<Sum>owner < workers c. max_payload_bytes (shard_limits c owner)) = cfg_max_payload_bytes c \<and>
    (\<forall>owner. 1 \<le> max_payload_bytes (shard_limits c owner) \<and>
      (\<exists>s. Shard_new granting (shard_limits c owner) = Inr s \<and> shard_reach (shard_limits c owner) s))"
proof (intro conjI allI)
  note v = validate_facts [OF assms]
  show "(\<Sum>owner < workers c. max_payload_bytes (shard_limits c owner)) = cfg_max_payload_bytes c"
    using apportion [of "workers c" "cfg_max_payload_bytes c"] v(2) by (simp add: shard_limits_def)
  fix owner
  have "1 \<le> cfg_max_payload_bytes c div workers c" using v(2,9) by (simp add: div_greater_zero_iff Suc_leI)
  then show pos: "1 \<le> max_payload_bytes (shard_limits c owner)" by (simp add: shard_limits_def)
  have "\<exists>s. Shard_new granting (shard_limits c owner) = Inr s"
    using pos v(7,12) by (auto simp: Shard_new_def shard_limits_def granting_def ExpiryIndex_new_def split: if_splits)
  then show "\<exists>s. Shard_new granting (shard_limits c owner) = Inr s \<and> shard_reach (shard_limits c owner) s"
    using shard_reach.new by blast
qed

lemma default_valid: "validate (Config_default cpus) = Inr ()"
  by (simp add: validate_def Config_default_def Limits_validate_def Limits_default_def
      ParseLimits_default_def u32_max_def usize_saturating_add_def usize_max_def Let_def min_def max_def)

theorem shard_limits_apportion_witness:
  "(\<Sum>owner < workers (Config_default (Some 8)). max_payload_bytes (shard_limits (Config_default (Some 8)) owner))
    = cfg_max_payload_bytes (Config_default (Some 8))"
  using shard_limits_apportion [OF default_valid] by blast

lemma value_reply_fits:
  assumes "validate c = Inr ()" and "length v \<le> max_value_bytes (commands c)"
  shows "length (encode (Bulk (Some v)) []) \<le> cfg_max_reply_bytes c"
proof -
  note v = validate_facts [OF assms(1)]
  have "length v < 10 ^ 20" using assms(2) v(12,13) by simp
  then have "length (nat_to_string (length v)) \<le> 20" by (intro length_nat_to_string_le) simp_all
  then show ?thesis using assms(2) v(12) by (simp add: crlf_def)
qed

text \<open>
  The limits of a validated configuration fit together: a value that a client may store can
  always be read back, because the encoded reply of \<open>GET\<close> is within the reply limit of every owner.
\<close>

theorem stored_values_are_readable:
  assumes "validate c = Inr ()" and "length v \<le> max_value_bytes (commands c)"
  shows "length (encode (Bulk (Some v)) []) \<le> max_reply_bytes (shard_limits c owner)"
  using value_reply_fits [OF assms] by (simp add: shard_limits_def)

theorem stored_values_are_readable_witness:
  "length (encode (Bulk (Some ''value'')) []) \<le> max_reply_bytes (shard_limits (Config_default None) 3)"
  by (rule stored_values_are_readable [OF default_valid])
    (simp add: Config_default_def ParseLimits_default_def Let_def)

text \<open>
  The default configuration is valid on every machine, whatever parallelism it reports.
\<close>

theorem default_config_valid:
  "validate (Config_default available_parallelism) = Inr () \<and>
   1 \<le> workers (Config_default available_parallelism) \<and> workers (Config_default available_parallelism) \<le> 16"
  using default_valid by (auto simp: Config_default_def Let_def)

end
