(* ===== verification/Client_Session.thy ===== *)
theory Client_Session
  imports Server_Config
begin

section \<open>Sessions (crates/recall-server/src/session.rs)\<close>

text \<open>
  A session belongs to one connection: it keeps whether the client has authenticated and what the
  client said of itself, and answers one command after the other. The engine is seen through its
  handle: \<open>engine\<close> is any state with the two calls a session makes, \<open>run\<close> for
  \<open>EngineHandle::execute\<close> and \<open>stats\<close> for \<open>EngineHandle::stats\<close>, so that what a session does to
  the engine is visible. \<open>ct_eq\<close> stands for the constant-time comparison of the \<open>subtle\<close> crate,
  which is documented to be true exactly on equal slices. \<open>None\<close> is a panic.
\<close>

subsection \<open>Definitions\<close>

record Metrics =
  active_connections :: nat
  total_connections :: nat
  rejected_connections :: nat
  total_commands :: nat
  protocol_errors :: nat
  io_timeouts :: nat

definition Metrics_default :: Metrics where
  "Metrics_default = \<lparr>active_connections = 0, total_connections = 0, rejected_connections = 0,
     total_commands = 0, protocol_errors = 0, io_timeouts = 0\<rparr>"

record Session =
  s_id :: nat
  authenticated :: bool
  s_name :: "bytes option"
  library_name :: "bytes option"
  library_version :: "bytes option"

definition Session_new :: "nat \<Rightarrow> Config \<Rightarrow> Session" where
  "Session_new client config =
     \<lparr>s_id = client, authenticated = (password config = None), s_name = None, library_name = None, library_version = None\<rparr>"

definition nonempty :: "bytes \<Rightarrow> bytes option" where
  "nonempty value = (if value = [] then None else Some value)"

definition authenticate :: "(bytes \<Rightarrow> bytes \<Rightarrow> bool) \<Rightarrow> Config \<Rightarrow> bytes option \<Rightarrow> bytes \<Rightarrow> Reply + unit" where
  "authenticate ct_eq config username supplied =
     (case password config of
        None \<Rightarrow> Inl (Reply_error ''ERR AUTH called without any password configured for the default user.'')
      | Some expected \<Rightarrow>
          let password_matches = ct_eq expected supplied;
              user_matches = (case username of None \<Rightarrow> True | Some name \<Rightarrow> name = ''default'')
          in if password_matches \<and> user_matches then Inr ()
             else Inl (Reply_error ''WRONGPASS invalid username-password pair or user is disabled.''))"

definition pkg_version :: bytes where
  "pkg_version = ''0.1.0''"

definition hello_reply :: "Session \<Rightarrow> Reply" where
  "hello_reply s = Array
     [Reply_bulk ''server'', Reply_bulk ''recall'', Reply_bulk ''version'', Reply_bulk pkg_version,
      Reply_bulk ''proto'', Integer 2, Reply_bulk ''id'', Integer (as_i64 (s_id s)),
      Reply_bulk ''mode'', Reply_bulk ''standalone'', Reply_bulk ''role'', Reply_bulk ''master'',
      Reply_bulk ''modules'', Array []]"

text \<open>The sections of \<open>INFO\<close>; a sum of \<open>usize\<close> values wraps.\<close>

definition usize_sum :: "nat list \<Rightarrow> nat" where
  "usize_sum ns = sum_list ns mod (usize_max + 1)"

definition line :: "bytes \<Rightarrow> nat \<Rightarrow> bytes" where
  "line name n = name @ '':'' @ nat_to_string n @ crlf"

definition info_include :: "bytes option \<Rightarrow> bytes \<Rightarrow> bool" where
  "info_include section name =
     (case section of
        None \<Rightarrow> True
      | Some value \<Rightarrow> eq_ignore_ascii_case value ''all'' \<or> eq_ignore_ascii_case value ''default'' \<or>
          eq_ignore_ascii_case value name)"

definition owner_line :: "nat \<Rightarrow> ShardStats \<Rightarrow> bytes" where
  "owner_line index st =
     ''owner_'' @ nat_to_string index @ '':keys='' @ nat_to_string (st_keys st) @
     '',payload_bytes='' @ nat_to_string (st_payload_bytes st) @ '',key_limit='' @ nat_to_string (st_max_keys st) @
     '',payload_limit='' @ nat_to_string (st_max_payload_bytes st) @ '',active_expired='' @ nat_to_string (st_expired_keys st) @
     '',applied='' @ nat_to_string (st_applied_commands st) @ crlf"

fun owner_lines :: "nat \<Rightarrow> ShardStats list \<Rightarrow> bytes" where
  "owner_lines index [] = []"
| "owner_lines index (st # sts) = owner_line index st @ owner_lines (index + 1) sts"

definition info :: "('e \<Rightarrow> ShardStats list \<times> 'e) \<Rightarrow> Config \<Rightarrow> Metrics \<Rightarrow> bytes option \<Rightarrow> 'e \<Rightarrow> Reply \<times> 'e" where
  "info stats config metrics section engine =
     (let server = (if info_include section ''server''
            then ''# Server'' @ crlf @ ''server_name:recall'' @ crlf @ ''recall_version:'' @ pkg_version @ crlf @
              ''mode:standalone'' @ crlf @ ''persistence:memory-only'' @ crlf @ line ''engine_workers'' (workers config)
            else []);
          clients = (if info_include section ''clients''
            then ''# Clients'' @ crlf @ line ''connected_clients'' (active_connections metrics) else []);
          statistics = (if info_include section ''stats''
            then ''# Stats'' @ crlf @ line ''total_connections_received'' (total_connections metrics) @
              line ''total_commands_processed'' (total_commands metrics) @
              line ''rejected_connections'' (rejected_connections metrics) @
              line ''protocol_errors'' (protocol_errors metrics) @ line ''io_timeouts'' (io_timeouts metrics)
            else [])
      in if info_include section ''memory''
         then let (sts, engine') = stats engine in
           (Reply_bulk (server @ clients @ statistics @
              ''# Memory'' @ crlf @ ''accounting:live-key-value-payload-only'' @ crlf @
              line ''payload_bytes'' (usize_sum (map st_payload_bytes sts)) @
              ''allocated_metadata_model:preallocated-per-owner'' @ crlf @
              line ''physical_keys'' (usize_sum (map st_keys sts)) @
              line ''expiring_keys'' (usize_sum (map st_expiring_keys sts)) @
              owner_lines 0 sts), engine')
         else (Reply_bulk (server @ clients @ statistics), engine))"

definition noauth :: Reply where
  "noauth = Reply_error ''NOAUTH Authentication required.''"

text \<open>The commands behind the authentication gate: reply, whether to close, session and engine.\<close>

definition session_command :: "(Operation \<Rightarrow> 'e \<Rightarrow> Reply \<times> 'e) \<Rightarrow> ('e \<Rightarrow> ShardStats list \<times> 'e) \<Rightarrow> Config \<Rightarrow> Metrics \<Rightarrow>
    Session \<Rightarrow> Command \<Rightarrow> 'e \<Rightarrow> (Reply \<times> bool \<times> Session \<times> 'e) option" where
  "session_command run stats config metrics s command engine =
     (case command of
        Data operation \<Rightarrow> (let (reply, engine') = run operation engine in Some (reply, False, s, engine'))
      | Ping None \<Rightarrow> Some (Simple ''PONG'', False, s, engine)
      | Ping (Some value) \<Rightarrow> Some (Reply_bulk value, False, s, engine)
      | Echo value \<Rightarrow> Some (Reply_bulk value, False, s, engine)
      | Quit \<Rightarrow> Some (Reply_ok, True, s, engine)
      | Select db \<Rightarrow>
          Some (if db = 0 then Reply_ok else Reply_error ''ERR DB index is out of range'', False, s, engine)
      | Client GetName \<Rightarrow> Some (Bulk (s_name s), False, s, engine)
      | Client (SetName name) \<Rightarrow> Some (Reply_ok, False, s\<lparr>s_name := nonempty name\<rparr>, engine)
      | Client (SetInfo is_library_name value) \<Rightarrow>
          Some (Reply_ok, False,
            (if is_library_name then s\<lparr>library_name := nonempty value\<rparr> else s\<lparr>library_version := nonempty value\<rparr>), engine)
      | Metadata query \<Rightarrow> Some (metadata query, False, s, engine)
      | Info section \<Rightarrow> (let (reply, engine') = info stats config metrics section engine in Some (reply, False, s, engine'))
      | Auth _ _ \<Rightarrow> None
      | Hello _ _ _ \<Rightarrow> None)"

definition Session_execute :: "(bytes \<Rightarrow> bytes \<Rightarrow> bool) \<Rightarrow> (Operation \<Rightarrow> 'e \<Rightarrow> Reply \<times> 'e) \<Rightarrow>
    ('e \<Rightarrow> ShardStats list \<times> 'e) \<Rightarrow> Config \<Rightarrow> Metrics \<Rightarrow> Session \<Rightarrow> Command \<Rightarrow> 'e \<Rightarrow>
    (Reply \<times> bool \<times> Session \<times> 'e) option" where
  "Session_execute ct_eq run stats config metrics s command engine =
     (case command of
        Auth username supplied \<Rightarrow>
          (case authenticate ct_eq config username supplied of
             Inr _ \<Rightarrow> Some (Reply_ok, False, s\<lparr>authenticated := True\<rparr>, engine)
           | Inl reply \<Rightarrow> Some (reply, False, s, engine))
      | Hello protocol_version auth name \<Rightarrow>
          if (case protocol_version of None \<Rightarrow> False | Some version \<Rightarrow> version \<noteq> 2)
          then Some (Reply_error ''NOPROTO unsupported protocol version'', False, s, engine)
          else
            (case (case auth of
                     None \<Rightarrow> Inr s
                   | Some (username, supplied) \<Rightarrow>
                       (case authenticate ct_eq config (Some username) supplied of
                          Inl reply \<Rightarrow> Inl reply
                        | Inr _ \<Rightarrow> Inr (s\<lparr>authenticated := True\<rparr>))) of
               Inl reply \<Rightarrow> Some (reply, False, s, engine)
             | Inr s1 \<Rightarrow>
                 if \<not> authenticated s1 then Some (noauth, False, s1, engine)
                 else let s2 = (case name of None \<Rightarrow> s1 | Some n \<Rightarrow> s1\<lparr>s_name := nonempty n\<rparr>) in
                   Some (hello_reply s2, False, s2, engine))
      | _ \<Rightarrow>
          if \<not> authenticated s then Some (noauth, False, s, engine)
          else session_command run stats config metrics s command engine)"

text \<open>A session's commands one after the other.\<close>

fun Session_run :: "(bytes \<Rightarrow> bytes \<Rightarrow> bool) \<Rightarrow> (Operation \<Rightarrow> 'e \<Rightarrow> Reply \<times> 'e) \<Rightarrow> ('e \<Rightarrow> ShardStats list \<times> 'e) \<Rightarrow>
    Config \<Rightarrow> Metrics \<Rightarrow> Session \<Rightarrow> Command list \<Rightarrow> 'e \<Rightarrow> (Reply list \<times> Session \<times> 'e) option" where
  "Session_run ct_eq run stats config metrics s [] engine = Some ([], s, engine)"
| "Session_run ct_eq run stats config metrics s (command # rest) engine = do {
     (reply, close, s', engine') \<leftarrow> Session_execute ct_eq run stats config metrics s command engine;
     (replies, s'', engine'') \<leftarrow> Session_run ct_eq run stats config metrics s' rest engine';
     Some (reply # replies, s'', engine'')
   }"

subsection \<open>Authentication\<close>

text \<open>The commands that present the configured password.\<close>

fun presents :: "bytes \<Rightarrow> Command \<Rightarrow> bool" where
  "presents pw (Auth username supplied) = (supplied = pw \<and> username \<in> {None, Some ''default''})"
| "presents pw (Hello version (Some (username, supplied)) name) =
     (version \<in> {None, Some 2} \<and> supplied = pw \<and> username = ''default'')"
| "presents pw _ = False"

lemma authenticate_iff:
  assumes "\<forall>a b. ct_eq a b = (a = b)"
  shows "authenticate ct_eq c username supplied = Inr () \<longleftrightarrow>
    password c = Some supplied \<and> username \<in> {None, Some ''default''}"
  using assms by (auto simp: authenticate_def Let_def split: option.splits)

lemma session_command_total:
  "(\<forall>u p. command \<noteq> Auth u p) \<Longrightarrow> (\<forall>v a n. command \<noteq> Hello v a n) \<Longrightarrow>
   \<exists>reply close s' engine'. session_command run stats c metrics s command engine = Some (reply, close, s', engine') \<and>
     authenticated s' = authenticated s"
  by (cases command) (auto simp: session_command_def split: prod.splits option.splits ClientCommand.splits)

lemma Session_execute_auth:
  assumes ct: "\<forall>a b. ct_eq a b = (a = b)"
  shows "\<exists>reply close s' engine'. Session_execute ct_eq run stats c metrics s command engine = Some (reply, close, s', engine') \<and>
    (authenticated s' \<longleftrightarrow> authenticated s \<or> (\<exists>pw. password c = Some pw \<and> presents pw command))"
proof (cases "(\<exists>u p. command = Auth u p) \<or> (\<exists>v a n. command = Hello v a n)")
  case False
  then have ns: "\<forall>u p. command \<noteq> Auth u p" "\<forall>v a n. command \<noteq> Hello v a n" by blast+
  then have "Session_execute ct_eq run stats c metrics s command engine =
      (if \<not> authenticated s then Some (noauth, False, s, engine) else session_command run stats c metrics s command engine)"
    and "\<not> presents pw command" for pw
    by (cases command; simp add: Session_execute_def)+
  then show ?thesis using session_command_total [OF ns, of run stats c metrics s engine] by (cases "authenticated s") auto
next
  case True
  have auth: "authenticate ct_eq c u p = Inr () \<longleftrightarrow> password c = Some p \<and> u \<in> {None, Some ''default''}" for u p
    using authenticate_iff [OF ct] .
  from True show ?thesis
  proof (elim disjE exE)
    fix u p assume cmd: "command = Auth u p"
    show ?thesis
      using auth [of u p] cmd by (cases "authenticate ct_eq c u p") (auto simp: Session_execute_def)
  next
    fix v a n assume cmd: "command = Hello v a n"
    show ?thesis
    proof (cases a)
      case None
      then show ?thesis using cmd by (auto simp: Session_execute_def Let_def split: option.splits)
    next
      case (Some up)
      then show ?thesis
        using auth [of "Some (fst up)" "snd up"] cmd
        by (cases up; cases "authenticate ct_eq c (Some (fst up)) (snd up)")
          (auto simp: Session_execute_def Let_def split: option.splits)
    qed
  qed
qed

lemma Session_run_auth:
  assumes ct: "\<forall>a b. ct_eq a b = (a = b)"
  shows "\<exists>replies s' engine'. Session_run ct_eq run stats c metrics s cmds engine = Some (replies, s', engine') \<and>
    length replies = length cmds \<and>
    (authenticated s' \<longleftrightarrow> authenticated s \<or> (\<exists>pw. password c = Some pw \<and> (\<exists>command \<in> set cmds. presents pw command)))"
proof (induction cmds arbitrary: s engine)
  case (Cons command rest)
  obtain reply close s1 engine1 where one: "Session_execute ct_eq run stats c metrics s command engine = Some (reply, close, s1, engine1)"
    "authenticated s1 \<longleftrightarrow> authenticated s \<or> (\<exists>pw. password c = Some pw \<and> presents pw command)"
    using Session_execute_auth [OF ct, of run stats c metrics s command engine] by blast
  show ?case using Cons.IH [of s1 engine1] one by auto
qed simp

text \<open>A session that has not authenticated answers with errors and leaves the engine and itself alone.\<close>

lemma Session_execute_gate:
  assumes ct: "\<forall>a b. ct_eq a b = (a = b)" and pw: "password c = Some pw"
    and un: "\<not> authenticated s" and no: "\<not> presents pw command"
  shows "\<exists>msg. Session_execute ct_eq run stats c metrics s command engine = Some (Reply_error msg, False, s, engine)"
proof -
  have auth: "authenticate ct_eq c u p = Inr () \<longleftrightarrow> p = pw \<and> u \<in> {None, Some ''default''}" for u p
    using authenticate_iff [OF ct] pw by auto
  have err: "\<exists>msg. authenticate ct_eq c u p = Inl (Reply_error msg)" if "authenticate ct_eq c u p \<noteq> Inr ()" for u p
    using that pw by (auto simp: authenticate_def Let_def split: if_splits)
  show ?thesis
  proof (cases command)
    case (Auth u p)
    then show ?thesis using err [of u p] auth [of u p] no by (auto simp: Session_execute_def)
  next
    case (Hello v a n)
    show ?thesis
    proof (cases "v \<in> {None, Some 2}")
      case False
      then show ?thesis using Hello by (auto simp: Session_execute_def split: option.splits)
    next
      case v: True
      show ?thesis
      proof (cases a)
        case None
        then show ?thesis using Hello v un by (auto simp: Session_execute_def noauth_def)
      next
        case (Some up)
        then obtain u p where up: "a = Some (u, p)" by (cases up) auto
        then show ?thesis
          using Hello v err [of "Some u" p] auth [of "Some u" p] no by (auto simp: Session_execute_def)
      qed
    qed
  qed (use un in \<open>auto simp: Session_execute_def noauth_def\<close>)
qed

subsection \<open>The properties\<close>

text \<open>
  Claim C16. Authentication is exact: a session never panics and answers every command, and after any
  sequence of commands it is authenticated exactly if no password is configured or one of the commands
  presented the configured password for the default user (in \<open>AUTH\<close>, or in a \<open>HELLO\<close> with a supported
  protocol version). Nothing a client sends takes the authentication back.
\<close>

theorem session_authenticates_exactly:
  assumes "\<forall>a b. ct_eq a b = (a = b)"
  shows "\<exists>replies s engine'.
    Session_run ct_eq run stats c metrics (Session_new client c) cmds engine = Some (replies, s, engine') \<and>
    length replies = length cmds \<and>
    (authenticated s \<longleftrightarrow>
       (case password c of None \<Rightarrow> True | Some pw \<Rightarrow> \<exists>command \<in> set cmds. presents pw command))"
  using Session_run_auth [OF assms, of run stats c metrics "Session_new client c" cmds engine]
  by (auto simp: Session_new_def split: option.splits)

definition guarded_config :: Config where
  "guarded_config = (Config_default None)\<lparr>password := Some ''secret''\<rparr>"

definition counting_run :: "Operation \<Rightarrow> nat \<Rightarrow> Reply \<times> nat" where
  "counting_run operation n = (Integer (int n), n + 1)"

theorem session_authenticates_exactly_witness:
  "\<exists>replies s engine'.
    Session_run (=) counting_run (\<lambda>n. ([], n)) guarded_config Metrics_default (Session_new 7 guarded_config)
      [Data (Get ''k''), Auth None ''guess'', Hello (Some 2) (Some (''default'', ''secret'')) None, Data (Get ''k'')] (0::nat)
      = Some (replies, s, engine') \<and>
    length replies = 4 \<and> authenticated s"
  using session_authenticates_exactly [of "(=)" counting_run "\<lambda>n. ([], n)" guarded_config Metrics_default 7
      "[Data (Get ''k''), Auth None ''guess'', Hello (Some 2) (Some (''default'', ''secret'')) None, Data (Get ''k'')]" 0]
  by (auto simp: guarded_config_def)

text \<open>
  Claim C17. A client that has not presented the configured password learns and changes nothing: every
  one of its commands is answered with an error, the engine is not called, and its session (name and
  library data included) stays as it was created.
\<close>

theorem unauthenticated_client_is_shut_out:
  assumes "\<forall>a b. ct_eq a b = (a = b)" and "password c = Some pw" and "\<forall>command \<in> set cmds. \<not> presents pw command"
  shows "\<exists>replies. Session_run ct_eq run stats c metrics (Session_new client c) cmds engine =
      Some (replies, Session_new client c, engine) \<and>
    length replies = length cmds \<and> (\<forall>reply \<in> set replies. \<exists>msg. reply = Reply_error msg)"
  using assms(3)
proof (induction cmds)
  case (Cons command rest)
  have "\<not> authenticated (Session_new client c)" using assms(2) by (simp add: Session_new_def)
  then obtain msg where "Session_execute ct_eq run stats c metrics (Session_new client c) command engine =
      Some (Reply_error msg, False, Session_new client c, engine)"
    using Session_execute_gate [OF assms(1,2), of "Session_new client c" command run stats metrics engine] Cons.prems by auto
  then show ?case using Cons by auto
qed simp

theorem unauthenticated_client_is_shut_out_witness:
  "\<exists>replies. Session_run (=) counting_run (\<lambda>n. ([], n)) guarded_config Metrics_default (Session_new 7 guarded_config)
      [Data (Set ''k'' ''v'' Always Clear), Auth (Some ''root'') ''secret'', Hello (Some 3) (Some (''default'', ''secret'')) (Some ''x''), Quit] (0::nat)
      = Some (replies, Session_new 7 guarded_config, 0) \<and> length replies = 4"
  using unauthenticated_client_is_shut_out [of "(=)" guarded_config "''secret''"
      "[Data (Set ''k'' ''v'' Always Clear), Auth (Some ''root'') ''secret'', Hello (Some 3) (Some (''default'', ''secret'')) (Some ''x''), Quit]"
      counting_run "\<lambda>n. ([], n)" Metrics_default 7 0]
  by (auto simp: guarded_config_def)

end
