(* ===== verification/Resp_Decoding.thy ===== *)
theory Resp_Decoding
  imports Resp_Encoding
begin

section \<open>Correctness of the incremental request decoder\<close>

text \<open>
  The grammar of the requests the decoder accepts, its state invariant, and the three facts a
  connection relies on: it never panics, it accepts exactly the frames of the grammar, and how the
  network cuts the input into pieces does not matter.
\<close>

subsection \<open>The grammar of requests\<close>

text \<open>
  A header line: its type byte, a decimal length, CRLF. The length is what the digits denote in positional
  notation, as a \<open>usize\<close>; how the decoder computes it is not part of the grammar.
\<close>

fun decimal_value :: "bytes \<Rightarrow> nat" where
  "decimal_value [] = 0"
| "decimal_value (d # ds) = (of_char d - 48) * 10 ^ length ds + decimal_value ds"

definition resp_header :: "Limits \<Rightarrow> char \<Rightarrow> nat \<Rightarrow> bytes \<Rightarrow> bool" where
  "resp_header l c n h \<longleftrightarrow>
     (\<exists>ds. h = c # ds @ crlf \<and> ds \<noteq> [] \<and> set ds \<subseteq> set ''0123456789'' \<and> n = decimal_value ds \<and> n \<le> usize_max \<and>
        length h \<le> max_header_bytes l)"

inductive resp_bulks :: "Limits \<Rightarrow> bytes list \<Rightarrow> bytes \<Rightarrow> bool" for l where
  none: "resp_bulks l [] []"
| some: "resp_header l (CHR ''$'') (length a) h \<Longrightarrow> length a \<le> max_bulk_bytes l \<Longrightarrow> resp_bulks l as w \<Longrightarrow>
    resp_bulks l (a # as) (h @ a @ crlf @ w)"

definition resp_frame :: "Limits \<Rightarrow> bytes list \<Rightarrow> bytes \<Rightarrow> bool" where
  "resp_frame l as w \<longleftrightarrow> as \<noteq> [] \<and> length as \<le> max_arguments l \<and> length w \<le> max_frame_bytes l \<and>
     (\<exists>h b. w = h @ b \<and> resp_header l (CHR ''*'') (length as) h \<and> resp_bulks l as b)"

abbreviation fresh :: "Limits \<Rightarrow> Decoder" where
  "fresh l \<equiv> \<lparr>d_limits = l, cursor = 0, scan = 0, argument_count = None, bulk_length = None, spans = []\<rparr>"

subsection \<open>Decimal lengths\<close>

text \<open>The decoder's arithmetic computes the decimal value, and fails exactly if it leaves the range.\<close>

lemma digit_iff: "is_ascii_digit c \<longleftrightarrow> c \<in> set ''0123456789''"
proof
  assume "is_ascii_digit c"
  then have "of_char c \<in> {48..<58 :: nat}" by (simp add: is_ascii_digit_def byte_of_def)
  then have "of_char c \<in> set [48..<58 :: nat]" by (simp only: set_upt)
  then have "(char_of (of_char c :: nat) :: char) \<in> char_of ` set [48..<58 :: nat]" by (rule imageI)
  moreover have "map char_of [48..<58 :: nat] = ''0123456789''" by code_simp
  ultimately show "c \<in> set ''0123456789''" by (metis char_of_char set_map)
qed (auto simp: is_ascii_digit_def byte_of_def)

lemma length_digits_decimal:
  assumes "m \<le> usize_max"
  shows "length_digits m ds = Inr n \<longleftrightarrow>
    list_all is_ascii_digit ds \<and> n = m * 10 ^ length ds + decimal_value ds \<and> n \<le> usize_max"
  using assms
proof (induction ds arbitrary: m)
  case (Cons d ds)
  let ?m = "m * 10 + (byte_of d - 48)"
  have eq: "m * 10 ^ length (d # ds) + decimal_value (d # ds) = ?m * 10 ^ length ds + decimal_value ds"
    by (simp add: algebra_simps byte_of_def)
  have "?m \<le> ?m * 10 ^ length ds + decimal_value ds" by (simp add: trans_le_add1)
  then show ?case
    unfolding eq using Cons.IH [of ?m] by (auto simp: usize_checked_mul_def usize_checked_add_def)
qed auto

lemma resp_header_digits:
  "resp_header l c n h \<longleftrightarrow>
    (\<exists>ds. h = c # ds @ crlf \<and> ds \<noteq> [] \<and> length_digits 0 ds = Inr n \<and> length h \<le> max_header_bytes l)"
proof -
  have "set ds \<subseteq> set ''0123456789'' \<longleftrightarrow> list_all is_ascii_digit ds" for ds
    unfolding list_all_iff digit_iff by blast
  then show ?thesis unfolding resp_header_def length_digits_decimal [of 0, OF zero_le] by (simp add: conj_ac)
qed

subsection \<open>Searching for the end of a header\<close>

lemma length_digits_digit:
  "length_digits m ds = Inr n \<Longrightarrow> c \<in> set ds \<Longrightarrow> is_ascii_digit c"
  by (induction m ds rule: length_digits.induct) (auto split: if_splits option.splits)

text \<open>The search either goes on at the next byte or answers where it stands.\<close>

definition header_continues :: "Decoder \<Rightarrow> bytes \<Rightarrow> bool" where
  "header_continues d input \<longleftrightarrow> scan d + 1 < length input \<and> cursor d \<le> scan d \<and>
     scan d - cursor d + 2 \<le> max_header_bytes (d_limits d) \<and> scan d + 2 \<le> max_frame_bytes (d_limits d) \<and>
     \<not> (input ! scan d = CHR 0x0D \<and> input ! (scan d + 1) = CHR 0x0A) \<and> input ! scan d \<noteq> CHR 0x0A"

definition header_stop :: "Decoder \<Rightarrow> bytes \<Rightarrow> ProtocolError + nat option" where
  "header_stop d input =
     (if scan d + 1 < length input then
        if scan d - cursor d + 2 > max_header_bytes (d_limits d) \<or> scan d + 2 > max_frame_bytes (d_limits d)
        then Inl ''protocol header exceeds configured limit''
        else if input ! scan d = CHR 0x0D \<and> input ! (scan d + 1) = CHR 0x0A then Inr (Some (scan d))
        else Inl ''invalid protocol line ending''
      else if length input - cursor d \<ge> max_header_bytes (d_limits d)
              \<or> length input \<ge> max_frame_bytes (d_limits d)
      then Inl ''unterminated or excessive protocol header''
      else Inr None)"

lemma header_end_step:
  "header_continues d input \<Longrightarrow> header_end d input = header_end (d\<lparr>scan := scan d + 1\<rparr>) input"
  by (subst header_end.simps) (auto simp: header_continues_def)

lemma header_end_stop:
  "\<not> header_continues d input \<Longrightarrow> cursor d \<le> scan d \<Longrightarrow>
    header_end d input = Some (header_stop d input, d)"
  by (subst header_end.simps) (auto simp: header_continues_def header_stop_def)

lemma header_end_induct [case_names search]:
  assumes "\<And>d. (header_continues d input \<Longrightarrow> P (d\<lparr>scan := scan d + 1\<rparr>)) \<Longrightarrow> P d"
  shows "P d"
proof (induction "length input - scan d" arbitrary: d rule: less_induct)
  case less
  show ?case
    by (rule assms, rule less) (auto simp: header_continues_def)
qed

lemma header_end_ok:
  assumes "cursor d \<le> scan d" and "cursor d \<le> length input"
  shows "\<exists>r j. header_end d input = Some (r, d\<lparr>scan := j\<rparr>) \<and> scan d \<le> j \<and> j \<le> max (scan d) (length input) \<and>
    (r = Inr None \<longrightarrow> length input < max_frame_bytes (d_limits d)) \<and>
    (\<forall>e. r = Inr (Some e) \<longrightarrow> j = e \<and> e + 2 \<le> length input \<and> e + 2 \<le> max_frame_bytes (d_limits d) \<and>
       e - cursor d + 2 \<le> max_header_bytes (d_limits d) \<and> take 2 (drop e input) = crlf)"
  using assms
proof (induction d rule: header_end_induct [where input = input])
  case (search d)
  show ?case
  proof (cases "header_continues d input")
    case True
    then obtain r j where "header_end (d\<lparr>scan := scan d + 1\<rparr>) input = Some (r, d\<lparr>scan := j\<rparr>)"
      "scan d + 1 \<le> j" "j \<le> max (scan d + 1) (length input)"
      "(r = Inr None \<longrightarrow> length input < max_frame_bytes (d_limits d)) \<and>
       (\<forall>e. r = Inr (Some e) \<longrightarrow> j = e \<and> e + 2 \<le> length input \<and> e + 2 \<le> max_frame_bytes (d_limits d) \<and>
       e - cursor d + 2 \<le> max_header_bytes (d_limits d) \<and> take 2 (drop e input) = crlf)"
      using search by auto
    then show ?thesis
      using True header_end_step [OF True] by (intro exI [of _ r] exI [of _ j]) (auto simp: header_continues_def)
  next
    case False
    have "take 2 (drop (scan d) input) = crlf"
      if "scan d + 1 < length input" "input ! scan d = CHR 0x0D" "input ! (scan d + 1) = CHR 0x0A"
      using that by (simp add: crlf_def numeral_2_eq_2 take_Suc_conv_app_nth)
    then show ?thesis
      using False header_end_stop [OF False] search(2)
      by (intro exI [of _ "header_stop d input"] exI [of _ "scan d"]) (auto simp: header_stop_def)
  qed
qed

text \<open>More input does not change an answer, and a search that ran out of input goes on from where it was.\<close>

lemma header_continues_append: "header_continues d p \<Longrightarrow> header_continues d (p @ q)"
  by (auto simp: header_continues_def nth_append)

lemma header_end_found_append:
  assumes "cursor d \<le> scan d" and "header_end d p = Some (Inr (Some e), d')"
  shows "header_end d (p @ q) = Some (Inr (Some e), d')"
  using assms
proof (induction d rule: header_end_induct [where input = p])
  case (search d)
  show ?case
  proof (cases "header_continues d p")
    case True
    then show ?thesis using search header_end_step header_continues_append [OF True, of q] by simp
  next
    case False
    then have stop: "header_stop d p = Inr (Some e)" "d' = d"
      using search(2,3) header_end_stop by auto
    then have "\<not> header_continues d (p @ q)" "header_stop d (p @ q) = Inr (Some e)"
      by (auto simp: header_stop_def header_continues_def nth_append split: if_splits)
    then show ?thesis using stop(2) search(2) header_end_stop by simp
  qed
qed

lemma header_end_wait_append:
  assumes "cursor d \<le> scan d" and "header_end d p = Some (Inr None, d')"
  shows "header_end d' (p @ q) = header_end d (p @ q)"
  using assms
proof (induction d rule: header_end_induct [where input = p])
  case (search d)
  show ?case
  proof (cases "header_continues d p")
    case True
    then show ?thesis using search header_end_step header_continues_append [OF True, of q] by simp
  next
    case False
    then show ?thesis using search(2,3) header_end_stop by auto
  qed
qed

lemma header_end_error_append:
  assumes "cursor d \<le> scan d" "scan d \<le> length p" and "header_end d p = Some (Inl e, d')"
  shows "\<exists>e' d''. header_end d (p @ q) = Some (Inl e', d'')"
  using assms
proof (induction d rule: header_end_induct [where input = p])
  case (search d)
  show ?case
  proof (cases "header_continues d p")
    case True
    then show ?thesis
      using search header_end_step header_continues_append [OF True, of q] by (simp add: header_continues_def)
  next
    case False
    then have stop: "header_stop d p = Inl e" using search(2,4) header_end_stop by auto
    show ?thesis
    proof (cases "scan d + 1 < length p")
      case True
      then have "\<not> header_continues d (p @ q)" "\<exists>e'. header_stop d (p @ q) = Inl e'"
        using stop False by (auto simp: header_stop_def header_continues_def nth_append split: if_splits)
      then show ?thesis using search(2) header_end_stop by auto
    next
      case short: False
      then have "max_header_bytes (d_limits d) \<le> length p - cursor d \<or> max_frame_bytes (d_limits d) \<le> length p"
        using stop by (auto simp: header_stop_def split: if_splits)
      then have "\<not> header_continues d (p @ q)" "\<exists>e'. header_stop d (p @ q) = Inl e'"
        using short search(2,3) by (auto simp: header_stop_def header_continues_def)
      then show ?thesis using search(2) header_end_stop by auto
    qed
  qed
qed

subsection \<open>Header lines\<close>

lemma header_end_line:
  assumes "cursor d \<le> scan d" and "scan d \<le> e" and "e + 2 \<le> length input"
    and "take 2 (drop e input) = crlf" and "\<And>i. scan d \<le> i \<Longrightarrow> i < e \<Longrightarrow> input ! i \<notin> {CHR 0x0D, CHR 0x0A}"
    and "e - cursor d + 2 \<le> max_header_bytes (d_limits d)" and "e + 2 \<le> max_frame_bytes (d_limits d)"
  shows "header_end d input = Some (Inr (Some e), d\<lparr>scan := e\<rparr>)"
  using assms
proof (induction d rule: header_end_induct [where input = input])
  case (search d)
  have crlf_at: "input ! e = CHR 0x0D" "input ! (e + 1) = CHR 0x0A"
    using search.prems(3,4) by (simp_all add: crlf_def numeral_2_eq_2 take_Suc_conv_app_nth)
  show ?case
  proof (cases "scan d = e")
    case True
    then have "\<not> header_continues d input" using crlf_at by (simp add: header_continues_def)
    then show ?thesis
      using True search.prems crlf_at header_end_stop [of d input] by (simp add: header_stop_def)
  next
    case False
    then have lt: "scan d < e" using search.prems(2) by simp
    then have "header_continues d input"
      using search.prems search.prems(5) [of "scan d"] by (auto simp: header_continues_def)
    then show ?thesis using search lt header_end_step [of d input] by simp
  qed
qed

lemma length_header_sound:
  assumes "header_end d input = Some (Inr (Some e), d')" and "cursor d \<le> scan d" and "cursor d \<le> length input"
    and "length_header d' input e c = Some (Inr n)"
  shows "resp_header (d_limits d) c n (take (e + 2 - cursor d) (drop (cursor d) input))"
proof -
  let ?i = "cursor d"
  have e: "e + 2 \<le> length input" "e - ?i + 2 \<le> max_header_bytes (d_limits d)"
    "take 2 (drop e input) = crlf" "d' = d\<lparr>scan := e\<rparr>"
    using header_end_ok [OF assms(2,3)] assms(1) by auto
  have lt: "?i + 1 < e" and c: "input ! ?i = c"
    and ds: "length_digits 0 (take (e - (?i + 1)) (drop (?i + 1) input)) = Inr n"
    using assms(4) e
    by (auto simp: length_header_def idx_def slice_def split: Option.bind_splits if_splits)
  let ?ds = "take (e - (?i + 1)) (drop (?i + 1) input)"
  have "drop ?i input = c # drop (?i + 1) input"
    using c lt e(1) by (metis Cons_nth_drop_Suc Suc_eq_plus1 add_lessD1 less_le_trans less_add_same_cancel1
        order_less_trans trans_less_add1 zero_less_numeral)
  moreover have "take (e + 2 - (?i + 1)) (drop (?i + 1) input) = ?ds @ crlf"
  proof -
    have "e + 2 - (?i + 1) = (e - (?i + 1)) + 2" using lt by simp
    moreover have "drop (e - (?i + 1)) (drop (?i + 1) input) = drop e input" using lt by simp
    ultimately show ?thesis using e(3) by (simp only: take_add)
  qed
  moreover have "e + 2 - ?i = Suc (e + 2 - (?i + 1))" using lt by simp
  ultimately have "take (e + 2 - ?i) (drop ?i input) = c # ?ds @ crlf"
    by (simp only: take_Suc_Cons)
  moreover have "?ds \<noteq> []" using lt e(1) by simp
  moreover have "length (c # ?ds @ crlf) \<le> max_header_bytes (d_limits d)"
    using lt e(1,2) by (simp add: crlf_def)
  ultimately show ?thesis using ds unfolding resp_header_digits by metis
qed

lemma resp_header_complete:
  assumes h: "resp_header (d_limits d) c n h" and c: "c \<notin> {CHR 0x0D, CHR 0x0A}"
    and input: "drop (cursor d) input = h @ rest" and sc: "scan d = cursor d"
    and fit: "cursor d + length h \<le> max_frame_bytes (d_limits d)" and le: "cursor d \<le> length input"
  defines "e \<equiv> cursor d + length h - 2"
  shows "header_end d input = Some (Inr (Some e), d\<lparr>scan := e\<rparr>)"
    and "length_header (d\<lparr>scan := e\<rparr>) input e c = Some (Inr n)"
    and "e + 2 = cursor d + length h"
proof -
  obtain ds where ds: "h = c # ds @ crlf" "ds \<noteq> []" "length_digits 0 ds = Inr n"
    "length h \<le> max_header_bytes (d_limits d)"
    using h by (auto simp: resp_header_digits)
  have inp: "input = take (cursor d) input @ c # ds @ crlf @ rest"
    using input ds(1) append_take_drop_id [of "cursor d" input] by simp
  have len: "length (take (cursor d) input) = cursor d" using le by simp
  have e: "e = cursor d + 1 + length ds" using ds(1) by (simp add: e_def crlf_def)
  show "e + 2 = cursor d + length h" using ds(1) by (simp add: e_def crlf_def)
  have "length input = length (take (cursor d) input @ c # ds @ crlf @ rest)"
    using inp by presburger
  then have leni: "length input = cursor d + 1 + length ds + 2 + length rest"
    using len by (simp add: crlf_def)
  have dig: "\<And>x. x \<in> set ds \<Longrightarrow> is_ascii_digit x" using length_digits_digit [OF ds(3)] .
  have line: "input ! (cursor d + j) = (c # ds) ! j" if "j < Suc (length ds)" for j
    using that len by (subst inp) (simp add: nth_append nth_Cons split: nat.splits)
  show "header_end d input = Some (Inr (Some e), d\<lparr>scan := e\<rparr>)"
  proof (rule header_end_line)
    show "take 2 (drop e input) = crlf"
      using len by (subst inp) (simp add: e crlf_def)
    show "input ! i \<notin> {CHR 0x0D, CHR 0x0A}" if "scan d \<le> i" "i < e" for i
    proof -
      have "input ! i = (c # ds) ! (i - cursor d)" using line [of "i - cursor d"] that sc e by simp
      moreover have "(c # ds) ! (i - cursor d) \<in> set (c # ds)"
        using that sc e by (intro nth_mem) simp
      ultimately show ?thesis using c dig digit_not_newline by auto
    qed
  qed (use sc e leni ds fit in \<open>auto simp: crlf_def\<close>)
  have "slice input (cursor d + 1) e = Some ds"
  proof -
    have "drop (cursor d + 1) input = ds @ crlf @ rest"
      using len by (subst inp) simp
    then show ?thesis using e leni by (simp add: slice_def)
  qed
  moreover have "idx input (cursor d) = Some c" using line [of 0] leni by (simp add: idx_def)
  ultimately show "length_header (d\<lparr>scan := e\<rparr>) input e c = Some (Inr n)"
    using ds(2,3) e by (cases ds) (simp_all add: length_header_def)
qed

subsection \<open>The decoder's state\<close>

inductive_cases resp_bulks_NilE: "resp_bulks l [] w"
inductive_cases resp_bulks_ConsE: "resp_bulks l (a # as) w"

lemma resp_bulks_snoc:
  assumes "resp_bulks l as w" and "resp_header l (CHR ''$'') (length a) h" and "length a \<le> max_bulk_bytes l"
  shows "resp_bulks l (as @ [a]) (w @ h @ a @ crlf)"
  using assms
proof (induction rule: resp_bulks.induct)
  case none
  then show ?case using resp_bulks.some [OF _ _ resp_bulks.none] by fastforce
next
  case (some a' h' as w)
  then show ?case using resp_bulks.some [OF some.hyps(1,2)] by fastforce
qed

text \<open>
  The part of a request before \<open>cursor\<close>: the array header, the finished arguments, and the header
  of the argument under way. \<open>spans\<close> points at the finished arguments.
\<close>

definition partial_frame :: "Decoder \<Rightarrow> bytes \<Rightarrow> nat \<Rightarrow> bool" where
  "partial_frame d input c \<longleftrightarrow>
     (\<exists>h as b g. take (cursor d) input = h @ b @ g \<and> resp_header (d_limits d) (CHR ''*'') c h \<and>
        resp_bulks (d_limits d) as b \<and> collect_spans input (spans d) = Some as \<and>
        (case bulk_length d of None \<Rightarrow> g = []
         | Some n \<Rightarrow> resp_header (d_limits d) (CHR ''$'') n g \<and> n \<le> max_bulk_bytes (d_limits d) \<and> scan d = cursor d))"

definition dec_inv :: "Decoder \<Rightarrow> bytes \<Rightarrow> bool" where
  "dec_inv d input \<longleftrightarrow> cursor d \<le> scan d \<and> scan d \<le> length input \<and> cursor d \<le> max_frame_bytes (d_limits d) \<and>
     (case argument_count d of
        None \<Rightarrow> cursor d = 0 \<and> spans d = [] \<and> bulk_length d = None
      | Some c \<Rightarrow> 0 < c \<and> c \<le> max_arguments (d_limits d) \<and> length (spans d) \<le> c \<and> partial_frame d input c)"

lemma collect_spans_append:
  "collect_spans p xs = Some as \<Longrightarrow> collect_spans (p @ q) xs = Some as"
  by (induction xs arbitrary: as) (auto simp: slice_def split: Option.bind_splits if_splits)

lemma collect_spans_snoc:
  "collect_spans p xs = Some as \<Longrightarrow> slice p i j = Some a \<Longrightarrow> collect_spans p (xs @ [(i, j)]) = Some (as @ [a])"
  by (induction xs arbitrary: as) (auto split: Option.bind_splits)

lemma collect_spans_length: "collect_spans p xs = Some as \<Longrightarrow> length as = length xs"
  by (induction xs arbitrary: as) (auto split: Option.bind_splits)

lemma partial_frame_append:
  assumes "partial_frame d p c" and "cursor d \<le> length p"
  shows "partial_frame d (p @ q) c"
proof -
  have "take (cursor d) (p @ q) = take (cursor d) p" using assms(2) by simp
  then show ?thesis using assms(1) collect_spans_append unfolding partial_frame_def by metis
qed

lemma dec_inv_append: "dec_inv d p \<Longrightarrow> dec_inv d (p @ q)"
  by (cases "argument_count d") (simp_all add: dec_inv_def partial_frame_append)

lemma dec_inv_fresh: "dec_inv (fresh l) p"
  by (simp add: dec_inv_def)

lemma length_header_total:
  assumes "e + 2 \<le> length input"
  shows "\<exists>r. length_header d input e c = Some r"
  using assms by (auto simp: length_header_def idx_def slice_def)

lemma partial_frame_scan: "bulk_length d = None \<Longrightarrow> partial_frame (d\<lparr>scan := j\<rparr>) p c = partial_frame d p c"
  by (simp add: partial_frame_def)

lemma dec_inv_scan:
  assumes "dec_inv d p" and "bulk_length d = None" and "scan d \<le> j" and "j \<le> length p"
  shows "dec_inv (d\<lparr>scan := j\<rparr>) p"
  using assms by (cases "argument_count d") (simp_all add: dec_inv_def partial_frame_scan)

lemma decode_array_header_ok:
  assumes inv: "dec_inv d p"
  shows "\<exists>r d'. decode_array_header d p = Some (r, d') \<and> d_limits d' = d_limits d \<and>
    (r = Inr True \<longrightarrow> dec_inv d' p \<and> argument_count d' \<noteq> None \<and> (argument_count d = None \<longrightarrow> spans d' = [])
      \<and> (argument_count d \<noteq> None \<longrightarrow> d' = d)) \<and>
    (r = Inr False \<longrightarrow> dec_inv d' p \<and> argument_count d' = None \<and> length p < max_frame_bytes (d_limits d))"
proof (cases "argument_count d")
  case (Some c)
  then show ?thesis using inv by (simp add: decode_array_header_def)
next
  case None
  have i: "cursor d \<le> scan d" "cursor d \<le> length p" "scan d \<le> length p" and z: "cursor d = 0" "spans d = []"
    "bulk_length d = None"
    using inv None by (auto simp: dec_inv_def)
  obtain r j where h: "header_end d p = Some (r, d\<lparr>scan := j\<rparr>)" "scan d \<le> j" "j \<le> max (scan d) (length p)"
    "r = Inr None \<longrightarrow> length p < max_frame_bytes (d_limits d)"
    "\<forall>e. r = Inr (Some e) \<longrightarrow> j = e \<and> e + 2 \<le> length p \<and> e + 2 \<le> max_frame_bytes (d_limits d) \<and>
       e - cursor d + 2 \<le> max_header_bytes (d_limits d) \<and> take 2 (drop e p) = crlf"
    using header_end_ok [OF i(1,2)] by (elim exE conjE) (rule that, assumption+)
  have scan: "dec_inv (d\<lparr>scan := j\<rparr>) p"
    using dec_inv_scan [OF inv z(3) h(2)] h(3) i(3) by simp
  show ?thesis
  proof (cases "\<exists>e. r = Inr (Some e)")
    case False
    then show ?thesis using None h scan
      by (cases r) (auto simp: decode_array_header_def split: option.splits)
  next
    case True
    then obtain e where e: "r = Inr (Some e)" "j = e" "e + 2 \<le> length p" "e + 2 \<le> max_frame_bytes (d_limits d)"
      using h(5) by blast
    obtain n where n: "length_header (d\<lparr>scan := e\<rparr>) p e (CHR ''*'') = Some n"
      using length_header_total [OF e(3)] by blast
    show ?thesis
    proof (cases "\<exists>c. n = Inr c \<and> 0 < c \<and> c \<le> max_arguments (d_limits d)")
      case False
      then show ?thesis
        using None h(1) e(1,2) n by (cases n) (auto simp: decode_array_header_def)
    next
      case True
      then obtain c where c: "n = Inr c" "0 < c" "c \<le> max_arguments (d_limits d)" by blast
      let ?d = "advance_header (d\<lparr>scan := e, argument_count := Some c\<rparr>) e"
      have "resp_header (d_limits d) (CHR ''*'') c (take (e + 2) p)"
        using length_header_sound [OF h(1) [unfolded e(1,2)] i(1,2)] n c(1) z by simp
      then have "partial_frame ?d p c"
        using z resp_bulks.none [of "d_limits d"]
        unfolding partial_frame_def by (intro exI [of _ "take (e + 2) p"] exI [of _ "[]"]) (simp add: advance_header_def)
      then have "dec_inv ?d p" using c e z by (simp add: dec_inv_def advance_header_def)
      then show ?thesis
        using None h(1) e(1,2) n c z by (simp add: decode_array_header_def advance_header_def)
    qed
  qed
qed

lemma decode_bulk_header_ok:
  assumes inv: "dec_inv d p" and ac: "argument_count d = Some c"
  shows "\<exists>r d'. decode_bulk_header d p = Some (r, d') \<and> d_limits d' = d_limits d \<and>
    argument_count d' = Some c \<and> spans d' = spans d \<and>
    (r = Inr True \<longrightarrow> dec_inv d' p \<and> bulk_length d' \<noteq> None \<and> (bulk_length d \<noteq> None \<longrightarrow> d' = d)) \<and>
    (r = Inr False \<longrightarrow> dec_inv d' p \<and> bulk_length d' = None \<and> length p < max_frame_bytes (d_limits d))"
proof (cases "bulk_length d")
  case (Some n)
  then show ?thesis using inv ac by (simp add: decode_bulk_header_def)
next
  case None
  have i: "cursor d \<le> scan d" "cursor d \<le> length p" "scan d \<le> length p" and pf: "partial_frame d p c"
    and rest: "0 < c" "c \<le> max_arguments (d_limits d)" "length (spans d) \<le> c"
    using inv ac by (auto simp: dec_inv_def)
  obtain r j where h: "header_end d p = Some (r, d\<lparr>scan := j\<rparr>)" "scan d \<le> j" "j \<le> max (scan d) (length p)"
    "r = Inr None \<longrightarrow> length p < max_frame_bytes (d_limits d)"
    "\<forall>e. r = Inr (Some e) \<longrightarrow> j = e \<and> e + 2 \<le> length p \<and> e + 2 \<le> max_frame_bytes (d_limits d) \<and>
       e - cursor d + 2 \<le> max_header_bytes (d_limits d) \<and> take 2 (drop e p) = crlf"
    using header_end_ok [OF i(1,2)] by (elim exE conjE) (rule that, assumption+)
  have scan: "dec_inv (d\<lparr>scan := j\<rparr>) p"
    using dec_inv_scan [OF inv None h(2)] h(3) i(3) by simp
  show ?thesis
  proof (cases "\<exists>e. r = Inr (Some e)")
    case False
    then show ?thesis using None ac h scan
      by (cases r) (auto simp: decode_bulk_header_def split: option.splits)
  next
    case True
    then obtain e where e: "r = Inr (Some e)" "j = e" "e + 2 \<le> length p" "e + 2 \<le> max_frame_bytes (d_limits d)"
      using h(5) by blast
    obtain n where n: "length_header (d\<lparr>scan := e\<rparr>) p e (CHR ''$'') = Some n"
      using length_header_total [OF e(3)] by blast
    show ?thesis
    proof (cases "\<exists>m. n = Inr m \<and> m \<le> max_bulk_bytes (d_limits d)")
      case False
      then show ?thesis
        using None ac h(1) e(1,2) n by (cases n) (auto simp: decode_bulk_header_def)
    next
      case True
      then obtain m where m: "n = Inr m" "m \<le> max_bulk_bytes (d_limits d)" by blast
      let ?d = "(advance_header (d\<lparr>scan := e\<rparr>) e)\<lparr>bulk_length := Some m\<rparr>"
      have g: "resp_header (d_limits d) (CHR ''$'') m (take (e + 2 - cursor d) (drop (cursor d) p))"
        using length_header_sound [OF h(1) [unfolded e(1,2)] i(1,2)] n m(1) by simp
      obtain hd0 as b where pf': "take (cursor d) p = hd0 @ b" "resp_header (d_limits d) (CHR ''*'') c hd0"
        "resp_bulks (d_limits d) as b" "collect_spans p (spans d) = Some as"
        using pf None by (auto simp: partial_frame_def)
      have "cursor d \<le> e" using i(1) h(2) e(2) by simp
      then have "take (e + 2) p = hd0 @ b @ take (e + 2 - cursor d) (drop (cursor d) p)"
        using pf'(1) take_add [of "cursor d" "e + 2 - cursor d" p] by simp
      then have "partial_frame ?d p c"
        using pf' g m(2) unfolding partial_frame_def
        by (intro exI [of _ hd0] exI [of _ as] exI [of _ b] exI [of _ "take (e + 2 - cursor d) (drop (cursor d) p)"])
          (simp add: advance_header_def)
      then have "dec_inv ?d p" using e rest ac by (simp add: dec_inv_def advance_header_def)
      then show ?thesis
        using None ac h(1) e(1,2) n m by (simp add: decode_bulk_header_def advance_header_def)
    qed
  qed
qed

lemma decode_bulk_body_ok:
  assumes inv: "dec_inv d p" and ac: "argument_count d = Some c" and bl: "bulk_length d = Some n"
    and more: "length (spans d) < c"
  shows "\<exists>r d'. decode_bulk_body d p = Some (r, d') \<and> d_limits d' = d_limits d \<and> argument_count d' = Some c \<and>
    (r = Inr True \<longrightarrow> dec_inv d' p \<and> bulk_length d' = None \<and> scan d' = cursor d' \<and>
       cursor d < cursor d' \<and> cursor d' \<le> length p) \<and>
    (r = Inr False \<longrightarrow> d' = d \<and> length p < max_frame_bytes (d_limits d))"
proof -
  have i: "cursor d \<le> length p" and pf: "partial_frame d p c"
    and rest: "0 < c" "c \<le> max_arguments (d_limits d)"
    using inv ac by (auto simp: dec_inv_def)
  obtain hd0 as b g where pf': "take (cursor d) p = hd0 @ b @ g" "resp_header (d_limits d) (CHR ''*'') c hd0"
    "resp_bulks (d_limits d) as b" "collect_spans p (spans d) = Some as"
    "resp_header (d_limits d) (CHR ''$'') n g" "n \<le> max_bulk_bytes (d_limits d)" "scan d = cursor d"
    using pf bl by (auto simp: partial_frame_def)
  let ?e = "cursor d + n + 2"
  let ?d = "d\<lparr>spans := spans d @ [(cursor d, ?e - 2)], cursor := ?e, scan := ?e, bulk_length := None\<rparr>"
  show ?thesis
  proof (cases "?e \<le> usize_max \<and> ?e \<le> max_frame_bytes (d_limits d) \<and> ?e \<le> length p \<and> slice p (?e - 2) ?e = Some crlf")
    case False
    then show ?thesis
      using bl ac by (auto simp: decode_bulk_body_def usize_checked_add_def slice_def split: Option.bind_splits)
  next
    case True
    have a: "slice p (cursor d) (?e - 2) = Some (take n (drop (cursor d) p))"
      using True by (simp add: slice_def)
    have "take ?e p = take (cursor d) p @ take n (drop (cursor d) p) @ crlf"
    proof -
      have "take ?e p = take (cursor d) p @ take n (drop (cursor d) p) @ take 2 (drop (cursor d + n) p)"
        by (simp only: take_add append_assoc)
      moreover have "?e - (?e - 2) = 2" "?e - 2 = cursor d + n" by simp_all
      ultimately show ?thesis using True by (simp only: slice_def) (simp split: if_splits)
    qed
    then have tk: "take ?e p = hd0 @ (b @ g @ take n (drop (cursor d) p) @ crlf)" using pf'(1) by simp
    have bulks: "resp_bulks (d_limits d) (as @ [take n (drop (cursor d) p)]) (b @ g @ take n (drop (cursor d) p) @ crlf)"
    proof (rule resp_bulks_snoc [OF pf'(3)])
      have "length (take n (drop (cursor d) p)) = n" using True by (auto simp: min_def)
      then show "resp_header (d_limits d) (CHR ''$'') (length (take n (drop (cursor d) p))) g"
        "length (take n (drop (cursor d) p)) \<le> max_bulk_bytes (d_limits d)"
        using pf'(5,6) by simp_all
    qed
    have "partial_frame ?d p c"
      using tk bulks pf'(2) collect_spans_snoc [OF pf'(4) a] unfolding partial_frame_def
      by (intro exI [of _ hd0] exI [of _ "as @ [take n (drop (cursor d) p)]"]
          exI [of _ "b @ g @ take n (drop (cursor d) p) @ crlf"] exI [of _ "[]"]) simp
    then have "dec_inv ?d p" using True rest ac more by (simp add: dec_inv_def)
    then show ?thesis
      using True bl ac by (simp add: decode_bulk_body_def usize_checked_add_def)
  qed
qed

subsection \<open>decode never panics and accepts frames only\<close>

definition waiting :: "Decoder \<Rightarrow> bytes \<Rightarrow> bool" where
  "waiting d p \<longleftrightarrow> dec_inv d p \<and> argument_count d \<noteq> Some (length (spans d))"

lemma waiting_fresh: "waiting (fresh l) p"
  by (simp add: waiting_def dec_inv_fresh)

lemma waiting_append: "waiting d p \<Longrightarrow> waiting d (p @ q)"
  by (simp add: waiting_def dec_inv_append)

definition decode_good :: "Limits \<Rightarrow> bytes \<Rightarrow> ProtocolError + Request option \<Rightarrow> Decoder \<Rightarrow> bytes \<Rightarrow> bool" where
  "decode_good l p r d' p' \<longleftrightarrow>
     (r = Inr None \<longrightarrow> p' = p \<and> waiting d' p \<and> d_limits d' = l \<and> length p < max_frame_bytes l) \<and>
     (\<forall>req. r = Inr (Some req) \<longrightarrow> d' = fresh l \<and>
        (\<exists>w. p = w @ p' \<and> resp_frame l (arguments req) w \<and> wire_bytes req = length w))"

lemma decode_finish_ok:
  assumes inv: "dec_inv d p" and ac: "argument_count d = Some (length (spans d))" and bl: "bulk_length d = None"
    and cur: "cursor d \<le> length p"
  shows "\<exists>req p'. decode_finish d p = Some (req, fresh (d_limits d), p') \<and>
    (\<exists>w. p = w @ p' \<and> resp_frame (d_limits d) (arguments req) w \<and> wire_bytes req = length w)"
proof -
  let ?l = "d_limits d" and ?w = "take (cursor d) p"
  obtain h as b where pf: "?w = h @ b" "resp_header ?l (CHR ''*'') (length (spans d)) h"
    "resp_bulks ?l as b" "collect_spans p (spans d) = Some as"
    using inv ac bl by (auto simp: dec_inv_def partial_frame_def)
  have len: "length as = length (spans d)" using collect_spans_length [OF pf(4)] .
  have lim: "0 < length (spans d)" "length (spans d) \<le> max_arguments ?l" "cursor d \<le> max_frame_bytes ?l"
    using inv ac by (auto simp: dec_inv_def)
  then have "as \<noteq> []" "length ?w \<le> max_frame_bytes ?l" using len cur by auto
  then have "resp_frame ?l as ?w"
    using pf lim(2) len unfolding resp_frame_def by metis
  moreover have "decode_finish d p = Some (\<lparr>arguments = as, wire_bytes = cursor d\<rparr>, fresh ?l, drop (cursor d) p)"
    using pf(4) cur bl by (simp add: decode_finish_def)
  ultimately show ?thesis
    using cur by (intro exI [of _ "\<lparr>arguments = as, wire_bytes = cursor d\<rparr>"] exI [of _ "drop (cursor d) p"])
      (auto intro!: exI [of _ ?w])
qed

lemma decode_ok:
  assumes "waiting d p"
  shows "\<exists>r d' p'. decode d p = Some (r, d', p') \<and> decode_good (d_limits d) p r d' p'"
  using assms
proof (induction "length p - cursor d" arbitrary: d rule: less_induct)
  case less
  have inv: "dec_inv d p" and wt: "argument_count d \<noteq> Some (length (spans d))"
    using less.prems by (simp_all add: waiting_def)
  obtain r1 d1 where s1: "decode_array_header d p = Some (r1, d1)" "d_limits d1 = d_limits d"
    "r1 = Inr True \<longrightarrow> dec_inv d1 p \<and> argument_count d1 \<noteq> None \<and> (argument_count d = None \<longrightarrow> spans d1 = []) \<and>
      (argument_count d \<noteq> None \<longrightarrow> d1 = d)"
    "r1 = Inr False \<longrightarrow> dec_inv d1 p \<and> argument_count d1 = None \<and> length p < max_frame_bytes (d_limits d)"
    using decode_array_header_ok [OF inv] by (elim exE conjE) (rule that, assumption+)
  show ?case
  proof (cases "r1 = Inr True")
    case False
    then show ?thesis
      using s1 by (cases r1) (auto simp: decode.simps [of d] decode_good_def waiting_def)
  next
    case t1: True
    then obtain c where c: "dec_inv d1 p" "argument_count d1 = Some c" using s1(3) by blast
    have "0 < c" "length (spans d1) \<le> c" using c by (auto simp: dec_inv_def)
    then have more: "length (spans d1) < c" using s1(3) t1 c(2) wt by (cases "argument_count d") auto
    obtain r2 d2 where s2: "decode_bulk_header d1 p = Some (r2, d2)" "d_limits d2 = d_limits d1"
      "argument_count d2 = Some c" "spans d2 = spans d1"
      "r2 = Inr True \<longrightarrow> dec_inv d2 p \<and> bulk_length d2 \<noteq> None \<and> (bulk_length d1 \<noteq> None \<longrightarrow> d2 = d1)"
      "r2 = Inr False \<longrightarrow> dec_inv d2 p \<and> bulk_length d2 = None \<and> length p < max_frame_bytes (d_limits d1)"
      using decode_bulk_header_ok [OF c] by (elim exE conjE) (rule that, assumption+)
    show ?thesis
    proof (cases "r2 = Inr True")
      case False
      then show ?thesis
        using s1(1,2) s2 t1 more by (cases r2) (auto simp: decode.simps [of d] decode_good_def waiting_def)
    next
      case t2: True
      then obtain n where n: "dec_inv d2 p" "bulk_length d2 = Some n" using s2(5) by blast
      obtain r3 d3 where s3: "decode_bulk_body d2 p = Some (r3, d3)" "d_limits d3 = d_limits d2"
        "argument_count d3 = Some c"
        "r3 = Inr True \<longrightarrow> dec_inv d3 p \<and> bulk_length d3 = None \<and> scan d3 = cursor d3 \<and>
          cursor d2 < cursor d3 \<and> cursor d3 \<le> length p"
        "r3 = Inr False \<longrightarrow> d3 = d2 \<and> length p < max_frame_bytes (d_limits d2)"
        using decode_bulk_body_ok [OF n(1) s2(3) n(2) more [folded s2(4)]] by (elim exE conjE) (rule that, assumption+)
      have cur: "cursor d \<le> cursor d2"
        using decode_array_header_cursor [of d p d1] decode_bulk_header_cursor [of d1 p d2] s1(1) s2(1) t1 t2
        by fastforce
      have step: "decode d p = (if Some (length (spans d3)) = argument_count d3 then do {
          (req, d4, rest) \<leftarrow> decode_finish d3 p; Some (Inr (Some req), d4, rest) } else decode d3 p)" if "r3 = Inr True"
        using s1(1) s2(1) s3(1) t1 t2 that by (simp add: decode.simps [of d])
      consider (stop) "r3 \<noteq> Inr True" | (fin) "r3 = Inr True" "length (spans d3) = c"
        | (loop) "r3 = Inr True" "length (spans d3) \<noteq> c" by blast
      then show ?thesis
      proof cases
        case stop
        then show ?thesis
          using s1(1,2) s2 s3 t1 t2 n more by (cases r3) (auto simp: decode.simps [of d] decode_good_def waiting_def)
      next
        case fin
        then show ?thesis
          using decode_finish_ok [of d3 p] step s3 s1(2) s2(2) by (auto simp: decode_good_def)
      next
        case loop
        then have "length p - cursor d3 < length p - cursor d" using s3(4) cur by auto
        moreover have "waiting d3 p" using s3(3,4) loop by (simp add: waiting_def)
        ultimately show ?thesis using less.hyps [of d3] step loop s3(2,3) s1(2) s2(2) by simp
      qed
    qed
  qed
qed

subsection \<open>decode accepts every frame\<close>

lemma decode_after_array_header:
  assumes "decode_array_header d p = Some (Inr True, d1)" and "decode_array_header d1 p = Some (Inr True, d1)"
  shows "decode d p = decode d1 p"
  using assms by (simp add: decode.simps [of d] decode.simps [of d1])

lemma decode_bulk_complete:
  assumes d: "argument_count d = Some c" "bulk_length d = None" "scan d = cursor d" "cursor d \<le> length p"
    and h: "resp_header (d_limits d) (CHR ''$'') (length a) h" "length a \<le> max_bulk_bytes (d_limits d)"
    and p: "drop (cursor d) p = h @ a @ crlf @ rest"
    and fit: "cursor d + length h + length a + 2 \<le> max_frame_bytes (d_limits d)" "max_frame_bytes (d_limits d) \<le> usize_max"
  defines "i \<equiv> cursor d + length h"
  defines "d3 \<equiv> d\<lparr>cursor := i + length a + 2, scan := i + length a + 2, spans := spans d @ [(i, i + length a)]\<rparr>"
  shows "decode d p = (if Some (length (spans d3)) = argument_count d3 then do {
          (req, d4, rest) \<leftarrow> decode_finish d3 p; Some (Inr (Some req), d4, rest) } else decode d3 p)"
    and "slice p i (i + length a) = Some a" and "drop (cursor d3) p = rest" and "cursor d3 \<le> length p"
proof -
  have fith: "cursor d + length h \<le> max_frame_bytes (d_limits d)" using fit(1) by simp
  note hc = resp_header_complete [OF h(1) _ p d(3) fith d(4)]
  let ?e = "cursor d + length h - 2" and ?d2 = "d\<lparr>cursor := i, scan := i, bulk_length := Some (length a)\<rparr>"
  have e2: "?e + 2 = i" using hc(3) by (simp add: i_def)
  have "decode_bulk_header d p = Some (Inr True, ?d2)"
    using hc(1,2) d(2) h(2) e2 by (simp add: decode_bulk_header_def advance_header_def)
  have "length (drop (cursor d) p) = length h + length a + 2 + length rest" using p by (simp add: crlf_def)
  then have len: "length p = i + length a + 2 + length rest" using d(4) by (simp add: i_def)
  have di: "drop i p = a @ crlf @ rest"
    using p by (simp add: i_def add.commute flip: drop_drop)
  show sl: "slice p i (i + length a) = Some a" using di len by (simp add: slice_def)
  have "slice p (i + length a) (i + length a + 2) = Some crlf"
  proof -
    have "drop (i + length a) p = drop (length a) (drop i p)" by (simp add: add.commute)
    then show ?thesis using di len by (simp add: slice_def crlf_def)
  qed
  then have body: "decode_bulk_body ?d2 p = Some (Inr True, d3)"
    using fit len d(2) by (simp add: decode_bulk_body_def usize_checked_add_def d3_def i_def)
  show "decode d p = (if Some (length (spans d3)) = argument_count d3 then do {
          (req, d4, rest) \<leftarrow> decode_finish d3 p; Some (Inr (Some req), d4, rest) } else decode d3 p)"
    using body \<open>decode_bulk_header d p = Some (Inr True, ?d2)\<close> d(1)
    by (simp add: decode.simps [of d] decode_array_header_def)
  have "drop (i + length a + 2) p = drop (length a + 2) (drop i p)" by (simp add: add.commute add.left_commute)
  then show "drop (cursor d3) p = rest" using di by (simp add: d3_def crlf_def)
  show "cursor d3 \<le> length p" using len by (simp add: d3_def)
qed

lemma decode_bulks_complete:
  assumes "resp_bulks l as b" and "as \<noteq> []" and "d_limits d = l"
    and "argument_count d = Some (length (spans d) + length as)"
    and "bulk_length d = None" and "scan d = cursor d" and "cursor d \<le> length p"
    and "drop (cursor d) p = b @ rest" and "cursor d + length b \<le> max_frame_bytes l"
    and "max_frame_bytes l \<le> usize_max" and "collect_spans p (spans d) = Some as0"
  shows "decode d p = Some (Inr (Some \<lparr>arguments = as0 @ as, wire_bytes = cursor d + length b\<rparr>), fresh l, rest)"
  using assms
proof (induction arbitrary: d as0 rule: resp_bulks.induct)
  case (some a h as w)
  let ?i = "cursor d + length h"
  let ?d3 = "d\<lparr>cursor := ?i + length a + 2, scan := ?i + length a + 2, spans := spans d @ [(?i, ?i + length a)]\<rparr>"
  have p: "drop (cursor d) p = h @ a @ crlf @ (w @ rest)" using some.prems(7) by simp
  have hh: "resp_header (d_limits d) (CHR ''$'') (length a) h" "length a \<le> max_bulk_bytes (d_limits d)"
    using some.hyps some.prems(2) by simp_all
  have fit: "cursor d + length h + length a + 2 \<le> max_frame_bytes (d_limits d)"
    "max_frame_bytes (d_limits d) \<le> usize_max"
    using some.prems(2,8,9) by (simp_all add: crlf_def)
  note step = decode_bulk_complete [OF some.prems(3-6) hh p fit]
  have sp: "collect_spans p (spans ?d3) = Some (as0 @ [a])"
    using collect_spans_snoc [OF some.prems(10) step(2)] by simp
  show ?case
  proof (cases "as = []")
    case True
    then have "w = []" using some.hyps(3) by (auto elim: resp_bulks_NilE)
    then show ?thesis
      using step True some.prems sp by (simp add: decode_finish_def crlf_def)
  next
    case False
    have "decode ?d3 p = Some (Inr (Some \<lparr>arguments = (as0 @ [a]) @ as, wire_bytes = cursor ?d3 + length w\<rparr>), fresh l, rest)"
      by (rule some.IH) (use False some.prems step(3,4) sp in \<open>simp_all add: crlf_def\<close>)
    then show ?thesis using step(1) False some.prems(3) by (simp add: crlf_def)
  qed
qed simp

lemma decode_frame_complete:
  assumes "resp_frame l as w" and "max_frame_bytes l \<le> usize_max"
  shows "decode (fresh l) (w @ rest) = Some (Inr (Some \<lparr>arguments = as, wire_bytes = length w\<rparr>), fresh l, rest)"
proof -
  obtain h b where f: "as \<noteq> []" "length as \<le> max_arguments l" "length w \<le> max_frame_bytes l" "w = h @ b"
    "resp_header l (CHR ''*'') (length as) h" "resp_bulks l as b"
    using assms(1) by (auto simp: resp_frame_def)
  let ?d1 = "(fresh l)\<lparr>argument_count := Some (length as), cursor := length h, scan := length h\<rparr>"
  have hc: "header_end (fresh l) (w @ rest) = Some (Inr (Some (length h - 2)), (fresh l)\<lparr>scan := length h - 2\<rparr>)"
    "length_header ((fresh l)\<lparr>scan := length h - 2\<rparr>) (w @ rest) (length h - 2) (CHR ''*'') = Some (Inr (length as))"
    "length h - 2 + 2 = length h"
    using resp_header_complete [of "fresh l" "CHR ''*''" "length as" h "w @ rest" "b @ rest"] f by simp_all
  have "decode_array_header (fresh l) (w @ rest) = Some (Inr True, ?d1)"
    using hc f(1,2) by (simp add: decode_array_header_def advance_header_def)
  moreover have "decode_array_header ?d1 (w @ rest) = Some (Inr True, ?d1)"
    by (simp add: decode_array_header_def)
  ultimately have "decode (fresh l) (w @ rest) = decode ?d1 (w @ rest)"
    by (rule decode_after_array_header)
  also have "\<dots> = Some (Inr (Some \<lparr>arguments = [] @ as, wire_bytes = cursor ?d1 + length b\<rparr>), fresh l, rest)"
    by (rule decode_bulks_complete [OF f(6,1)]) (use f assms(2) in simp_all)
  finally show ?thesis using f(4) by simp
qed

subsection \<open>The input may arrive in pieces\<close>

text \<open>
  How an answer on the input \<open>p\<close> relates to the answer on \<open>p @ q\<close>: a stage that succeeded does the
  same, a stage that waited is resumed, a stage that failed fails.
\<close>

definition stage_extends :: "(Decoder \<Rightarrow> bytes \<Rightarrow> ((ProtocolError + bool) \<times> Decoder) option) \<Rightarrow>
    Decoder \<Rightarrow> bytes \<Rightarrow> bytes \<Rightarrow> bool" where
  "stage_extends f d p q \<longleftrightarrow> (\<forall>r d'. f d p = Some (r, d') \<longrightarrow>
     (case r of
        Inl e \<Rightarrow> \<exists>e' d''. f d (p @ q) = Some (Inl e', d'')
      | Inr True \<Rightarrow> f d (p @ q) = Some (Inr True, d')
      | Inr False \<Rightarrow> f d' (p @ q) = f d (p @ q)))"

lemma length_header_append:
  assumes "e + 2 \<le> length p"
  shows "length_header d (p @ q) e c = length_header d p e c"
  using assms by (auto simp: length_header_def idx_def slice_def nth_append)

lemma header_stage_extends:
  assumes inv: "dec_inv d p"
    and cont: "\<And>d' e q'. e + 2 \<le> length p \<Longrightarrow> k d' (p @ q') e = k d' p e"
    and fail: "\<And>d' e r d''. k d' p e = Some (r, d'') \<Longrightarrow> r \<noteq> Inr False"
    and f: "\<And>d' p'. \<not> fin d' \<Longrightarrow> f d' p' = do { (r, d'') \<leftarrow> header_end d' p';
        case r of Inl e \<Rightarrow> Some (Inl e, d'') | Inr None \<Rightarrow> Some (Inr False, d'') | Inr (Some e) \<Rightarrow> k d'' p' e }"
    and fin0: "\<And>d' p'. fin d' \<Longrightarrow> f d' p' = Some (Inr True, d')"
    and scan: "\<And>d' j. fin (d'\<lparr>scan := j\<rparr>) = fin d'"
  shows "stage_extends f d p q"
proof (cases "fin d")
  case True
  then show ?thesis using fin0 by (simp add: stage_extends_def)
next
  case False
  have i: "cursor d \<le> scan d" "cursor d \<le> length p" "scan d \<le> length p" using inv by (simp_all add: dec_inv_def)
  obtain r j where h: "header_end d p = Some (r, d\<lparr>scan := j\<rparr>)"
    "\<forall>e. r = Inr (Some e) \<longrightarrow> j = e \<and> e + 2 \<le> length p \<and> e + 2 \<le> max_frame_bytes (d_limits d) \<and>
       e - cursor d + 2 \<le> max_header_bytes (d_limits d) \<and> take 2 (drop e p) = crlf"
    using header_end_ok [OF i(1,2)] by (elim exE conjE) (rule that, assumption+)
  consider (bad) e where "r = Inl e" | (wait) "r = Inr None" | (found) e where "r = Inr (Some e)"
    by (metis (full_types) not_None_eq sum.exhaust)
  then show ?thesis
  proof cases
    case bad
    then obtain e' d'' where "header_end d (p @ q) = Some (Inl e', d'')"
      using header_end_error_append [OF i(1,3)] h(1) by blast
    then show ?thesis using bad h(1) f [OF False] by (simp add: stage_extends_def)
  next
    case wait
    then have "header_end (d\<lparr>scan := j\<rparr>) (p @ q) = header_end d (p @ q)"
      using header_end_wait_append [OF i(1)] h(1) by simp
    then show ?thesis
      using wait h(1) f [OF False] f [of "d\<lparr>scan := j\<rparr>" "p @ q"] False scan by (simp add: stage_extends_def)
  next
    case (found e)
    then have e: "e + 2 \<le> length p" "j = e" using h(2) by blast+
    have "header_end d (p @ q) = Some (Inr (Some e), d\<lparr>scan := e\<rparr>)"
      using header_end_found_append [OF i(1)] h(1) found e(2) by simp
    then have "f d (p @ q) = f d p" using f [OF False] h(1) found e cont by simp
    moreover have "f d p = k (d\<lparr>scan := e\<rparr>) p e" using f [OF False] h(1) found e by simp
    ultimately show ?thesis
      using fail by (auto simp: stage_extends_def split: sum.splits bool.splits)
  qed
qed

lemma decode_array_header_extends:
  assumes "dec_inv d p"
  shows "stage_extends decode_array_header d p q"
proof (rule header_stage_extends [OF assms, where fin = "\<lambda>d. argument_count d \<noteq> None"
      and k = "\<lambda>d input end_pos. do {
            c \<leftarrow> length_header d input end_pos (CHR ''*'');
            case c of
              Inl e \<Rightarrow> Some (Inl e, d)
            | Inr count \<Rightarrow>
                if count = 0 \<or> count > max_arguments (d_limits d)
                then Some (Inl ''invalid or excessive argument count'', d)
                else Some (Inr True, advance_header (d\<lparr>argument_count := Some count\<rparr>) end_pos)
          }"])
qed (auto simp: decode_array_header_def length_header_append split: Option.bind_splits sum.splits if_splits)

lemma decode_bulk_header_extends:
  assumes "dec_inv d p"
  shows "stage_extends decode_bulk_header d p q"
proof (rule header_stage_extends [OF assms, where fin = "\<lambda>d. bulk_length d \<noteq> None"
      and k = "\<lambda>d input end_pos. do {
            c \<leftarrow> length_header d input end_pos (CHR ''$'');
            case c of
              Inl e \<Rightarrow> Some (Inl e, d)
            | Inr len \<Rightarrow>
                if len > max_bulk_bytes (d_limits d)
                then Some (Inl ''bulk argument exceeds configured limit'', d)
                else Some (Inr True, (advance_header d end_pos)\<lparr>bulk_length := Some len\<rparr>)
          }"])
qed (auto simp: decode_bulk_header_def length_header_append split: Option.bind_splits sum.splits if_splits)

lemma slice_append: "slice p i j = Some a \<Longrightarrow> slice (p @ q) i j = Some a"
  by (auto simp: slice_def split: if_splits)

lemma decode_bulk_body_extends: "stage_extends decode_bulk_body d p q"
  by (auto simp: stage_extends_def decode_bulk_body_def slice_append
      split: Option.bind_splits option.splits sum.splits bool.splits if_splits)

definition decode_extends :: "Decoder \<Rightarrow> bytes \<Rightarrow> bytes \<Rightarrow> bool" where
  "decode_extends d p q \<longleftrightarrow> (\<forall>r d' p'. decode d p = Some (r, d', p') \<longrightarrow>
     (case r of
        Inl e \<Rightarrow> \<exists>e' d''. decode d (p @ q) = Some (Inl e', d'', p @ q)
      | Inr None \<Rightarrow> decode d' (p @ q) = decode d (p @ q)
      | Inr (Some req) \<Rightarrow> decode d (p @ q) = Some (r, d', p' @ q)))"

lemma decode_finish_append:
  assumes "decode_finish d p = Some (req, d', p')"
  shows "decode_finish d (p @ q) = Some (req, d', p' @ q)"
  using assms collect_spans_append [of p _ _ q]
  by (auto simp: decode_finish_def split: Option.bind_splits if_splits)

text \<open>The loop body of \<open>decode\<close>, one stage after the other.\<close>

lemma decode_stages:
  assumes "decode_array_header d p = Some (Inr True, d1)" and "decode_bulk_header d1 p = Some (Inr True, d2)"
    and "decode_bulk_body d2 p = Some (Inr True, d3)"
  shows "decode d p = (if Some (length (spans d3)) = argument_count d3 then do {
      (req, d4, rest) \<leftarrow> decode_finish d3 p; Some (Inr (Some req), d4, rest) } else decode d3 p)"
  using assms by (simp add: decode.simps [of d])

lemma decode_extends:
  assumes "waiting d p"
  shows "decode_extends d p q"
  using assms
proof (induction "length p - cursor d" arbitrary: d rule: less_induct)
  case less
  have inv: "dec_inv d p" and wt: "argument_count d \<noteq> Some (length (spans d))"
    using less.prems by (simp_all add: waiting_def)
  note x1 = decode_array_header_extends [OF inv, of q, unfolded stage_extends_def, rule_format]
  obtain r1 d1 where s1: "decode_array_header d p = Some (r1, d1)" "d_limits d1 = d_limits d"
    "r1 = Inr True \<longrightarrow> dec_inv d1 p \<and> argument_count d1 \<noteq> None \<and> (argument_count d = None \<longrightarrow> spans d1 = []) \<and>
      (argument_count d \<noteq> None \<longrightarrow> d1 = d)"
    using decode_array_header_ok [OF inv] by (elim exE conjE) (rule that, assumption+)
  show ?case
  proof (cases "r1 = Inr True")
    case False
    then show ?thesis
      using x1 [OF s1(1)] s1(1) by (cases r1) (auto simp: decode_extends_def decode.simps [of d] decode.simps [of d1])
  next
    case t1: True
    then obtain c where c: "dec_inv d1 p" "argument_count d1 = Some c" using s1(3) by blast
    have "0 < c" "length (spans d1) \<le> c" using c by (auto simp: dec_inv_def)
    then have more: "length (spans d1) < c" using s1(3) t1 c(2) wt by (cases "argument_count d") auto
    have a1: "decode_array_header d (p @ q) = Some (Inr True, d1)" using x1 [OF s1(1)] t1 by simp
    note x2 = decode_bulk_header_extends [OF c(1), of q, unfolded stage_extends_def, rule_format]
    obtain r2 d2 where s2: "decode_bulk_header d1 p = Some (r2, d2)"
      "argument_count d2 = Some c" "spans d2 = spans d1"
      "r2 = Inr True \<longrightarrow> dec_inv d2 p \<and> bulk_length d2 \<noteq> None \<and> (bulk_length d1 \<noteq> None \<longrightarrow> d2 = d1)"
      using decode_bulk_header_ok [OF c] by (elim exE conjE) (rule that, assumption+)
    have skip1: "decode_array_header d2 (p @ q) = Some (Inr True, d2)"
      using s2(2) by (simp add: decode_array_header_def)
    show ?thesis
    proof (cases "r2 = Inr True")
      case False
      then show ?thesis
        using x2 [OF s2(1)] s1(1) s2(1) t1 a1 skip1
        by (cases r2) (auto simp: decode_extends_def decode.simps [of d] decode.simps [of d2])
    next
      case t2: True
      then obtain n where n: "dec_inv d2 p" "bulk_length d2 = Some n" using s2(4) by blast
      have a2: "decode_bulk_header d1 (p @ q) = Some (Inr True, d2)" using x2 [OF s2(1)] t2 by simp
      have skip2: "decode_bulk_header d2 (p @ q) = Some (Inr True, d2)"
        using n(2) by (simp add: decode_bulk_header_def)
      note x3 = decode_bulk_body_extends [of d2 p q, unfolded stage_extends_def, rule_format]
      obtain r3 d3 where s3: "decode_bulk_body d2 p = Some (r3, d3)" "argument_count d3 = Some c"
        "r3 = Inr True \<longrightarrow> dec_inv d3 p \<and> bulk_length d3 = None \<and> scan d3 = cursor d3 \<and>
          cursor d2 < cursor d3 \<and> cursor d3 \<le> length p"
        "r3 = Inr False \<longrightarrow> d3 = d2 \<and> length p < max_frame_bytes (d_limits d2)"
        using decode_bulk_body_ok [OF n(1) s2(2) n(2) more [folded s2(3)]] by (elim exE conjE) (rule that, assumption+)
      show ?thesis
      proof (cases "r3 = Inr True")
        case False
        then show ?thesis
          using x3 [OF s3(1)] s1(1) s2(1) s3(1,4) t1 t2 a1 a2 skip1 skip2
          by (cases r3) (auto simp: decode_extends_def decode.simps [of d] decode.simps [of d2])
      next
        case t3: True
        have a3: "decode_bulk_body d2 (p @ q) = Some (Inr True, d3)" using x3 [OF s3(1)] t3 by simp
        note here = decode_stages [OF s1(1) [unfolded t1] s2(1) [unfolded t2] s3(1) [unfolded t3]]
        note there = decode_stages [OF a1 a2 a3]
        show ?thesis
        proof (cases "length (spans d3) = c")
          case True
          then show ?thesis
            using here there s3(2) decode_finish_append [of d3 p _ _ _ q]
            by (auto simp: decode_extends_def split: Option.bind_splits)
        next
          case False
          have "cursor d \<le> cursor d2"
            using decode_array_header_cursor [of d p d1] decode_bulk_header_cursor [of d1 p d2] s1(1) s2(1) t1 t2
            by fastforce
          then have "length p - cursor d3 < length p - cursor d" using s3(3) t3 by auto
          moreover have "waiting d3 p" using s3(2,3) t3 False by (simp add: waiting_def)
          ultimately have "decode_extends d3 p q" using less.hyps by blast
          moreover have eq: "decode d p = decode d3 p" "decode d (p @ q) = decode d3 (p @ q)"
            using here there False s3(2) by simp_all
          ultimately show ?thesis unfolding decode_extends_def eq by iprover
        qed
      qed
    qed
  qed
qed

subsection \<open>The properties a connection relies on\<close>

text \<open>
  The decoders of a connection with their unconsumed input: a new decoder, then any input appended
  and any calls of \<open>decode\<close> that did not fail.
\<close>

inductive decoder_reach :: "Limits \<Rightarrow> Decoder \<Rightarrow> bytes \<Rightarrow> bool" for l where
  new: "Decoder_new l = Inr d \<Longrightarrow> decoder_reach l d []"
| read: "decoder_reach l d p \<Longrightarrow> decoder_reach l d (p @ q)"
| call: "decoder_reach l d p \<Longrightarrow> decode d p = Some (Inr r, d', p') \<Longrightarrow> decoder_reach l d' p'"

lemma Decoder_new_fresh: "Decoder_new l = Inr d \<Longrightarrow> d = fresh l"
  by (auto simp: Decoder_new_def split: sum.splits)

lemma decoder_reach_waiting: "decoder_reach l d p \<Longrightarrow> waiting d p \<and> d_limits d = l"
proof (induction rule: decoder_reach.induct)
  case (new d)
  then show ?case using Decoder_new_fresh waiting_fresh by fastforce
next
  case (read d p q)
  then show ?case by (simp add: waiting_append)
next
  case (call d p r d' p')
  then have "decode_good l p (Inr r) d' p'" using decode_ok by fastforce
  then show ?case
    by (cases r) (auto simp: decode_good_def waiting_fresh)
qed

lemma new_default: "Decoder_new Limits_default = Inr (fresh Limits_default)"
  by (simp add: Decoder_new_def Limits_validate_def Limits_default_def)

text \<open>
  Claim C34. No panic and bounded buffering: on any input, however it arrived, \<open>decode\<close> returns. If
  it asks for more input it has consumed nothing and the buffer is still shorter than a frame may
  be, so a connection never buffers more than \<open>max_frame_bytes\<close>.
\<close>

theorem decode_total_and_bounded:
  assumes "decoder_reach l d p"
  shows "\<exists>r d' p'. decode d p = Some (r, d', p') \<and>
    (r = Inr None \<longrightarrow> p' = p \<and> length p < max_frame_bytes l) \<and>
    (\<forall>req. r = Inr (Some req) \<longrightarrow> length (arguments req) \<le> max_arguments l \<and>
       0 < wire_bytes req \<and> wire_bytes req \<le> max_frame_bytes l \<and> p' = drop (wire_bytes req) p)"
proof -
  obtain r d' p' where "decode d p = Some (r, d', p')" "decode_good l p r d' p'"
    using decode_ok decoder_reach_waiting [OF assms] by blast
  then show ?thesis
    by (intro exI [of _ r] exI [of _ d'] exI [of _ p'])
      (auto simp: decode_good_def resp_frame_def resp_header_digits)
qed

theorem decode_total_and_bounded_witness:
  "\<exists>r d' p'. decode (fresh Limits_default) ''*1'' = Some (r, d', p') \<and>
    (r = Inr None \<longrightarrow> p' = ''*1'' \<and> length ''*1'' < max_frame_bytes Limits_default) \<and>
    (\<forall>req. r = Inr (Some req) \<longrightarrow> length (arguments req) \<le> max_arguments Limits_default \<and>
       0 < wire_bytes req \<and> wire_bytes req \<le> max_frame_bytes Limits_default \<and> p' = drop (wire_bytes req) ''*1'')"
proof (rule decode_total_and_bounded)
  show "decoder_reach Limits_default (fresh Limits_default) ''*1''"
    using decoder_reach.read [OF decoder_reach.new [OF new_default], of "''*1''"] by simp
qed

text \<open>
  Claim C21. Exactly the RESP2 requests within the limits are accepted: a new decoder returns a
  request and the rest of the input if and only if the input starts with a frame of the grammar
  whose arguments are the request's, and what is consumed is that frame.
\<close>

theorem decode_accepts_exactly_frames:
  assumes "Decoder_new l = Inr d" and "max_frame_bytes l \<le> usize_max"
  shows "decode d p = Some (Inr (Some req), d', rest) \<longleftrightarrow>
    d' = d \<and> (\<exists>w. p = w @ rest \<and> resp_frame l (arguments req) w \<and> wire_bytes req = length w)"
proof -
  have d: "d = fresh l" using Decoder_new_fresh [OF assms(1)] .
  show ?thesis
  proof
    assume "decode d p = Some (Inr (Some req), d', rest)"
    then have "decode_good l p (Inr (Some req)) d' rest"
      using decode_ok [OF waiting_fresh, of l p] d by simp
    then show "d' = d \<and> (\<exists>w. p = w @ rest \<and> resp_frame l (arguments req) w \<and> wire_bytes req = length w)"
      using d by (simp add: decode_good_def)
  next
    assume "d' = d \<and> (\<exists>w. p = w @ rest \<and> resp_frame l (arguments req) w \<and> wire_bytes req = length w)"
    then show "decode d p = Some (Inr (Some req), d', rest)"
      using decode_frame_complete [OF _ assms(2)] d by fastforce
  qed
qed

text \<open>A request on the wire, in two pieces.\<close>

definition ping_part :: bytes where
  "ping_part = ''*1'' @ crlf @ ''$4'' @ [CHR 0x0D]"

definition ping_rest :: bytes where
  "ping_rest = [CHR 0x0A] @ ''PING'' @ crlf"

abbreviation ping_request :: Request where
  "ping_request \<equiv> \<lparr>arguments = [''PING''], wire_bytes = 14\<rparr>"

theorem decode_accepts_exactly_frames_witness:
  "\<exists>w. ping_part @ ping_rest @ ''*'' = w @ ''*'' \<and>
    resp_frame Limits_default (arguments ping_request) w \<and> wire_bytes ping_request = length w"
proof -
  have "decode (fresh Limits_default) (ping_part @ ping_rest @ ''*'') =
      Some (Inr (Some ping_request), fresh Limits_default, ''*'')"
    by code_simp
  moreover have "max_frame_bytes Limits_default \<le> usize_max" by code_simp
  ultimately show ?thesis
    using decode_accepts_exactly_frames [OF new_default, of "ping_part @ ping_rest @ ''*''" ping_request] by blast
qed

text \<open>
  Claim C20. The input may be cut anywhere: when more input \<open>q\<close> follows \<open>p\<close>, a decoder that waited
  after \<open>p\<close> goes on exactly as one that saw \<open>p @ q\<close> at once; a request found in \<open>p\<close> is found in
  \<open>p @ q\<close> with the rest of the input extended; input refused on \<open>p\<close> is refused on \<open>p @ q\<close>.
\<close>

theorem decode_resumes:
  assumes "decoder_reach l d p" and "decode d p = Some (r, d', p')"
  shows "case r of
      Inl e \<Rightarrow> \<exists>e' d''. decode d (p @ q) = Some (Inl e', d'', p @ q)
    | Inr None \<Rightarrow> decode d' (p @ q) = decode d (p @ q)
    | Inr (Some req) \<Rightarrow> decode d (p @ q) = Some (r, d', p' @ q)"
  using decode_extends [of d p q] decoder_reach_waiting [OF assms(1)] assms(2)
  by (simp add: decode_extends_def)

theorem decode_resumes_witness:
  "\<exists>d'. decode (fresh Limits_default) ping_part = Some (Inr None, d', ping_part) \<and>
    d' \<noteq> fresh Limits_default \<and>
    decode d' (ping_part @ ping_rest) = decode (fresh Limits_default) (ping_part @ ping_rest)"
proof -
  let ?d = "\<lparr>d_limits = Limits_default, cursor = 4, scan = 6, argument_count = Some 1, bulk_length = None, spans = []\<rparr>"
  have "decode (fresh Limits_default) ping_part = Some (Inr None, ?d, ping_part)"
    by code_simp
  then show ?thesis
    using decode_resumes [of Limits_default "fresh Limits_default" ping_part "Inr None" ?d ping_part ping_rest]
      decoder_reach.read [OF decoder_reach.new [OF new_default], of ping_part]
    by auto
qed

subsection \<open>Requests round trip\<close>

text \<open>The canonical encoding of a request, as clients send it.\<close>

definition request_wire :: "bytes list \<Rightarrow> bytes" where
  "request_wire args = ''*'' @ nat_to_string (length args) @ crlf @
     concat (map (\<lambda>a. ''$'' @ nat_to_string (length a) @ crlf @ a @ crlf) args)"

lemma length_digits_append:
  "length_digits m (xs @ ys) = (case length_digits m xs of Inl e \<Rightarrow> Inl e | Inr n \<Rightarrow> length_digits n ys)"
  by (induction m xs rule: length_digits.induct) (auto split: option.splits)

lemma length_digits_nat_to_string: "n \<le> usize_max \<Longrightarrow> length_digits 0 (nat_to_string n) = Inr n"
proof (induction n rule: nat_to_string.induct)
  case (1 n)
  show ?case
  proof (cases "n < 10")
    case True
    then show ?thesis
      using 1(2) by (subst nat_to_string.simps)
        (simp add: digit_char_digit byte_of_digit usize_checked_mul_def usize_checked_add_def)
  next
    case False
    have "n div 10 * 10 \<le> n" by simp
    then have "n div 10 \<le> usize_max" "n div 10 * 10 \<le> usize_max" using 1(2) by linarith+
    then show ?thesis
      using 1 False by (subst nat_to_string.simps)
        (simp add: length_digits_append digit_char_digit byte_of_digit usize_checked_mul_def usize_checked_add_def)
  qed
qed

lemma resp_header_canonical:
  assumes "n \<le> usize_max" and "length (nat_to_string n) + 3 \<le> max_header_bytes l"
  shows "resp_header l c n (c # nat_to_string n @ crlf)"
  using assms length_digits_nat_to_string by (simp add: resp_header_digits crlf_def)

lemma resp_bulks_canonical:
  assumes "\<And>a. a \<in> set as \<Longrightarrow> length a \<le> max_bulk_bytes l \<and> length a \<le> usize_max \<and>
      length (nat_to_string (length a)) + 3 \<le> max_header_bytes l"
  shows "resp_bulks l as (concat (map (\<lambda>a. ''$'' @ nat_to_string (length a) @ crlf @ a @ crlf) as))"
  using assms
proof (induction as)
  case (Cons a as)
  then show ?case
    using resp_bulks.some [OF resp_header_canonical [of "length a" l "CHR ''$''"], of "as"] by simp
qed (simp add: resp_bulks.none)

lemma resp_frameI:
  assumes "resp_header l (CHR ''*'') (length as) h" and "resp_bulks l as b" and "as \<noteq> []"
    and "length as \<le> max_arguments l" and "length w \<le> max_frame_bytes l" and "w = h @ b"
  shows "resp_frame l as w"
  using assms unfolding resp_frame_def by blast

lemma length_request_wire: "length as \<le> length (request_wire as)"
proof -
  have "length as \<le> length (concat (map (\<lambda>a. ''$'' @ nat_to_string (length a) @ crlf @ a @ crlf) as))"
    by (induction as) auto
  then show ?thesis by (simp add: request_wire_def)
qed

lemma request_wire_frame:
  assumes "Limits_validate l = Inr ()" and "max_frame_bytes l \<le> usize_max" and "23 \<le> max_header_bytes l"
    and "args \<noteq> []" and "length args \<le> max_arguments l" and "\<forall>a \<in> set args. length a \<le> max_bulk_bytes l"
    and "length (request_wire args) \<le> max_frame_bytes l"
  shows "resp_frame l args (request_wire args)"
proof -
  have small: "length (nat_to_string n) + 3 \<le> max_header_bytes l" if "n \<le> usize_max" for n
    using that length_nat_to_string_le [of 20 n] assms(3) by (simp add: usize_max_def)
  have bulk: "max_bulk_bytes l \<le> usize_max"
    using assms(1,2) by (auto simp: Limits_validate_def split: if_splits)
  have "length args \<le> usize_max" using assms(2,7) length_request_wire [of args] by simp
  then have header: "resp_header l (CHR ''*'') (length args) (''*'' @ nat_to_string (length args) @ crlf)"
    using resp_header_canonical small by simp
  have bulks: "resp_bulks l args (concat (map (\<lambda>a. ''$'' @ nat_to_string (length a) @ crlf @ a @ crlf) args))"
    by (rule resp_bulks_canonical) (use assms(6) bulk small in \<open>auto intro: order_trans\<close>)
  show ?thesis
    by (rule resp_frameI [OF header bulks assms(4,5,7)]) (simp add: request_wire_def)
qed

text \<open>
  Claim C38. Round trip: a request within the limits, encoded the way clients do and followed by
  anything, is decoded to the same arguments, and exactly its bytes are consumed. A header of 23
  bytes is enough for every 64-bit length.
\<close>

theorem request_roundtrip:
  assumes "Decoder_new l = Inr d" and "max_frame_bytes l \<le> usize_max" and "23 \<le> max_header_bytes l"
    and "args \<noteq> []" and "length args \<le> max_arguments l" and "\<forall>a \<in> set args. length a \<le> max_bulk_bytes l"
    and "length (request_wire args) \<le> max_frame_bytes l"
  shows "decode d (request_wire args @ rest) =
    Some (Inr (Some \<lparr>arguments = args, wire_bytes = length (request_wire args)\<rparr>), d, rest)"
proof -
  have "Limits_validate l = Inr ()" using assms(1) by (auto simp: Decoder_new_def split: sum.splits)
  then have "resp_frame l args (request_wire args)" using request_wire_frame assms(2-7) by blast
  then show ?thesis
    using decode_frame_complete assms(2) Decoder_new_fresh [OF assms(1)] by simp
qed

theorem request_roundtrip_witness:
  "decode (fresh Limits_default) (request_wire [''GET'', ''key''] @ ''*1'') =
    Some (Inr (Some \<lparr>arguments = [''GET'', ''key''], wire_bytes = length (request_wire [''GET'', ''key''])\<rparr>),
      fresh Limits_default, ''*1'')"
proof (rule request_roundtrip [OF new_default])
  show "length (request_wire [''GET'', ''key'']) \<le> max_frame_bytes Limits_default" by code_simp
  show "max_frame_bytes Limits_default \<le> usize_max" by code_simp
qed (simp_all add: Limits_default_def)

end
