(* ===== verification/Command_Props.thy ===== *)
theory Command_Props
  imports Command_Parser
begin

section \<open>Correctness of the command parser\<close>

text \<open>
  The parser never indexes out of range, its integers are exactly the canonical decimal 64-bit
  numbers, what it accepts respects the configured limits, and the key positions and the write flag
  that \<open>COMMAND\<close> reports to clients are those of the parsed operations.
\<close>

subsection \<open>Integers\<close>

lemma length_i64_to_string_le: "in_i64 n \<Longrightarrow> length (i64_to_string n) \<le> 20"
proof -
  assume "in_i64 n"
  then have "nat n < 10 ^ 19" "nat (- n) < 10 ^ 19" by (simp_all add: machine_defs, linarith+)
  then have "length (nat_to_string (nat n)) \<le> 19" "length (nat_to_string (nat (- n))) \<le> 19"
    by (auto intro: length_nat_to_string_le)
  then show ?thesis by (simp add: i64_to_string_def)
qed

lemma parse_i64_range: "parse_i64 s = Some n \<Longrightarrow> in_i64 n"
  by (auto simp: parse_i64_def Let_def split: if_splits option.splits)

lemma i64_to_string_nonempty [simp]: "i64_to_string n \<noteq> []"
  by (simp add: i64_to_string_def)

lemma integer_Inr_iff: "integer v = Inr n \<longleftrightarrow> in_i64 n \<and> v = i64_to_string n"
proof
  assume "integer v = Inr n"
  then show "in_i64 n \<and> v = i64_to_string n"
    by (auto simp: integer_def split: if_splits option.splits dest: parse_i64_range)
next
  assume "in_i64 n \<and> v = i64_to_string n"
  then show "integer v = Inr n"
    using length_i64_to_string_le [of n] by (auto simp: integer_def parse_i64_to_string)
qed

text \<open>
  Integers are canonical: an argument or a stored counter is read as \<open>n\<close> exactly when it
  is the decimal text of the 64-bit number \<open>n\<close> (so no sign \<open>+\<close>, no leading zero, no space, no
  overflow), and everything else gives the one documented error.
\<close>

theorem integer_canonical:
  "(integer v = Inr n \<longleftrightarrow> in_i64 n \<and> v = i64_to_string n) \<and>
   (integer v = Inl e \<longleftrightarrow> e = ''ERR value is not an integer or out of range'' \<and>
     (\<nexists>n. in_i64 n \<and> v = i64_to_string n))"
proof -
  have err: "integer v = Inl e \<Longrightarrow> e = ''ERR value is not an integer or out of range''" for e
    by (auto simp: integer_def split: if_splits option.splits)
  show ?thesis
    using integer_Inr_iff [of v] err by (cases "integer v") auto
qed

subsection \<open>No panic\<close>

lemma find_spec_member: "find_spec name = Some sp \<Longrightarrow> sp \<in> set SPECS \<and> eq_ignore_ascii_case name (spec_name sp)"
  by (auto simp: find_spec_def find_Some_iff)

lemma idx_Some: "i < length a \<Longrightarrow> idx a i = Some (a ! i)"
  by (simp add: idx_def)

lemma parse_set_loop_total: "\<exists>r. parse_set_loop a i c x = Some r"
proof (induction a i c x rule: parse_set_loop.induct)
  case (1 a i c x)
  show ?case
  proof (cases "i < length a")
    case False
    then show ?thesis by (simp add: parse_set_loop.simps [of a i])
  next
    case True
    show ?thesis
      using 1 [OF True idx_Some [OF True]] True
      by (subst parse_set_loop.simps) (auto simp: idx_def split: sum.splits option.splits)
  qed
qed

lemma parse_hello_loop_total: "\<exists>r. parse_hello_loop a l i au nm = Some r"
proof (induction a l i au nm rule: parse_hello_loop.induct)
  case (1 a l i au nm)
  show ?case
  proof (cases "i < length a")
    case False
    then show ?thesis by (simp add: parse_hello_loop.simps [of a l i])
  next
    case True
    show ?thesis
      using 1 [OF True idx_Some [OF True]] True
      by (subst parse_hello_loop.simps) (auto simp: idx_def split: sum.splits option.splits)
  qed
qed

lemma parse_client_total: "2 \<le> length a \<Longrightarrow> \<exists>r. parse_client a l = Some r"
  by (auto simp: parse_client_def idx_def split: sum.splits)

lemma wrong_arity_exact:
  assumes "int (length a) \<le> i64_max"
  shows "wrong_arity sp (length a) \<longleftrightarrow>
    (spec_arity sp > 0 \<and> int (length a) \<noteq> spec_arity sp) \<or> (spec_arity sp < 0 \<and> int (length a) < - spec_arity sp)"
  using assms by (simp add: wrong_arity_def as_i64_def i64_max_def Let_def)

text \<open>The arms of the parser, one per command name.\<close>

lemma parse_named_simps:
  "parse_named ''ping'' a l = (if length a \<le> 2 then Some (Inr (Ping (idx a 1))) else Some (Inl syntax_error))"
  "parse_named ''echo'' a l = do { v \<leftarrow> idx a 1; Some (Inr (Echo v)) }"
  "parse_named ''quit'' a l = Some (Inr Quit)"
  "parse_named ''get'' a l = do { key \<leftarrow> idx a 1; data_result (Get key) }"
  "parse_named ''set'' a l = do { r \<leftarrow> parse_set a; Some (map_sum id Data r) }"
  "parse_named ''incr'' a l = parse_increment ''incr'' a"
  "parse_named ''decr'' a l = parse_increment ''decr'' a"
  "parse_named ''incrby'' a l = parse_increment ''incrby'' a"
  "parse_named ''decrby'' a l = parse_increment ''decrby'' a"
  "parse_named ''del'' a l = data_result (Delete (drop 1 a))"
  "parse_named ''exists'' a l = data_result (Exists (drop 1 a))"
  "parse_named ''mget'' a l = data_result (MultiGet (drop 1 a))"
  "parse_named ''mset'' a l =
     (if length a mod 2 = 1 then data_result (MultiSet (chunks2 (drop 1 a))) else Some (Inl syntax_error))"
  "parse_named ''expire'' a l = parse_expire ''expire'' a"
  "parse_named ''pexpire'' a l = parse_expire ''pexpire'' a"
  "parse_named ''ttl'' a l = do { key \<leftarrow> idx a 1; data_result (Ttl key False) }"
  "parse_named ''pttl'' a l = do { key \<leftarrow> idx a 1; data_result (Ttl key True) }"
  "parse_named ''persist'' a l = do { key \<leftarrow> idx a 1; data_result (Persist key) }"
  "parse_named ''auth'' a l =
     (if length a = 2 then do { p \<leftarrow> idx a 1; Some (Inr (Auth None p)) }
      else if length a = 3 then do { u \<leftarrow> idx a 1; p \<leftarrow> idx a 2; Some (Inr (Auth (Some u) p)) }
      else Some (Inl syntax_error))"
  "parse_named ''select'' a l = do { v \<leftarrow> idx a 1; Some (map_sum id Select (integer v)) }"
  "parse_named ''hello'' a l = parse_hello a l"
  "parse_named ''client'' a l = do { r \<leftarrow> parse_client a l; Some (map_sum id Client r) }"
  "parse_named ''command'' a l = parse_command a"
  "parse_named ''info'' a l = (if length a \<le> 2 then Some (Inr (Info (idx a 1))) else Some (Inl syntax_error))"
  by (simp_all add: parse_named_def)

text \<open>The arity of a command's specification is enough for every argument the parser indexes.\<close>

definition arity_ok :: "CommandSpec \<Rightarrow> nat \<Rightarrow> bool" where
  "arity_ok sp n \<longleftrightarrow> (if spec_arity sp > 0 then int n = spec_arity sp else - spec_arity sp \<le> int n)"

lemma arity_ok_exact:
  assumes "sp \<in> set SPECS" and "int (length a) \<le> i64_max"
  shows "wrong_arity sp (length a) \<longleftrightarrow> \<not> arity_ok sp (length a)"
proof -
  have "list_all (\<lambda>sp. spec_arity sp \<noteq> 0) SPECS" by (simp add: SPECS_def spec_def)
  then have "spec_arity sp \<noteq> 0" using assms(1) by (simp add: list_all_iff)
  then have "0 < spec_arity sp \<or> spec_arity sp < 0" by linarith
  then show ?thesis
    unfolding wrong_arity_exact [OF assms(2)] arity_ok_def by (elim disjE) (simp_all add: not_less not_le)
qed

lemma parse_set_total: "3 \<le> length a \<Longrightarrow> \<exists>r. parse_set a = Some r"
  using parse_set_loop_total [of a 3 Always Clear]
  by (auto simp: parse_set_def idx_def split: sum.splits)

lemma parse_hello_total: "\<exists>r. parse_hello a l = Some r"
  using parse_hello_loop_total [of a l 2 None None]
  by (auto simp: parse_hello_def split: sum.splits)

lemma parse_increment_total: "2 \<le> length a \<Longrightarrow> \<exists>r. parse_increment name a = Some r"
  by (auto simp: parse_increment_def idx_def split: sum.splits)

lemma parse_expire_total: "length a = 3 \<Longrightarrow> \<exists>r. parse_expire name a = Some r"
  by (auto simp: parse_expire_def idx_def split: sum.splits option.splits)

lemma parse_command_total: "1 \<le> length a \<Longrightarrow> \<exists>r. parse_command a = Some r"
  by (auto simp: parse_command_def idx_def)

lemmas parse_parts_total = parse_set_total parse_hello_total parse_increment_total parse_expire_total
  parse_command_total parse_client_total

lemma bind_total: "\<exists>r. x = Some r \<Longrightarrow> \<exists>r. do { y \<leftarrow> x; Some (f y) } = Some r"
  by auto

lemma parse_named_total:
  assumes "sp \<in> set SPECS" and "arity_ok sp (length a)"
  shows "\<exists>r. parse_named (spec_name sp) a l = Some r"
  using assms unfolding SPECS_def list.set insert_iff empty_iff
  by (elim disjE FalseE)
    (simp_all add: spec_def arity_ok_def parse_named_simps idx_def parse_parts_total bind_total split: if_splits)

lemma parse_total:
  assumes "int (length a) \<le> i64_max"
  shows "\<exists>r. parse a l = Some r"
proof (cases a)
  case Nil
  then show ?thesis by (simp add: parse_def)
next
  case (Cons name args)
  show ?thesis
  proof (cases "find_spec name")
    case None
    then show ?thesis using Cons by (simp add: parse_def)
  next
    case (Some sp)
    then have sp: "sp \<in> set SPECS" using find_spec_member by blast
    show ?thesis
    proof (cases "arity_ok sp (length a)")
      case True
      then obtain r where "parse_named (spec_name sp) a l = Some r" using parse_named_total [OF sp] by blast
      then show ?thesis using Cons Some by (cases r) (simp_all add: parse_def)
    next
      case False
      then show ?thesis using Cons Some arity_ok_exact [OF sp assms] by (simp add: parse_def)
    qed
  qed
qed

text \<open>
  No request makes the parser panic: every argument list (of a length a vector can have)
  is parsed to a command or answered with an error.
\<close>

theorem parse_never_panics:
  assumes "int (length a) \<le> i64_max"
  shows "parse a limits \<noteq> None"
  using parse_total [OF assms, of limits] by auto

theorem parse_never_panics_witness: "parse [''CLIENT'', ''setinfo''] ParseLimits_default \<noteq> None"
  by (rule parse_never_panics) (simp add: i64_max_def)

subsection \<open>What an accepted command looks like\<close>

text \<open>The key positions a command's specification names, and the operations that change the keyspace.\<close>

definition spec_positions :: "CommandSpec \<Rightarrow> nat \<Rightarrow> nat set" where
  "spec_positions sp n =
     {i. spec_first_key sp > 0 \<and> spec_first_key sp \<le> int i \<and>
         int i \<le> (if spec_last_key sp < 0 then int n + spec_last_key sp else spec_last_key sp) \<and>
         (int i - spec_first_key sp) mod spec_key_step sp = 0}"

fun writes :: "Operation \<Rightarrow> bool" where
  "writes (Get _) = False"
| "writes (Exists _) = False"
| "writes (MultiGet _) = False"
| "writes (Ttl _ _) = False"
| "writes _ = True"

definition expiry_wf :: "Expiry \<Rightarrow> bool" where
  "expiry_wf x = (case x of AfterMilliseconds d \<Rightarrow> 0 < d \<and> in_i64 d | _ \<Rightarrow> True)"

fun op_wf :: "Operation \<Rightarrow> bool" where
  "op_wf (Set _ _ _ x) = expiry_wf x"
| "op_wf (Increment _ n _) = in_i64 n"
| "op_wf (Expire _ ms) = in_i64 ms"
| "op_wf op = (Operation_keys op \<noteq> [])"

lemma nths_from_one:
  "nths (x # xs) {i. 1 \<le> int i \<and> int i \<le> int (Suc (length xs)) - 1 \<and> (int i - 1) mod 1 = 0} = xs"
proof -
  have "{j. Suc j \<in> {i. 1 \<le> int i \<and> int i \<le> int (Suc (length xs)) - 1 \<and> (int i - 1) mod 1 = 0}} = {..<length xs}"
    by auto
  then show ?thesis by (simp add: nths_Cons)
qed

lemma nths_one:
  assumes "2 \<le> length a"
  shows "nths a {i. 1 \<le> int i \<and> int i \<le> 1 \<and> (int i - 1) mod 1 = 0} = [a ! 1]"
proof -
  obtain x y zs where a: "a = x # y # zs" using assms by (cases a; cases "tl a") auto
  have "{i. 1 \<le> int i \<and> int i \<le> 1 \<and> (int i - 1) mod 1 = 0} = {Suc 0}" by auto
  then show ?thesis by (simp add: a nths_Cons)
qed

lemma chunks2_keys:
  "even (length xs) \<Longrightarrow> map fst (chunks2 xs) = nths xs {j. even j}"
proof (induction xs rule: chunks2.induct)
  case (1 k v rest)
  then show ?case by (simp add: nths_Cons)
qed auto

lemma nths_odd:
  "nths (x # xs) {i. 1 \<le> int i \<and> int i \<le> int (Suc (length xs)) - 1 \<and> (int i - 1) mod 2 = 0} = nths xs {j. even j}"
proof -
  have "nths xs {j. Suc j \<in> {i. 1 \<le> int i \<and> int i \<le> int (Suc (length xs)) - 1 \<and> (int i - 1) mod 2 = 0}} =
      nths xs {j. even j}"
    unfolding nths_def
    by (intro arg_cong [where f = "map fst"] filter_cong refl) (auto simp: set_zip even_of_nat)
  then show ?thesis by (simp add: nths_Cons)
qed

lemma integer_range: "integer v = Inr n \<Longrightarrow> in_i64 n"
  by (simp add: integer_Inr_iff)

lemma parse_set_loop_wf:
  "parse_set_loop a i c x = Some (Inr (c', x')) \<Longrightarrow> expiry_wf x \<Longrightarrow> expiry_wf x'"
proof (induction a i c x rule: parse_set_loop.induct)
  case (1 a i c x)
  show ?case
  proof (cases "i < length a")
    case False
    then show ?thesis using 1(4,5) by (simp add: parse_set_loop.simps [of a i])
  next
    case True
    note ix = idx_Some [OF True]
    show ?thesis
      using 1(1) [OF True ix] 1(2) [OF True ix] 1(3) [OF True ix] 1(4,5) True
      by (subst (asm) (4) parse_set_loop.simps)
        (auto simp: ix expiry_wf_def i64_checked_mul_def dest: integer_range
          split: if_splits sum.splits option.splits Option.bind_splits)
  qed
qed

text \<open>What every accepted command satisfies with respect to its specification.\<close>

definition parsed_ok :: "CommandSpec \<Rightarrow> bytes list \<Rightarrow> Command \<Rightarrow> bool" where
  "parsed_ok sp a c = (case c of
      Data op \<Rightarrow> Operation_keys op = nths a (spec_positions sp (length a)) \<and> spec_write sp = writes op \<and>
        op_wf op \<and> Operation_keys op \<noteq> []
    | _ \<Rightarrow> spec_first_key sp = 0)"

lemma parse_set_ok:
  assumes "parse_set a = Some (Inr op)"
  shows "\<exists>x c. op = Set (a ! 1) (a ! 2) c x \<and> expiry_wf x"
  using assms parse_set_loop_wf [of a 3 Always Clear]
  by (auto simp: parse_set_def idx_def expiry_wf_def split: Option.bind_splits sum.splits if_splits)

lemma parse_increment_ok:
  assumes "parse_increment name a = Some (Inr c)"
  shows "\<exists>n b. c = Data (Increment (a ! 1) n b) \<and> in_i64 n"
  using assms by (auto simp: parse_increment_def idx_def in_i64_def i64_min_def i64_max_def
      split: Option.bind_splits sum.splits if_splits dest: integer_range [unfolded in_i64_def i64_min_def i64_max_def])

lemma parse_expire_ok:
  assumes "parse_expire name a = Some (Inr c)"
  shows "\<exists>ms. c = Data (Expire (a ! 1) ms) \<and> in_i64 ms"
  using assms by (auto simp: parse_expire_def idx_def i64_checked_mul_def
      split: Option.bind_splits sum.splits option.splits if_splits dest: integer_range)

lemma parse_hello_ok: "parse_hello a l = Some (Inr c) \<Longrightarrow> \<exists>p au nm. c = Hello p au nm"
  by (auto simp: parse_hello_def split: Option.bind_splits sum.splits)

lemma parse_command_ok: "parse_command a = Some (Inr c) \<Longrightarrow> \<exists>m. c = Metadata m"
  by (auto simp: parse_command_def split: Option.bind_splits if_splits)

text \<open>The three shapes of key positions.\<close>

lemma spec_positions_one:
  "2 \<le> length a \<Longrightarrow> nths a (spec_positions (spec n ar w 1 1 1) m) = [a ! 1]"
  using nths_one [of a] by (simp add: spec_positions_def spec_def)

lemma spec_positions_all:
  "1 \<le> length a \<Longrightarrow> nths a (spec_positions (spec n ar w 1 (-1) 1) (length a)) = drop 1 a"
  using nths_from_one by (cases a) (simp_all add: spec_positions_def spec_def)

lemma spec_positions_pairs:
  assumes "odd (length a)"
  shows "nths a (spec_positions (spec n ar w 1 (-1) 2) (length a)) = map fst (chunks2 (drop 1 a))"
proof -
  obtain x xs where a: "a = x # xs" using assms by (cases a) auto
  then show ?thesis
    using assms nths_odd [of x xs] chunks2_keys [of xs] by (simp add: spec_positions_def spec_def)
qed

lemma chunks2_nonempty: "2 \<le> length xs \<Longrightarrow> chunks2 xs \<noteq> []"
  by (cases xs rule: chunks2.cases) auto

lemma spec_sel [simp]:
  "spec_name (spec n ar w f l st) = n" "spec_arity (spec n ar w f l st) = ar"
  "spec_write (spec n ar w f l st) = w" "spec_first_key (spec n ar w f l st) = f"
  by (simp_all add: spec_def)

lemma map_sum_InrD: "map_sum id f x = Inr c \<Longrightarrow> \<exists>y. x = Inr y \<and> c = f y"
  by (cases x) auto

lemma parse_named_ok:
  assumes "sp \<in> set SPECS" and "arity_ok sp (length a)" and "parse_named (spec_name sp) a l = Some (Inr c)"
  shows "parsed_ok sp a c"
  using assms unfolding SPECS_def list.set insert_iff empty_iff
  by (elim disjE FalseE)
    (auto simp: arity_ok_def parse_named_simps idx_Some parsed_ok_def spec_positions_one
      spec_positions_all spec_positions_pairs odd_iff_mod_2_eq_one chunks2_nonempty
      split: if_splits sum.splits Option.bind_splits
      dest!: map_sum_InrD parse_set_ok parse_increment_ok parse_expire_ok parse_hello_ok parse_command_ok)

lemma parse_InrD:
  assumes "parse a l = Some (Inr c)" and "int (length a) \<le> i64_max"
  obtains sp where "find_spec (hd a) = Some sp" "sp \<in> set SPECS" "arity_ok sp (length a)"
    "parsed_ok sp a c" "check_limits c l = Inr c" "a \<noteq> []"
proof -
  obtain name args where a: "a = name # args" using assms(1) by (cases a) (auto simp: parse_def)
  obtain sp where sp: "find_spec name = Some sp" using assms(1) a by (auto simp: parse_def split: option.splits)
  then have mem: "sp \<in> set SPECS" using find_spec_member by blast
  obtain c0 where c0: "\<not> wrong_arity sp (length a)" "parse_named (spec_name sp) a l = Some (Inr c0)" "check_limits c0 l = Inr c"
    using assms(1) a sp by (auto simp: parse_def split: if_splits Option.bind_splits sum.splits)
  have "c0 = c" using c0(3) by (auto simp: check_limits_def split: Command.splits if_splits)
  then show ?thesis
    using that [of sp] a sp mem c0 arity_ok_exact [OF mem assms(2)] parse_named_ok [OF mem] by simp
qed

text \<open>
  Claim C40. What the parser accepts is well formed and within the limits: a data command names at
  least one key; every key and every value to be stored is within its byte limit; a relative expiry
  of \<open>SET\<close> is positive, and all numbers are 64-bit.
\<close>

theorem parse_respects_limits:
  assumes "parse a limits = Some (Inr (Data op))" and "int (length a) \<le> i64_max"
  shows "Operation_keys op \<noteq> [] \<and> (\<forall>k \<in> set (Operation_keys op). length k \<le> max_key_bytes limits) \<and>
    (case op of
       Set k v c x \<Rightarrow> length v \<le> max_value_bytes limits \<and>
         (\<forall>d. x = AfterMilliseconds d \<longrightarrow> 0 < d \<and> d \<le> i64_max)
     | MultiSet kvs \<Rightarrow> \<forall>kv \<in> set kvs. length (snd kv) \<le> max_value_bytes limits
     | Increment k n subtract \<Rightarrow> in_i64 n
     | Expire k ms \<Rightarrow> in_i64 ms
     | _ \<Rightarrow> True)"
proof -
  obtain sp where "parsed_ok sp a (Data op)" and lim: "check_limits (Data op) limits = Inr (Data op)"
    using parse_InrD [OF assms] .
  then have wf: "op_wf op" "Operation_keys op \<noteq> []" by (auto simp: parsed_ok_def)
  have keys: "\<forall>k \<in> set (Operation_keys op). length k \<le> max_key_bytes limits"
    and vals: "\<not> value_too_large op limits"
    using lim by (auto simp: check_limits_def list_ex_iff not_less split: if_splits)
  show ?thesis
    using wf keys vals
    by (cases op) (auto simp: value_too_large_def list_ex_iff expiry_wf_def in_i64_def not_less split: Expiry.splits)
qed

theorem parse_respects_limits_witness:
  "Operation_keys (Set ''k'' ''v'' IfAbsent (AfterMilliseconds 5000)) \<noteq> [] \<and>
    length ''k'' \<le> max_key_bytes ParseLimits_default \<and> length ''v'' \<le> max_value_bytes ParseLimits_default \<and>
    0 < (5000::int) \<and> 5000 \<le> i64_max"
proof -
  have "parse [''SET'', ''k'', ''v'', ''Nx'', ''EX'', ''5''] ParseLimits_default =
      Some (Inr (Data (Set ''k'' ''v'' IfAbsent (AfterMilliseconds 5000))))"
    by code_simp
  from parse_respects_limits [OF this] show ?thesis by (simp add: i64_max_def)
qed

text \<open>
  The command metadata tells the truth: for every accepted request, the key positions that
  \<open>COMMAND\<close> reports (first key, last key, step; negative positions count from the end) select
  exactly the keys of the parsed operation, the write flag says whether the operation changes the
  keyspace, and a command without key positions touches no data.
\<close>

theorem metadata_describes_commands:
  assumes "parse a limits = Some (Inr c)" and "int (length a) \<le> i64_max"
  shows "\<exists>sp. find_spec (hd a) = Some sp \<and>
    (case c of
       Data op \<Rightarrow> Operation_keys op = nths a (spec_positions sp (length a)) \<and> spec_write sp = writes op
     | _ \<Rightarrow> spec_first_key sp = 0)"
proof -
  obtain sp where "find_spec (hd a) = Some sp" "parsed_ok sp a c"
    using parse_InrD [OF assms] .
  then show ?thesis
    by (intro exI [of _ sp]) (cases c; simp add: parsed_ok_def)
qed

theorem metadata_describes_commands_witness:
  "\<exists>sp. find_spec ''mset'' = Some sp \<and>
    Operation_keys (MultiSet [(''a'', ''1''), (''b'', ''2'')]) =
      nths [''mset'', ''a'', ''1'', ''b'', ''2''] (spec_positions sp (length [''mset'', ''a'', ''1'', ''b'', ''2''])) \<and>
    spec_write sp = writes (MultiSet [(''a'', ''1''), (''b'', ''2'')])"
proof -
  have "parse [''mset'', ''a'', ''1'', ''b'', ''2''] ParseLimits_default =
      Some (Inr (Data (MultiSet [(''a'', ''1''), (''b'', ''2'')])))"
    by code_simp
  from metadata_describes_commands [OF this] show ?thesis by (simp add: i64_max_def)
qed

subsection \<open>Names in any case\<close>

text \<open>After the name has been looked up, only the arguments behind it are read.\<close>

lemma idx_Cons: "idx (n # args) (Suc i) = idx args i"
  by (simp add: idx_def)

lemma parse_set_loop_head:
  "parse_set_loop (n # args) (Suc i) c x = parse_set_loop (n' # args) (Suc i) c x"
proof (induction "length args - i" arbitrary: i c x rule: less_induct)
  case less
  show ?case
  proof (cases "i < length args")
    case True
    have step: "parse_set_loop (n # args) (Suc (Suc i)) c x = parse_set_loop (n' # args) (Suc (Suc i)) c x"
      "parse_set_loop (n # args) (Suc (Suc (Suc i))) c x = parse_set_loop (n' # args) (Suc (Suc (Suc i))) c x" for c x
      using less [of "Suc i"] less [of "Suc (Suc i)"] True by simp_all
    show ?thesis by (subst (1 2) parse_set_loop.simps) (simp add: idx_Cons step cong: if_cong sum.case_cong option.case_cong)
  qed (simp add: parse_set_loop.simps [of _ "Suc i"])
qed

lemma parse_hello_loop_head:
  "parse_hello_loop (n # args) l (Suc i) au nm = parse_hello_loop (n' # args) l (Suc i) au nm"
proof (induction "length args - i" arbitrary: i au nm rule: less_induct)
  case less
  show ?case
  proof (cases "i < length args")
    case True
    have step: "parse_hello_loop (n # args) l (Suc (Suc (Suc i))) au nm = parse_hello_loop (n' # args) l (Suc (Suc (Suc i))) au nm"
      "parse_hello_loop (n # args) l (Suc i + 3) au nm = parse_hello_loop (n' # args) l (Suc i + 3) au nm" for au nm
      using less [of "Suc (Suc i)"] less [of "i + 3"] True by simp_all
    show ?thesis
      by (subst (1 2) parse_hello_loop.simps) (simp add: idx_Cons step [simplified] cong: if_cong sum.case_cong)
  qed (simp add: parse_hello_loop.simps [of _ _ "Suc i"])
qed

lemma parse_named_head: "parse_named nm (n # args) l = parse_named nm (n' # args) l"
  using parse_set_loop_head [of n args 2 _ _ n'] parse_hello_loop_head [of n args l 1 _ _ n']
  by (simp add: parse_named_def parse_set_def parse_hello_def parse_increment_def parse_expire_def
      parse_command_def parse_client_def idx_Cons numeral_2_eq_2 numeral_3_eq_3 cong: if_cong sum.case_cong option.case_cong)

text \<open>
  Command names are matched without regard to ASCII case: two requests that differ only in
  the case of their names are parsed alike, whatever their arguments.
\<close>

theorem parse_name_case_insensitive:
  assumes "eq_ignore_ascii_case name name'"
  shows "parse (name # args) limits = parse (name' # args) limits"
proof -
  have "find_spec name = find_spec name'"
    using assms by (simp add: find_spec_def eq_ignore_ascii_case_def)
  then show ?thesis
    using parse_named_head [of _ name args limits name'] by (auto simp: parse_def split: option.splits)
qed

theorem parse_name_case_insensitive_witness:
  "parse [''gEt'', ''K''] ParseLimits_default = parse [''GET'', ''K''] ParseLimits_default"
  by (rule parse_name_case_insensitive) code_simp

end
