(* ===== verification/Net_Connection.thy ===== *)
theory Net_Connection
  imports Client_Session Resp_Decoding Command_Props
begin

section \<open>Connections (crates/recall-server/src/lib.rs)\<close>

text \<open>
  One connection reads requests, hands them to its session and writes the replies. The network is a
  script: what the next \<open>read\<close> finds in the socket (bytes, of which it takes as many as its buffer
  allows; nothing at the end of the stream; the deadline of the frame; an error; or the shutdown signal,
  which the biased \<open>select!\<close> sees first), and how the next \<open>write_all\<close> ends: it succeeds, or it fails or
  exceeds its deadline when some number of bytes of the reply have reached the socket. The shutdown flag is
  also looked at before every request: it is seen if \<open>Stopping\<close> is the next event, and \<open>StillRunning\<close>
  stands for one look before it is set, so that the signal may come between any two requests that are
  already buffered. The connection is suspended when its script is used up; \<open>cn_output\<close> holds the bytes
  that its writes, as far as they have ended, have put on the socket. A socket on which \<open>set_nodelay\<close> fails is closed before anything is read and
  has no script. \<open>None\<close> is a panic.
\<close>

subsection \<open>Reading requests\<close>

datatype ReadEvent = Arrived bytes | ReadTimedOut | ReadFailed | Stopping | StillRunning

datatype WriteEvent = Written | WriteTimedOut nat | WriteFailed nat

datatype Fetched = GotRequest Request | EndOfRequests | ProtocolFailure ProtocolError | IoFailure bool | Suspended

fun event_size :: "ReadEvent \<Rightarrow> nat" where
  "event_size (Arrived bs) = Suc (length bs)"
| "event_size _ = 1"

definition script_size :: "ReadEvent list \<Rightarrow> nat" where
  "script_size evs = sum_list (map event_size evs)"

lemma script_size_simps [simp]:
  "script_size [] = 0" "script_size (ev # evs) = event_size ev + script_size evs"
  "script_size (evs @ evs') = script_size evs + script_size evs'"
  by (simp_all add: script_size_def)

text \<open>The bytes of one \<open>read\<close> into \<open>chunk[..remaining]\<close>, and what stays in the socket.\<close>

definition take_chunk :: "nat \<Rightarrow> bytes \<Rightarrow> ReadEvent list \<Rightarrow> bytes \<times> ReadEvent list" where
  "take_chunk remaining bs rest =
     (take remaining bs, if length bs \<le> remaining then rest else Arrived (drop remaining bs) # rest)"

definition read_budget :: "Config \<Rightarrow> bytes \<Rightarrow> nat" where
  "read_budget config input = min (max_frame_bytes (protocol config) - length input) 8192"

function next_request :: "Config \<Rightarrow> Decoder \<Rightarrow> bytes \<Rightarrow> ReadEvent list \<Rightarrow>
    (Fetched \<times> Decoder \<times> bytes \<times> ReadEvent list) option" where
  "next_request config decoder input evs = do {
     (r, decoder', input') \<leftarrow> decode decoder input;
     case r of
       Inl e \<Rightarrow> Some (ProtocolFailure e, decoder', input', evs)
     | Inr (Some request) \<Rightarrow> Some (GotRequest request, decoder', input', evs)
     | Inr None \<Rightarrow>
         if read_budget config input' = 0
         then Some (ProtocolFailure ''request exceeds configured limit'', decoder', input', evs)
         else case evs of
           [] \<Rightarrow> Some (Suspended, decoder', input', [])
         | Stopping # rest \<Rightarrow> Some (EndOfRequests, decoder', input', rest)
         | StillRunning # rest \<Rightarrow> next_request config decoder' input' rest
         | ReadTimedOut # rest \<Rightarrow> Some (IoFailure True, decoder', input', rest)
         | ReadFailed # rest \<Rightarrow> Some (IoFailure False, decoder', input', rest)
         | Arrived bs # rest \<Rightarrow>
             if bs = [] then
               Some (if input' = [] then EndOfRequests else ProtocolFailure ''truncated request'', decoder', input', rest)
             else
               next_request config decoder' (input' @ fst (take_chunk (read_budget config input') bs rest))
                 (snd (take_chunk (read_budget config input') bs rest))
   }"
  by pat_completeness auto
termination
  by (relation "measure (\<lambda>(config, decoder, input, evs). script_size evs)") (auto simp: take_chunk_def)

declare next_request.simps [simp del]

subsection \<open>Writing replies\<close>

definition limit_error :: Reply where
  "limit_error = Reply_error ''ERR response exceeds configured limit''"

definition bounded_reply :: "Config \<Rightarrow> Reply \<Rightarrow> Reply" where
  "bounded_reply config reply =
     (if (case encoded_len reply of None \<Rightarrow> True | Some n \<Rightarrow> n > cfg_max_reply_bytes config) then limit_error else reply)"

datatype WriteResult = WriteOk bytes | WriteError bool bytes | WritePending

text \<open>\<open>WriteError\<close> says whether the write deadline was exceeded, and what was written of the reply.\<close>

definition write_reply :: "allocator \<Rightarrow> Config \<Rightarrow> Reply \<Rightarrow> WriteEvent list \<Rightarrow> (WriteResult \<times> WriteEvent list) option" where
  "write_reply alloc config reply ws =
     (let reply' = bounded_reply config reply in do {
        n \<leftarrow> encoded_len reply';
        if \<not> alloc ReplyBuffer n then Some (WriteError False [], ws)
        else case ws of
          [] \<Rightarrow> Some (WritePending, [])
        | Written # rest \<Rightarrow> Some (WriteOk (encode reply' []), rest)
        | WriteTimedOut sent # rest \<Rightarrow> Some (WriteError True (take sent (encode reply' [])), rest)
        | WriteFailed sent # rest \<Rightarrow> Some (WriteError False (take sent (encode reply' [])), rest)
      })"

subsection \<open>The connection loop\<close>

record 'e Conn =
  cn_decoder :: Decoder
  cn_input :: bytes
  cn_session :: Session
  cn_metrics :: Metrics
  cn_engine :: 'e
  cn_output :: bytes

datatype ConnResult = Closed | ConnIoError bool | Blocked

text \<open>The atomic counters wrap.\<close>

definition fetch_add_one :: "nat \<Rightarrow> nat" where
  "fetch_add_one n = (n + 1) mod (u64_max + 1)"

definition timed_out :: "bool \<Rightarrow> Metrics \<Rightarrow> Metrics" where
  "timed_out b m = (if b then m\<lparr>io_timeouts := fetch_add_one (io_timeouts m)\<rparr> else m)"

text \<open>One request: parse it, count it, and execute the command or answer with the parse error.\<close>

definition answer_request :: "(bytes \<Rightarrow> bytes \<Rightarrow> bool) \<Rightarrow> (Operation \<Rightarrow> 'e \<Rightarrow> Reply \<times> 'e) \<Rightarrow> ('e \<Rightarrow> ShardStats list \<times> 'e) \<Rightarrow>
    Config \<Rightarrow> Session \<Rightarrow> Metrics \<Rightarrow> 'e \<Rightarrow> bytes list \<Rightarrow> (Reply \<times> bool \<times> Session \<times> Metrics \<times> 'e) option" where
  "answer_request ct_eq run stats config session metrics engine args = do {
     parsed \<leftarrow> parse args (commands config);
     let metrics' = metrics\<lparr>total_commands := fetch_add_one (total_commands metrics)\<rparr>;
     (reply, close, session', engine') \<leftarrow>
       (case parsed of
          Inr command \<Rightarrow> Session_execute ct_eq run stats config metrics' session command engine
        | Inl e \<Rightarrow> Some (CommandError_reply e, False, session, engine));
     Some (reply, close, session', metrics', engine')
   }"

lemma decode_consumes:
  "decode d p = Some (Inr (Some req), d', p') \<Longrightarrow> length p' < length p"
proof (induction d p rule: decode.induct)
  case (1 d p)
  obtain d1 d2 d3 where s: "decode_array_header d p = Some (Inr True, d1)" "decode_bulk_header d1 p = Some (Inr True, d2)"
    "decode_bulk_body d2 p = Some (Inr True, d3)"
    and r: "if Some (length (spans d3)) = argument_count d3 then decode_finish d3 p = Some (req, d', p')
      else decode d3 p = Some (Inr (Some req), d', p')"
    using 1(2) by (subst (asm) decode.simps) (auto split: Option.bind_splits sum.splits bool.splits if_splits)
  have "cursor d2 < cursor d3 \<and> cursor d3 \<le> length p" by (rule decode_bulk_body_cursor [OF s(3)])
  then show ?case
  proof (cases "Some (length (spans d3)) = argument_count d3")
    case True
    then show ?thesis
      using r \<open>cursor d2 < cursor d3 \<and> cursor d3 \<le> length p\<close>
      by (auto simp: decode_finish_def split: Option.bind_splits if_splits)
  next
    case False
    then show ?thesis using 1(1) s r by simp
  qed
qed

lemma decode_keeps:
  "decode d p = Some (r, d', p') \<Longrightarrow> \<forall>req. r \<noteq> Inr (Some req) \<Longrightarrow> p' = p"
proof (induction d p rule: decode.induct)
  case (1 d p)
  show ?case
  proof (rule ccontr)
    assume ne: "p' \<noteq> p"
    then obtain d1 d2 d3 where s: "decode_array_header d p = Some (Inr True, d1)" "decode_bulk_header d1 p = Some (Inr True, d2)"
      "decode_bulk_body d2 p = Some (Inr True, d3)" "Some (length (spans d3)) \<noteq> argument_count d3"
      and r: "decode d3 p = Some (r, d', p')"
      using 1(2,3) by (subst (asm) decode.simps) (auto split: Option.bind_splits sum.splits bool.splits if_splits)
    show False using 1(1) [OF s(1) refl refl refl s(2) refl refl refl s(3) refl refl refl] s(4) r 1(3) ne by blast
  qed
qed

text \<open>The equation of \<open>next_request\<close> for each outcome of the decoder.\<close>

lemma next_request_error: "decode d input = Some (Inl e, d', i') \<Longrightarrow>
    next_request config d input evs = Some (ProtocolFailure e, d', i', evs)"
  by (subst next_request.simps) simp

lemma next_request_ready: "decode d input = Some (Inr (Some req), d', i') \<Longrightarrow>
    next_request config d input evs = Some (GotRequest req, d', i', evs)"
  by (subst next_request.simps) simp

lemma next_request_waits: "decode d input = Some (Inr None, d', i') \<Longrightarrow> next_request config d input evs =
    (if read_budget config input = 0
     then Some (ProtocolFailure ''request exceeds configured limit'', d', input, evs)
     else case evs of
       [] \<Rightarrow> Some (Suspended, d', input, [])
     | Stopping # rest \<Rightarrow> Some (EndOfRequests, d', input, rest)
     | StillRunning # rest \<Rightarrow> next_request config d' input rest
     | ReadTimedOut # rest \<Rightarrow> Some (IoFailure True, d', input, rest)
     | ReadFailed # rest \<Rightarrow> Some (IoFailure False, d', input, rest)
     | Arrived bs # rest \<Rightarrow>
         if bs = [] then Some (if input = [] then EndOfRequests else ProtocolFailure ''truncated request'', d', input, rest)
         else next_request config d' (input @ fst (take_chunk (read_budget config input) bs rest))
                (snd (take_chunk (read_budget config input) bs rest)))"
  using decode_keeps [of d input "Inr None" d' i'] by (subst next_request.simps) simp

lemma take_chunk_size:
  "length (fst (take_chunk n bs rest)) + script_size (snd (take_chunk n bs rest)) \<le> Suc (length bs) + script_size rest"
  by (simp add: take_chunk_def min_def)

lemma next_request_consumes:
  "next_request config d input evs = Some (GotRequest req, d', input', evs') \<Longrightarrow>
   length input' + script_size evs' < length input + script_size evs"
proof (induction config d input evs rule: next_request.induct)
  case (1 config d input evs)
  obtain r d1 i1 where dec: "decode d input = Some (r, d1, i1)"
    using 1(3) by (subst (asm) next_request.simps) (auto split: Option.bind_splits)
  consider (error) e where "r = Inl e" | (ready) req' where "r = Inr (Some req')" | (waits) "r = Inr None"
    by (cases r) (auto simp: not_None_eq)
  then show ?case
  proof cases
    case error
    then show ?thesis using 1(3) dec by (simp add: next_request_error)
  next
    case ready
    then show ?thesis using 1(3) dec decode_consumes by (auto simp: next_request_ready)
  next
    case waits
    have i1: "i1 = input" using decode_keeps [OF dec] waits by simp
    note eq = 1(3) [unfolded next_request_waits [OF dec [unfolded waits]]]
    show ?thesis
    proof (cases "\<exists>rest. evs = StillRunning # rest")
      case True
      then show ?thesis using 1(2) dec waits i1 eq by (fastforce split: if_splits)
    next
      case False
      then obtain bs rest where ev: "evs = Arrived bs # rest" "bs \<noteq> []" "read_budget config input \<noteq> 0"
        and rec: "next_request config d1 (input @ fst (take_chunk (read_budget config input) bs rest))
            (snd (take_chunk (read_budget config input) bs rest)) = Some (GotRequest req, d', input', evs')"
        using eq by (auto split: if_splits list.splits ReadEvent.splits)
      have "length input' + script_size evs' < length (input @ fst (take_chunk (read_budget config input) bs rest)) +
          script_size (snd (take_chunk (read_budget config input) bs rest))"
        using 1(1) dec waits i1 ev rec by simp
      then show ?thesis using take_chunk_size [of "read_budget config input" bs rest] ev(1) by simp
    qed
  qed
qed

fun flag_unset :: "ReadEvent list \<Rightarrow> ReadEvent list" where
  "flag_unset (StillRunning # evs) = evs"
| "flag_unset evs = evs"

lemma flag_unset_size: "script_size (flag_unset evs) \<le> script_size evs"
  by (cases evs rule: flag_unset.cases) auto

lemma next_request_flag_consumes:
  "next_request config d input (flag_unset evs) = Some (GotRequest req, d', input', evs') \<Longrightarrow>
   length input' + script_size evs' < length input + script_size evs"
  using next_request_consumes flag_unset_size [of evs] by fastforce

function connection :: "allocator \<Rightarrow> (bytes \<Rightarrow> bytes \<Rightarrow> bool) \<Rightarrow> (Operation \<Rightarrow> 'e \<Rightarrow> Reply \<times> 'e) \<Rightarrow>
    ('e \<Rightarrow> ShardStats list \<times> 'e) \<Rightarrow> Config \<Rightarrow> 'e Conn \<Rightarrow> ReadEvent list \<Rightarrow> WriteEvent list \<Rightarrow>
    (ConnResult \<times> 'e Conn \<times> ReadEvent list \<times> WriteEvent list) option" where
  "connection alloc ct_eq run stats config conn evs ws =
     (if evs \<noteq> [] \<and> hd evs = Stopping then Some (Closed, conn, evs, ws)
      else do {
        (fetched, decoder, input, evs') \<leftarrow> next_request config (cn_decoder conn) (cn_input conn) (flag_unset evs);
        let conn1 = conn\<lparr>cn_decoder := decoder, cn_input := input\<rparr>;
        case fetched of
          Suspended \<Rightarrow> Some (Blocked, conn1, evs', ws)
        | EndOfRequests \<Rightarrow> Some (Closed, conn1, evs', ws)
        | IoFailure deadline \<Rightarrow>
            Some (ConnIoError deadline, conn1\<lparr>cn_metrics := timed_out deadline (cn_metrics conn1)\<rparr>, evs', ws)
        | ProtocolFailure message \<Rightarrow> do {
            let metrics = (cn_metrics conn1)\<lparr>protocol_errors := fetch_add_one (protocol_errors (cn_metrics conn1))\<rparr>;
            (written, ws') \<leftarrow> write_reply alloc config (Reply_error (''ERR Protocol error: '' @ message)) ws;
            Some (case written of
                WriteOk out \<Rightarrow> (Closed, conn1\<lparr>cn_metrics := metrics, cn_output := cn_output conn1 @ out\<rparr>, evs', ws')
              | WriteError deadline part \<Rightarrow>
                  (Closed, conn1\<lparr>cn_metrics := timed_out deadline metrics, cn_output := cn_output conn1 @ part\<rparr>, evs', ws')
              | WritePending \<Rightarrow> (Blocked, conn1\<lparr>cn_metrics := metrics\<rparr>, evs', ws'))
          }
        | GotRequest request \<Rightarrow> do {
            (reply, close, session, metrics, engine) \<leftarrow>
              answer_request ct_eq run stats config (cn_session conn1) (cn_metrics conn1) (cn_engine conn1) (arguments request);
            let conn2 = conn1\<lparr>cn_session := session, cn_metrics := metrics, cn_engine := engine\<rparr>;
            (written, ws') \<leftarrow> write_reply alloc config reply ws;
            case written of
              WriteOk out \<Rightarrow>
                if close then Some (Closed, conn2\<lparr>cn_output := cn_output conn2 @ out\<rparr>, evs', ws')
                else connection alloc ct_eq run stats config (conn2\<lparr>cn_output := cn_output conn2 @ out\<rparr>) evs' ws'
            | WriteError deadline part \<Rightarrow>
                Some (ConnIoError deadline, conn2\<lparr>cn_metrics := timed_out deadline (cn_metrics conn2),
                  cn_output := cn_output conn2 @ part\<rparr>, evs', ws')
            | WritePending \<Rightarrow> Some (Blocked, conn2, evs', ws')
          }
      })"
  by pat_completeness auto
termination
  by (relation "measure (\<lambda>(alloc, ct_eq, run, stats, config, conn, evs, ws). length (cn_input conn) + script_size evs)")
    (auto dest!: next_request_flag_consumes)

declare connection.simps [simp del]

subsection \<open>Requests arrive as they were sent\<close>

text \<open>A decoder that has looked at \<open>input\<close> before and still waits for the rest of a frame.\<close>

definition in_step :: "Limits \<Rightarrow> Decoder \<Rightarrow> bytes \<Rightarrow> bool" where
  "in_step l d input \<longleftrightarrow> waiting d input \<and> d_limits d = l \<and> (\<forall>q. decode d (input @ q) = decode (fresh l) (input @ q))"

lemma in_step_fresh: "in_step l (fresh l) input"
  by (simp add: in_step_def waiting_fresh)

lemma in_step_waits:
  assumes "in_step l d input" and "decode d input = Some (Inr None, d', i')"
  shows "in_step l d' (input @ q)" and "length input < max_frame_bytes l"
proof -
  have w: "waiting d input" "d_limits d = l" using assms(1) by (simp_all add: in_step_def)
  have good: "decode_good l input (Inr None) d' i'" using decode_ok [OF w(1)] assms(2) w(2) by auto
  then show "length input < max_frame_bytes l" by (simp add: decode_good_def)
  have "decode d' (input @ q @ q') = decode d (input @ q @ q')" for q'
    using decode_extends [OF w(1), of "q @ q'"] assms(2) by (auto simp: decode_extends_def)
  then show "in_step l d' (input @ q)"
    using good assms(1) waiting_append by (simp add: in_step_def decode_good_def)
qed

definition arriving :: "bytes list \<Rightarrow> ReadEvent list" where
  "arriving chunks = map Arrived chunks"

lemma take_chunk_arriving:
  assumes "bs \<noteq> []" and "0 < n" and "\<forall>b \<in> set chunks. b \<noteq> []"
  obtains chunks' where "snd (take_chunk n bs (arriving chunks)) = arriving chunks'" and "\<forall>b \<in> set chunks'. b \<noteq> []"
    and "fst (take_chunk n bs (arriving chunks)) @ concat chunks' = bs @ concat chunks"
proof (cases "length bs \<le> n")
  case True
  then show ?thesis using that [of chunks] assms by (simp add: take_chunk_def)
next
  case False
  then show ?thesis using that [of "drop n bs # chunks"] assms by (simp add: take_chunk_def arriving_def)
qed

lemma flag_unset_arriving [simp]: "flag_unset (arriving chunks) = arriving chunks"
  by (cases chunks) (auto simp: arriving_def)

lemma next_request_frame:
  assumes "in_step (protocol c) d input" and "max_frame_bytes (protocol c) \<le> usize_max"
    and "resp_frame (protocol c) as w" and "input @ concat chunks = w @ rest" and "\<forall>b \<in> set chunks. b \<noteq> []"
  shows "\<exists>input' chunks'. next_request c d input (arriving chunks) =
      Some (GotRequest \<lparr>arguments = as, wire_bytes = length w\<rparr>, fresh (protocol c), input', arriving chunks') \<and>
    input' @ concat chunks' = rest \<and> (\<forall>b \<in> set chunks'. b \<noteq> [])"
  using assms
proof (induction "script_size (arriving chunks)" arbitrary: d input chunks rule: less_induct)
  case less
  let ?l = "protocol c"
  have w: "waiting d input" "d_limits d = ?l" using less.prems(1) by (simp_all add: in_step_def)
  have "decode d (input @ concat chunks) = decode (fresh ?l) (input @ concat chunks)"
    using less.prems(1) unfolding in_step_def by blast
  then have full: "decode d (input @ concat chunks) =
      Some (Inr (Some \<lparr>arguments = as, wire_bytes = length w\<rparr>), fresh ?l, rest)"
    using decode_frame_complete [OF less.prems(3,2), of rest] unfolding less.prems(4) by simp
  obtain r d1 i1 where dec: "decode d input = Some (r, d1, i1)" using decode_ok [OF w(1)] by blast
  note ext = decode_extends [OF w(1), of "concat chunks", unfolded decode_extends_def, rule_format, OF dec]
  consider (error) e where "r = Inl e" | (ready) req where "r = Inr (Some req)" | (waits) "r = Inr None"
    by (cases r) (auto simp: not_None_eq)
  then show ?case
  proof cases
    case error
    then show ?thesis using ext full by simp
  next
    case ready
    then show ?thesis
      using ext full less.prems(5) dec by (intro exI [of _ i1] exI [of _ chunks]) (simp add: next_request_ready)
  next
    case waits
    note dec' = dec [unfolded waits]
    have budget: "read_budget c input \<noteq> 0"
      using in_step_waits(2) [OF less.prems(1) dec'] by (simp add: read_budget_def)
    obtain bs chunks1 where ch: "chunks = bs # chunks1" "bs \<noteq> []"
      using full dec' less.prems(5) by (cases chunks) auto
    obtain chunks' where c': "snd (take_chunk (read_budget c input) bs (arriving chunks1)) = arriving chunks'"
      "\<forall>b \<in> set chunks'. b \<noteq> []"
      "fst (take_chunk (read_budget c input) bs (arriving chunks1)) @ concat chunks' = bs @ concat chunks1"
      using take_chunk_arriving [OF ch(2)] budget less.prems(5) ch(1) by (metis list.set_intros(2) neq0_conv)
    let ?input = "input @ fst (take_chunk (read_budget c input) bs (arriving chunks1))"
    have "script_size (arriving chunks') < script_size (arriving chunks)"
      using ch budget c'(1) by (auto simp: arriving_def take_chunk_def split: if_splits)
    moreover have "in_step ?l d1 ?input" using in_step_waits(1) [OF less.prems(1) dec'] .
    moreover have "?input @ concat chunks' = w @ rest" using c'(3) less.prems(4) ch(1) by simp
    ultimately obtain input2 chunks2 where
      "next_request c d1 ?input (arriving chunks') =
        Some (GotRequest \<lparr>arguments = as, wire_bytes = length w\<rparr>, fresh ?l, input2, arriving chunks2)"
      "input2 @ concat chunks2 = rest" "\<forall>b \<in> set chunks2. b \<noteq> []"
      using less.hyps less.prems(2,3) c'(2) by blast
    moreover have "next_request c d input (arriving chunks) = next_request c d1 ?input (arriving chunks')"
      using budget ch c'(1) by (simp add: next_request_waits [OF dec'] arriving_def)
    ultimately show ?thesis by auto
  qed
qed

text \<open>No frame is pending: the connection waits for the next read.\<close>

lemma decode_fresh_nil:
  assumes "0 < max_frame_bytes l" and "0 < max_header_bytes l"
  shows "decode (fresh l) [] = Some (Inr None, fresh l, [])"
  using assms by (simp add: decode.simps [of "fresh l"] decode_array_header_def header_end.simps)

subsection \<open>What a connection answers\<close>

text \<open>The replies to a pipeline of requests, one after the other, up to the reply that closes.\<close>

fun serve :: "(bytes \<Rightarrow> bytes \<Rightarrow> bool) \<Rightarrow> (Operation \<Rightarrow> 'e \<Rightarrow> Reply \<times> 'e) \<Rightarrow> ('e \<Rightarrow> ShardStats list \<times> 'e) \<Rightarrow> Config \<Rightarrow>
    Session \<Rightarrow> Metrics \<Rightarrow> 'e \<Rightarrow> bytes list list \<Rightarrow> (Reply list \<times> bool \<times> Session \<times> Metrics \<times> 'e) option" where
  "serve ct_eq run stats config session metrics engine [] = Some ([], False, session, metrics, engine)"
| "serve ct_eq run stats config session metrics engine (args # rest) = do {
     (reply, close, session', metrics', engine') \<leftarrow> answer_request ct_eq run stats config session metrics engine args;
     if close then Some ([bounded_reply config reply], True, session', metrics', engine')
     else do {
       (replies, closed, session2, metrics2, engine2) \<leftarrow> serve ct_eq run stats config session' metrics' engine' rest;
       Some (bounded_reply config reply # replies, closed, session2, metrics2, engine2)
     }
   }"

lemma Session_execute_total:
  "\<exists>reply close s' engine'. Session_execute ct_eq run stats c metrics s command engine = Some (reply, close, s', engine')"
  by (cases command)
    (auto simp: Session_execute_def session_command_def Let_def
      split: option.splits prod.splits sum.splits ClientCommand.splits)

lemma answer_request_total:
  assumes "int (length args) \<le> i64_max"
  shows "\<exists>r. answer_request ct_eq run stats c s m e args = Some r"
proof -
  obtain parsed where parsed: "parse args (commands c) = Some parsed" using parse_total [OF assms] by blast
  show ?thesis
  proof (cases parsed)
    case (Inr command)
    then show ?thesis
      using parsed Session_execute_total [of ct_eq run stats c "m\<lparr>total_commands := fetch_add_one (total_commands m)\<rparr>" s command e]
      by (auto simp: answer_request_def)
  qed (use parsed in \<open>auto simp: answer_request_def\<close>)
qed

lemma encoded_len_bounded:
  assumes "64 \<le> cfg_max_reply_bytes c"
  shows "\<exists>n. encoded_len (bounded_reply c reply) = Some n \<and> n \<le> cfg_max_reply_bytes c"
proof (cases "case encoded_len reply of None \<Rightarrow> True | Some n \<Rightarrow> n > cfg_max_reply_bytes c")
  case True
  have "encoded_len limit_error = Some 40" by code_simp
  then show ?thesis using True assms by (simp add: bounded_reply_def)
next
  case False
  then show ?thesis by (auto simp: bounded_reply_def split: option.splits)
qed

lemma resp_bulks_length: "resp_bulks l as w \<Longrightarrow> length as \<le> length w"
  by (induction rule: resp_bulks.induct) (auto simp: resp_header_def crlf_def)

definition reserves :: "allocator \<Rightarrow> bool" where
  "reserves alloc \<longleftrightarrow> (\<forall>n. alloc ReplyBuffer n)"

lemma write_reply_ok:
  assumes "64 \<le> cfg_max_reply_bytes c" and "reserves alloc"
  shows "write_reply alloc c reply (Written # ws) = Some (WriteOk (encode (bounded_reply c reply) []), ws)"
  using encoded_len_bounded [OF assms(1), of reply] assms(2) by (auto simp: write_reply_def Let_def reserves_def)

definition conn_at :: "'e Conn \<Rightarrow> Limits \<Rightarrow> bytes \<Rightarrow> bool" where
  "conn_at conn l input \<longleftrightarrow> cn_decoder conn = fresh l \<and> cn_input conn = input"

lemma connection_serves:
  assumes "validate c = Inr ()" and "reserves alloc"
    and "list_all2 (resp_frame (protocol c)) reqs frames" and "conn_at conn (protocol c) input"
    and "input @ concat chunks = concat frames" and "\<forall>b \<in> set chunks. b \<noteq> []"
  shows "\<exists>replies closed s m e conn' evs ws.
    serve ct_eq run stats c (cn_session conn) (cn_metrics conn) (cn_engine conn) reqs = Some (replies, closed, s, m, e) \<and>
    connection alloc ct_eq run stats c conn (arriving chunks) (replicate (length reqs) Written) =
      Some (if closed then Closed else Blocked, conn', evs, ws) \<and>
    cn_output conn' = cn_output conn @ concat (map (\<lambda>r. encode r []) replies) \<and>
    cn_session conn' = s \<and> cn_metrics conn' = m \<and> cn_engine conn' = e"
  using assms(3-6)
proof (induction reqs frames arbitrary: conn input chunks rule: list_all2_induct)
  case Nil
  have l: "0 < max_frame_bytes (protocol c)" "0 < max_header_bytes (protocol c)"
    using validate_facts(10) [OF assms(1)] by (auto simp: Limits_validate_def split: if_splits)
  have nil: "input = []" "chunks = []" using Nil.prems(2,3) by (cases chunks; auto)+
  have "next_request c (fresh (protocol c)) [] [] = Some (Suspended, fresh (protocol c), [], [])"
    using next_request_waits [OF decode_fresh_nil [OF l]] l by (simp add: read_budget_def)
  then show ?case
    using Nil.prems(1) nil by (auto simp: conn_at_def connection.simps [of _ _ _ _ _ conn] arriving_def)
next
  case (Cons args reqs w frames)
  note v = validate_facts [OF assms(1)]
  have le: "max_frame_bytes (protocol c) \<le> usize_max" using v(11) by (simp add: usize_max_def)
  have "length args \<le> length w"
    using Cons.hyps(1) resp_bulks_length by (force simp: resp_frame_def)
  then have "int (length args) \<le> i64_max"
    using Cons.hyps(1) v(11) by (auto simp: resp_frame_def i64_max_def)
  then obtain reply close s1 m1 e1 where ans: "answer_request ct_eq run stats c (cn_session conn) (cn_metrics conn) (cn_engine conn) args =
      Some (reply, close, s1, m1, e1)"
    using answer_request_total [of args ct_eq run stats c "cn_session conn" "cn_metrics conn" "cn_engine conn"] by auto
  obtain input' chunks' where nxt: "next_request c (fresh (protocol c)) input (arriving chunks) =
      Some (GotRequest \<lparr>arguments = args, wire_bytes = length w\<rparr>, fresh (protocol c), input', arriving chunks')"
    "input' @ concat chunks' = concat frames" "\<forall>b \<in> set chunks'. b \<noteq> []"
    using next_request_frame [OF in_step_fresh le Cons.hyps(1), of input chunks "concat frames"] Cons.prems(2,3) by auto
  have stop: "\<not> (arriving chunks \<noteq> [] \<and> hd (arriving chunks) = Stopping)"
    by (cases chunks) (auto simp: arriving_def)
  have reply_ok: "64 \<le> cfg_max_reply_bytes c" using v(12) by simp
  let ?conn = "conn\<lparr>cn_decoder := fresh (protocol c), cn_input := input', cn_session := s1, cn_metrics := m1, cn_engine := e1,
      cn_output := cn_output conn @ encode (bounded_reply c reply) []\<rparr>"
  have step: "connection alloc ct_eq run stats c conn (arriving chunks) (replicate (length (args # reqs)) Written) =
      (if close then Some (Closed, ?conn, arriving chunks', replicate (length reqs) Written)
       else connection alloc ct_eq run stats c ?conn (arriving chunks') (replicate (length reqs) Written))"
    using Cons.prems(1) stop nxt(1) ans write_reply_ok [OF reply_ok assms(2), of reply "replicate (length reqs) Written"]
    by (subst connection.simps) (auto simp: conn_at_def Let_def)
  show ?case
  proof (cases close)
    case True
    then show ?thesis using step ans by auto
  next
    case False
    have "conn_at ?conn (protocol c) input'" by (simp add: conn_at_def)
    from Cons.IH [OF this nxt(2,3)] obtain replies closed s m e conn' evs ws where
      "serve ct_eq run stats c s1 m1 e1 reqs = Some (replies, closed, s, m, e)"
      "connection alloc ct_eq run stats c ?conn (arriving chunks') (replicate (length reqs) Written) =
        Some (if closed then Closed else Blocked, conn', evs, ws)"
      "cn_output conn' = (cn_output conn @ encode (bounded_reply c reply) []) @ concat (map (\<lambda>r. encode r []) replies)"
      "cn_session conn' = s" "cn_metrics conn' = m" "cn_engine conn' = e"
      by auto
    then show ?thesis
      using step ans False
      by (intro exI [of _ "bounded_reply c reply # replies"] exI [of _ closed] exI [of _ s] exI [of _ m] exI [of _ e]
          exI [of _ conn'] exI [of _ evs] exI [of _ ws]) simp
  qed
qed

subsection \<open>Whatever the network does\<close>

definition reading :: "Config \<Rightarrow> Decoder \<Rightarrow> bytes \<Rightarrow> bool" where
  "reading c d input \<longleftrightarrow> waiting d input \<and> d_limits d = protocol c \<and> length input \<le> max_frame_bytes (protocol c)"

lemma next_request_total:
  "reading c d input \<Longrightarrow> \<exists>f d' input' evs'. next_request c d input evs = Some (f, d', input', evs') \<and>
     length input' \<le> max_frame_bytes (protocol c) \<and>
     (\<forall>req. f = GotRequest req \<longrightarrow> reading c d' input' \<and> length (arguments req) \<le> max_arguments (protocol c))"
proof (induction c d input evs rule: next_request.induct)
  case (1 c d input evs)
  have w: "waiting d input" "d_limits d = protocol c" "length input \<le> max_frame_bytes (protocol c)"
    using 1(3) by (simp_all add: reading_def)
  obtain r d1 i1 where dec: "decode d input = Some (r, d1, i1)" and good: "decode_good (protocol c) input r d1 i1"
    using decode_ok [OF w(1)] w(2) by auto
  consider (error) e where "r = Inl e" | (ready) req where "r = Inr (Some req)" | (waits) "r = Inr None"
    by (cases r) (auto simp: not_None_eq)
  then show ?case
  proof cases
    case error
    then show ?thesis using dec w(3) decode_keeps [OF dec] by (simp add: next_request_error)
  next
    case ready
    then show ?thesis
      using dec w(3) good waiting_fresh by (auto simp: next_request_ready decode_good_def reading_def resp_frame_def)
  next
    case waits
    note dec' = dec [unfolded waits]
    have i1: "i1 = input" using decode_keeps [OF dec] waits by simp
    have d1: "waiting d1 input" "d_limits d1 = protocol c" using good waits by (simp_all add: decode_good_def)
    have rec: ?thesis if ev: "evs = Arrived bs # rest" "bs \<noteq> []" "read_budget c input \<noteq> 0" for bs rest
    proof -
      let ?input = "input @ fst (take_chunk (read_budget c input) bs rest)"
      have "length ?input \<le> max_frame_bytes (protocol c)"
        using w(3) by (simp add: take_chunk_def read_budget_def)
      then have "reading c d1 ?input" using d1 waiting_append by (simp add: reading_def)
      then show ?thesis using 1(1) dec waits i1 ev by (simp add: next_request_waits [OF dec'])
    qed
    have still: ?thesis if ev: "evs = StillRunning # rest" "read_budget c input \<noteq> 0" for rest
    proof -
      have "reading c d1 input" using d1 w(3) by (simp add: reading_def)
      then show ?thesis using 1(2) dec waits i1 ev by (simp add: next_request_waits [OF dec'])
    qed
    show ?thesis
    proof (cases evs)
      case Nil
      then show ?thesis using w(3) by (simp add: next_request_waits [OF dec'])
    next
      case (Cons ev rest)
      then show ?thesis using w(3) rec still by (cases ev) (auto simp: next_request_waits [OF dec'])
    qed
  qed
qed

lemma write_reply_total:
  assumes "64 \<le> cfg_max_reply_bytes c"
  shows "\<exists>r ws'. write_reply alloc c reply ws = Some (r, ws') \<and> (\<forall>out. r = WriteOk out \<longrightarrow> length out \<le> cfg_max_reply_bytes c)"
proof -
  obtain n where n: "encoded_len (bounded_reply c reply) = Some n" "n \<le> cfg_max_reply_bytes c"
    using encoded_len_bounded [OF assms] by blast
  have "length (encode (bounded_reply c reply) []) = n" using encoded_len_wire n(1) by (auto simp: encode_wire split: if_splits)
  then show ?thesis
    using n by (auto simp: write_reply_def Let_def split: list.splits WriteEvent.splits)
qed

lemma connection_total:
  assumes valid: "validate c = Inr ()" and "reading c (cn_decoder conn) (cn_input conn)"
  shows "\<exists>res conn' evs' ws'. connection alloc ct_eq run stats c conn evs ws = Some (res, conn', evs', ws') \<and>
    length (cn_input conn') \<le> max_frame_bytes (protocol c)"
  using assms(2)
proof (induction "length (cn_input conn) + script_size evs" arbitrary: conn evs ws rule: less_induct)
  case less
  note v = validate_facts [OF valid]
  have reply_ok: "64 \<le> cfg_max_reply_bytes c" using v(12) by simp
  obtain f d' input' evs' where nxt: "next_request c (cn_decoder conn) (cn_input conn) (flag_unset evs) = Some (f, d', input', evs')"
    "length input' \<le> max_frame_bytes (protocol c)"
    and got: "\<And>req. f = GotRequest req \<Longrightarrow> reading c d' input' \<and> length (arguments req) \<le> max_arguments (protocol c)"
    using next_request_total [OF less.prems, of "flag_unset evs"] by blast
  show ?case
  proof (cases "evs \<noteq> [] \<and> hd evs = Stopping")
    case True
    then show ?thesis using less.prems by (subst connection.simps) (simp add: reading_def)
  next
    case go: False
    show ?thesis
    proof (cases f)
      case (GotRequest req)
      have "max_arguments (protocol c) \<le> 4096"
        using valid by (auto simp: validate_def split: if_splits sum.splits)
      then have "int (length (arguments req)) \<le> i64_max" using got [OF GotRequest] by (simp add: i64_max_def)
      then obtain reply close s m e where ans: "answer_request ct_eq run stats c (cn_session conn) (cn_metrics conn) (cn_engine conn)
          (arguments req) = Some (reply, close, s, m, e)"
        using answer_request_total [of "arguments req" ct_eq run stats c "cn_session conn" "cn_metrics conn" "cn_engine conn"] by auto
      obtain r ws' where wr: "write_reply alloc c reply ws = Some (r, ws')" using write_reply_total [OF reply_ok] by blast
      let ?conn = "\<lambda>out. conn\<lparr>cn_decoder := d', cn_input := input', cn_session := s, cn_metrics := m, cn_engine := e,
          cn_output := cn_output conn @ out\<rparr>"
      have lt: "length (cn_input (?conn out)) + script_size evs' < length (cn_input conn) + script_size evs" for out
        using next_request_flag_consumes [OF nxt(1) [unfolded GotRequest]] by simp
      have rd: "reading c (cn_decoder (?conn out)) (cn_input (?conn out))" for out using got [OF GotRequest] by simp
      show ?thesis
        using go nxt GotRequest ans wr less.hyps [OF lt rd]
        by (subst connection.simps) (cases r; auto simp: Let_def)
    next
      case (ProtocolFailure message)
      obtain r ws' where "write_reply alloc c (Reply_error (''ERR Protocol error: '' @ message)) ws = Some (r, ws')"
        using write_reply_total [OF reply_ok] by blast
      then show ?thesis
        using go nxt ProtocolFailure by (subst connection.simps) (cases r; auto simp: Let_def)
    qed (use go nxt in \<open>subst connection.simps; auto simp: Let_def\<close>)+
  qed
qed

subsection \<open>The shutdown signal\<close>

lemma take_chunk_append:
  "fst (take_chunk n bs (rest @ post)) = fst (take_chunk n bs rest)"
  "snd (take_chunk n bs (rest @ post)) = snd (take_chunk n bs rest) @ post"
  by (simp_all add: take_chunk_def)

lemma flag_unset_append: "flag_unset (pre @ Stopping # post) = flag_unset pre @ Stopping # post"
  by (cases pre rule: flag_unset.cases) simp_all

text \<open>A request is ready before the signal is looked at, or the signal ends the reading.\<close>

definition stops_at :: "Config \<Rightarrow> Decoder \<Rightarrow> bytes \<Rightarrow> ReadEvent list \<Rightarrow> Fetched \<Rightarrow> Decoder \<Rightarrow> bytes \<Rightarrow> bool" where
  "stops_at c d input pre f d' input' \<longleftrightarrow> f \<noteq> Suspended \<and>
     ((\<exists>pre'. \<forall>post. next_request c d input (pre @ Stopping # post) = Some (f, d', input', pre' @ Stopping # post)) \<or>
      f = EndOfRequests \<and> (\<forall>post. next_request c d input (pre @ Stopping # post) = Some (f, d', input', post)))"

lemma stops_at_rest:
  assumes "stops_at c d input pre f d' input'"
  obtains rest where "\<And>post. next_request c d input (pre @ Stopping # post) = Some (f, d', input', rest post)"
    and "f \<noteq> Suspended"
proof (cases "\<exists>pre'. \<forall>post. next_request c d input (pre @ Stopping # post) = Some (f, d', input', pre' @ Stopping # post)")
  case True
  then obtain pre' where "\<forall>post. next_request c d input (pre @ Stopping # post) = Some (f, d', input', pre' @ Stopping # post)"
    by blast
  then show ?thesis using assms by (intro that [of "\<lambda>post. pre' @ Stopping # post"]) (auto simp: stops_at_def)
next
  case False
  then have "\<forall>post. next_request c d input (pre @ Stopping # post) = Some (f, d', input', post)"
    using assms unfolding stops_at_def by blast
  then show ?thesis using assms by (intro that [of "\<lambda>post. post"]) (auto simp: stops_at_def)
qed

lemma next_request_stops: "reading c d input \<Longrightarrow> \<exists>f d' input'. stops_at c d input pre f d' input'"
proof (induction c d input pre rule: next_request.induct)
  case (1 c d input pre)
  have w: "waiting d input" "d_limits d = protocol c" "length input \<le> max_frame_bytes (protocol c)"
    using 1(3) by (simp_all add: reading_def)
  obtain r d1 i1 where dec: "decode d input = Some (r, d1, i1)" and good: "decode_good (protocol c) input r d1 i1"
    using decode_ok [OF w(1)] w(2) by auto
  consider (error) e where "r = Inl e" | (ready) req where "r = Inr (Some req)" | (waits) "r = Inr None"
    by (cases r) (auto simp: not_None_eq)
  then show ?case
  proof cases
    case error
    then show ?thesis
      using dec by (intro exI [of _ "ProtocolFailure e"] exI [of _ d1] exI [of _ i1])
        (auto simp: stops_at_def next_request_error)
  next
    case ready
    then show ?thesis
      using dec by (intro exI [of _ "GotRequest req"] exI [of _ d1] exI [of _ i1])
        (auto simp: stops_at_def next_request_ready)
  next
    case waits
    note dec' = dec [unfolded waits]
    note eq = next_request_waits [OF dec']
    have i1: "i1 = input" using decode_keeps [OF dec] waits by simp
    have d1: "waiting d1 input" "d_limits d1 = protocol c" using good waits by (simp_all add: decode_good_def)
    have rd: "reading c d1 (input @ q)" if "length q \<le> read_budget c input" for q
      using d1 waiting_append w(3) that by (auto simp: reading_def read_budget_def)
    show ?thesis
    proof (cases "read_budget c input = 0")
      case True
      then show ?thesis
        by (intro exI [of _ "ProtocolFailure ''request exceeds configured limit''"] exI [of _ d1] exI [of _ input])
          (auto simp: stops_at_def eq)
    next
      case budget: False
      show ?thesis
      proof (cases pre)
        case Nil
        then show ?thesis
          using budget by (intro exI [of _ EndOfRequests] exI [of _ d1] exI [of _ input]) (simp add: stops_at_def eq)
      next
        case (Cons ev rest)
        show ?thesis
        proof (cases ev)
          case (Arrived bs)
          show ?thesis
          proof (cases "bs = []")
            case True
            then show ?thesis
              using budget Cons Arrived
              by (intro exI [of _ "if input = [] then EndOfRequests else ProtocolFailure ''truncated request''"]
                  exI [of _ d1] exI [of _ input]) (auto simp: stops_at_def eq)
          next
            case False
            have "length (fst (take_chunk (read_budget c input) bs rest)) \<le> read_budget c input"
              by (simp add: take_chunk_def)
            from 1(1) [OF dec refl refl waits refl _ Cons Arrived] rd [OF this] budget False i1
            obtain f d' input' where "stops_at c d1 (input @ fst (take_chunk (read_budget c input) bs rest))
                (snd (take_chunk (read_budget c input) bs rest)) f d' input'"
              by auto
            then show ?thesis
              using budget Cons Arrived False
              by (intro exI [of _ f] exI [of _ d'] exI [of _ input']) (simp add: stops_at_def eq take_chunk_append)
          qed
        next
          case StillRunning
          from 1(2) [OF dec refl refl waits refl _ Cons StillRunning] rd [of "[]"] budget i1
          obtain f d' input' where "stops_at c d1 input rest f d' input'" by auto
          then show ?thesis
            using budget Cons StillRunning
            by (intro exI [of _ f] exI [of _ d'] exI [of _ input']) (simp add: stops_at_def eq)
        next
          case ReadTimedOut
          then show ?thesis
            using budget Cons by (intro exI [of _ "IoFailure True"] exI [of _ d1] exI [of _ input]) (auto simp: stops_at_def eq)
        next
          case ReadFailed
          then show ?thesis
            using budget Cons by (intro exI [of _ "IoFailure False"] exI [of _ d1] exI [of _ input]) (auto simp: stops_at_def eq)
        next
          case Stopping
          then show ?thesis
            using budget Cons by (intro exI [of _ EndOfRequests] exI [of _ d1] exI [of _ input]) (auto simp: stops_at_def eq)
        qed
      qed
    qed
  qed
qed

lemma write_reply_ends:
  assumes "64 \<le> cfg_max_reply_bytes c" and "ws \<noteq> []"
  shows "\<exists>r ws'. write_reply alloc c reply ws = Some (r, ws') \<and> r \<noteq> WritePending \<and>
    (\<forall>out. r = WriteOk out \<longrightarrow> length ws = Suc (length ws'))"
proof -
  obtain n where "encoded_len (bounded_reply c reply) = Some n" using encoded_len_bounded [OF assms(1)] by blast
  then show ?thesis
    using assms(2) by (cases ws) (auto simp: write_reply_def Let_def split: WriteEvent.splits)
qed

lemma connection_stops:
  assumes valid: "validate c = Inr ()" and "reading c (cn_decoder conn) (cn_input conn)"
    and "length (cn_input conn) + script_size pre < length ws"
  shows "\<exists>res conn' ws'. res \<noteq> Blocked \<and>
    (\<forall>post. \<exists>evs'. connection alloc ct_eq run stats c conn (pre @ Stopping # post) ws = Some (res, conn', evs', ws'))"
  using assms(2,3)
proof (induction "length (cn_input conn) + script_size pre" arbitrary: conn pre ws rule: less_induct)
  case less
  note v = validate_facts [OF valid]
  have reply_ok: "64 \<le> cfg_max_reply_bytes c" using v(12) by simp
  have ws: "ws \<noteq> []" using less.prems(2) by auto
  show ?case
  proof (cases "pre = [] \<or> hd pre = Stopping")
    case True
    then have "hd (pre @ Stopping # post) = Stopping" for post by (cases pre) simp_all
    then show ?thesis by (intro exI [of _ Closed] exI [of _ conn] exI [of _ ws]) (simp add: connection.simps [of _ _ _ _ _ conn])
  next
    case False
    then have go: "\<not> (pre @ Stopping # post \<noteq> [] \<and> hd (pre @ Stopping # post) = Stopping)" for post by (cases pre) simp_all
    obtain f d' input' where st: "stops_at c (cn_decoder conn) (cn_input conn) (flag_unset pre) f d' input'"
      using next_request_stops [OF less.prems(1)] by blast
    obtain rest where nxt: "\<And>post. next_request c (cn_decoder conn) (cn_input conn) (flag_unset (pre @ Stopping # post)) =
        Some (f, d', input', rest post)" and f: "f \<noteq> Suspended"
      using stops_at_rest [OF st] unfolding flag_unset_append by blast
    note conn = connection.simps [of alloc ct_eq run stats c conn "pre @ Stopping # _" ws, unfolded if_not_P [OF go] nxt]
    show ?thesis
    proof (cases f)
      case (GotRequest req)
      obtain pre' where pre': "\<And>post. rest post = pre' @ Stopping # post"
        using st nxt GotRequest by (auto simp: stops_at_def flag_unset_append)
      have got: "reading c d' input'" "length (arguments req) \<le> max_arguments (protocol c)"
        using next_request_total [OF less.prems(1), of "flag_unset (pre @ [Stopping])"] nxt [of "[]"] GotRequest by auto
      have lt: "length input' + script_size pre' < length (cn_input conn) + script_size pre"
        using next_request_flag_consumes [OF nxt [of "[]", unfolded GotRequest]] by (simp add: pre')
      have "max_arguments (protocol c) \<le> 4096" using valid by (auto simp: validate_def split: if_splits sum.splits)
      then have "int (length (arguments req)) \<le> i64_max" using got(2) by (simp add: i64_max_def)
      then obtain reply close s m e where ans: "answer_request ct_eq run stats c (cn_session conn) (cn_metrics conn) (cn_engine conn)
          (arguments req) = Some (reply, close, s, m, e)"
        using answer_request_total [of "arguments req" ct_eq run stats c "cn_session conn" "cn_metrics conn" "cn_engine conn"] by auto
      obtain r ws' where wr: "write_reply alloc c reply ws = Some (r, ws')" "r \<noteq> WritePending"
        "\<And>out. r = WriteOk out \<Longrightarrow> length ws = Suc (length ws')"
        using write_reply_ends [OF reply_ok ws] by blast
      let ?conn = "\<lambda>out. conn\<lparr>cn_decoder := d', cn_input := input', cn_session := s, cn_metrics := m, cn_engine := e,
          cn_output := cn_output conn @ out\<rparr>"
      show ?thesis
      proof (cases "\<exists>out. r = WriteOk out \<and> \<not> close")
        case True
        then obtain out where out: "r = WriteOk out" "\<not> close" by blast
        have "\<exists>res conn' ws''. res \<noteq> Blocked \<and> (\<forall>post. \<exists>evs'.
            connection alloc ct_eq run stats c (?conn out) (pre' @ Stopping # post) ws' = Some (res, conn', evs', ws''))"
          by (rule less.hyps) (use lt got(1) wr(3) [OF out(1)] less.prems(2) in simp_all)
        then show ?thesis by (simp add: conn GotRequest ans wr(1) out pre' Let_def)
      next
        case False
        then show ?thesis using wr(2) by (cases r) (auto simp: conn GotRequest ans wr(1) Let_def)
      qed
    next
      case (ProtocolFailure message)
      obtain r ws' where "write_reply alloc c (Reply_error (''ERR Protocol error: '' @ message)) ws = Some (r, ws')"
        "r \<noteq> WritePending"
        using write_reply_ends [OF reply_ok ws] by blast
      then show ?thesis by (cases r) (auto simp: conn ProtocolFailure Let_def)
    qed (use f in \<open>auto simp: conn Let_def\<close>)
  qed
qed

subsection \<open>The properties\<close>

definition Conn_new :: "Config \<Rightarrow> nat \<Rightarrow> Metrics \<Rightarrow> 'e \<Rightarrow> 'e Conn option" where
  "Conn_new config client metrics engine =
     (case Decoder_new (protocol config) of
        Inl e \<Rightarrow> None
      | Inr decoder \<Rightarrow> Some \<lparr>cn_decoder = decoder, cn_input = [], cn_session = Session_new client config,
          cn_metrics = metrics, cn_engine = engine, cn_output = []\<rparr>)"

lemma Conn_new_valid:
  assumes "validate c = Inr ()"
  shows "Conn_new c client m e = Some \<lparr>cn_decoder = fresh (protocol c), cn_input = [], cn_session = Session_new client c,
    cn_metrics = m, cn_engine = e, cn_output = []\<rparr>"
  using validate_facts(10) [OF assms] by (simp add: Conn_new_def Decoder_new_def)

text \<open>
  Claim C15. A client may pipeline: however the network cuts the bytes of a sequence of well-formed requests
  into reads, the connection answers exactly these requests, each once and in order, with the replies
  its session gives one after the other (up to a reply that closes the connection), and what reaches
  the client is the concatenation of the encoded replies.
\<close>

theorem pipelined_requests_answered_in_order:
  assumes "validate c = Inr ()" and "reserves alloc" and "Conn_new c client m e = Some conn"
    and "list_all2 (resp_frame (protocol c)) reqs frames" and "concat chunks = concat frames" and "\<forall>b \<in> set chunks. b \<noteq> []"
  shows "\<exists>replies closed s m' e' conn' evs ws.
    serve ct_eq run stats c (Session_new client c) m e reqs = Some (replies, closed, s, m', e') \<and>
    connection alloc ct_eq run stats c conn (map Arrived chunks) (replicate (length reqs) Written) =
      Some (if closed then Closed else Blocked, conn', evs, ws) \<and>
    cn_output conn' = concat (map (\<lambda>r. encode r []) replies) \<and> cn_session conn' = s \<and> cn_engine conn' = e'"
proof -
  have conn: "conn = \<lparr>cn_decoder = fresh (protocol c), cn_input = [], cn_session = Session_new client c,
      cn_metrics = m, cn_engine = e, cn_output = []\<rparr>"
    using assms(3) Conn_new_valid [OF assms(1), of client m e] by simp
  then have "conn_at conn (protocol c) []" by (simp add: conn_at_def)
  from connection_serves [OF assms(1,2,4) this _ assms(6), of ct_eq run stats] show ?thesis
    using assms(5) conn by (fastforce simp: arriving_def)
qed

definition demo_conn :: "nat Conn" where
  "demo_conn = \<lparr>cn_decoder = fresh Limits_default, cn_input = [], cn_session = Session_new 1 (Config_default None),
     cn_metrics = Metrics_default, cn_engine = 0, cn_output = []\<rparr>"

theorem pipelined_requests_answered_in_order_witness:
  "\<exists>replies closed s m' e' conn' evs ws.
    serve (=) counting_run (\<lambda>n. ([], n)) (Config_default None) (Session_new 1 (Config_default None)) Metrics_default 0
      [[''PING''], [''PING'']] = Some (replies, closed, s, m', e') \<and>
    connection granting (=) counting_run (\<lambda>n. ([], n)) (Config_default None) demo_conn
      (map Arrived [ping_part, ping_rest @ ping_part, ping_rest]) (replicate 2 Written) =
      Some (if closed then Closed else Blocked, conn', evs, ws) \<and>
    cn_output conn' = concat (map (\<lambda>r. encode r []) replies)"
proof -
  have l: "protocol (Config_default None) = Limits_default" by (simp add: Config_default_def Let_def)
  have "decode (fresh Limits_default) (ping_part @ ping_rest) = Some (Inr (Some ping_request), fresh Limits_default, [])"
    by code_simp
  then have frame: "resp_frame (protocol (Config_default None)) [''PING''] (ping_part @ ping_rest)"
    using decode_ok [OF waiting_fresh, of Limits_default "ping_part @ ping_rest"] unfolding l
    by (auto simp: decode_good_def)
  have conn: "Conn_new (Config_default None) 1 Metrics_default 0 = Some demo_conn"
    using Conn_new_valid [OF default_valid, of None 1 Metrics_default "0::nat"] l by (simp add: demo_conn_def)
  have frames: "list_all2 (resp_frame (protocol (Config_default None))) [[''PING''], [''PING'']] [ping_part @ ping_rest, ping_part @ ping_rest]"
    using frame by simp
  have chunks: "concat [ping_part, ping_rest @ ping_part, ping_rest] = concat [ping_part @ ping_rest, ping_part @ ping_rest]"
    "\<forall>b \<in> set [ping_part, ping_rest @ ping_part, ping_rest]. b \<noteq> []"
    by (simp_all add: ping_part_def ping_rest_def)
  have "reserves granting" by (simp add: reserves_def granting_def)
  from pipelined_requests_answered_in_order [OF default_valid this conn frames chunks, of "(=)" counting_run "\<lambda>n. ([], n)"]
  have "\<exists>replies closed s m' e' conn' evs ws.
    serve (=) counting_run (\<lambda>n. ([], n)) (Config_default None) (Session_new 1 (Config_default None)) Metrics_default 0
      [[''PING''], [''PING'']] = Some (replies, closed, s, m', e') \<and>
    connection granting (=) counting_run (\<lambda>n. ([], n)) (Config_default None) demo_conn
      (map Arrived [ping_part, ping_rest @ ping_part, ping_rest]) (replicate (length [[''PING''], [''PING'']]) Written) =
      Some (if closed then Closed else Blocked, conn', evs, ws) \<and>
    cn_output conn' = concat (map (\<lambda>r. encode r []) replies)"
    by blast
  moreover have "length [[''PING''], [''PING'']] = 2" by simp
  ultimately show ?thesis by metis
qed

text \<open>
  Claim C35. Whatever a peer sends and however reads and writes fail, a connection never panics, and the
  bytes it buffers never exceed the configured frame limit.
\<close>

theorem connection_total_and_bounded:
  assumes "validate c = Inr ()" and "Conn_new c client m e = Some conn"
  shows "\<exists>res conn' evs' ws'. connection alloc ct_eq run stats c conn evs ws = Some (res, conn', evs', ws') \<and>
    length (cn_input conn') \<le> max_frame_bytes (protocol c)"
proof -
  have "reading c (cn_decoder conn) (cn_input conn)"
    using assms(2) Conn_new_valid [OF assms(1), of client m e] waiting_fresh by (auto simp: reading_def)
  then show ?thesis by (rule connection_total [OF assms(1)])
qed

theorem connection_total_and_bounded_witness:
  "\<exists>res conn' evs' ws'. connection granting (=) counting_run (\<lambda>n. ([], n)) (Config_default None) demo_conn
      [Arrived ''*2'', Arrived ''garbage'', ReadTimedOut] [WriteTimedOut 3] = Some (res, conn', evs', ws') \<and>
    length (cn_input conn') \<le> max_frame_bytes (protocol (Config_default None))"
proof (rule connection_total_and_bounded [OF default_valid])
  show "Conn_new (Config_default None) 1 Metrics_default 0 = Some demo_conn"
    using Conn_new_valid [OF default_valid, of None 1 Metrics_default "0::nat"]
    by (simp add: demo_conn_def Config_default_def Let_def)
qed

text \<open>
  Claim C24. A connection obeys the shutdown signal. If the signal is there when it is about to take the next
  request, it closes at once, whatever requests are buffered: nothing is read, executed, answered or counted. And
  whatever its peer sent before the signal, in whatever pieces and with whatever failures, it ends, provided that its
  writes end (one more of them than the bytes and events before the signal is enough), and it ends in the same way
  whatever comes after the signal.
\<close>

theorem connection_obeys_shutdown:
  assumes "validate c = Inr ()" and "Conn_new c client m e = Some conn" and "script_size pre < length ws"
  shows "(\<forall>conn1 post ws1. connection alloc ct_eq run stats c conn1 (Stopping # post) ws1 =
      Some (Closed, conn1, Stopping # post, ws1)) \<and>
    (\<exists>res conn' ws'. res \<noteq> Blocked \<and>
      (\<forall>post. \<exists>evs'. connection alloc ct_eq run stats c conn (pre @ Stopping # post) ws = Some (res, conn', evs', ws')))"
proof
  show "\<forall>conn1 post ws1. connection alloc ct_eq run stats c conn1 (Stopping # post) ws1 =
      Some (Closed, conn1, Stopping # post, ws1)"
    by (simp add: connection.simps)
  have "reading c (cn_decoder conn) (cn_input conn)" "cn_input conn = []"
    using assms(2) Conn_new_valid [OF assms(1), of client m e] waiting_fresh by (auto simp: reading_def)
  then show "\<exists>res conn' ws'. res \<noteq> Blocked \<and>
      (\<forall>post. \<exists>evs'. connection alloc ct_eq run stats c conn (pre @ Stopping # post) ws = Some (res, conn', evs', ws'))"
    using assms(3) by (intro connection_stops [OF assms(1)]) simp_all
qed

theorem connection_obeys_shutdown_witness:
  "\<exists>res conn' ws' evs1 evs2. res \<noteq> Blocked \<and>
     connection granting (=) counting_run (\<lambda>n. ([], n)) (Config_default None) demo_conn
       [Arrived (ping_part @ ping_rest), StillRunning, Stopping, Arrived (ping_part @ ping_rest)] (replicate 40 Written) =
       Some (res, conn', evs1, ws') \<and>
     connection granting (=) counting_run (\<lambda>n. ([], n)) (Config_default None) demo_conn
       [Arrived (ping_part @ ping_rest), StillRunning, Stopping] (replicate 40 Written) = Some (res, conn', evs2, ws') \<and>
     connection granting (=) counting_run (\<lambda>n. ([], n)) (Config_default None) (demo_conn\<lparr>cn_input := ping_part @ ping_rest\<rparr>)
       [Stopping] [Written] = Some (Closed, demo_conn\<lparr>cn_input := ping_part @ ping_rest\<rparr>, [Stopping], [Written])"
proof -
  have conn: "Conn_new (Config_default None) 1 Metrics_default 0 = Some demo_conn"
    using Conn_new_valid [OF default_valid, of None 1 Metrics_default "0::nat"]
    by (simp add: demo_conn_def Config_default_def Let_def)
  have "script_size [Arrived (ping_part @ ping_rest), StillRunning] < length (replicate 40 Written)"
    by (simp add: ping_part_def ping_rest_def crlf_def)
  note stop = connection_obeys_shutdown [OF default_valid conn this, of granting "(=)" counting_run "\<lambda>n. ([], n)"]
  then obtain res conn' ws' where "res \<noteq> Blocked" and run: "\<And>post. \<exists>evs'. connection granting (=) counting_run (\<lambda>n. ([], n))
      (Config_default None) demo_conn ([Arrived (ping_part @ ping_rest), StillRunning] @ Stopping # post) (replicate 40 Written) =
      Some (res, conn', evs', ws')"
    by blast
  then show ?thesis
    using run [of "[Arrived (ping_part @ ping_rest)]"] run [of "[]"] conjunct1 [OF stop]
    by (intro exI [of _ res] exI [of _ conn'] exI [of _ ws']) auto
qed

end
