(* ===== verification/Owner_Loop.thy ===== *)
theory Owner_Loop
  imports Server_Config
begin

section \<open>The owner thread (crates/recall-server/src/engine.rs, owner\_loop)\<close>

text \<open>
  An owner thread keeps one shard and serves three sources in a fixed priority: control messages,
  the expiration timer, and the data queue. While a reservation is held, the timer and the data
  queue are not served. A channel is a list of messages in the order they were sent; a \<open>oneshot\<close>
  response to a client is an event that names the client, the response to the coordinator an event
  of its own. One turn of the loop is cut at its only suspension point, the \<open>select!\<close>:
  \<open>owner_top\<close> is what comes before it and \<open>owner_select\<close> is the arm that is taken, given which
  sources are ready. \<open>None\<close> is a panic or a call of \<open>fatal\<close>.
\<close>

subsection \<open>The clock\<close>

text \<open>
  \<open>SystemClock::now_ms\<close>: the milliseconds since the Unix epoch as the system gives them, zero before the epoch
  and at most the largest \<open>i64\<close>. The owners are given any clock; this is the one \<open>Engine::start\<close> uses.
\<close>

definition SystemClock_now_ms :: "int \<Rightarrow> int" where
  "SystemClock_now_ms elapsed = (if elapsed < 0 then 0 else if elapsed \<le> i64_max then elapsed else i64_max)"

lemma SystemClock_range: "0 \<le> SystemClock_now_ms t \<and> in_i64 (SystemClock_now_ms t)"
  by (simp add: SystemClock_now_ms_def in_i64_def i64_min_def i64_max_def)

lemma SystemClock_mono: "t \<le> u \<Longrightarrow> SystemClock_now_ms t \<le> SystemClock_now_ms u"
  by (simp add: SystemClock_now_ms_def i64_max_def)

subsection \<open>Messages and state\<close>

record DataRequest =
  rq_client :: nat
  rq_operation :: Operation
  rq_credit :: nat

datatype Control =
    Reserve nat
  | Prepare nat Operation int
  | Apply nat
  | Release nat
  | Stats nat
  | Stop

record Reservation =
  rv_id :: nat
  rv_prepared :: "Prepared option"

record OwnerState =
  o_shard :: Shard
  o_reservation :: "Reservation option"
  o_stopping :: bool
  o_data_turn :: bool
  o_data :: "DataRequest list"
  o_controls :: "Control list"

text \<open>What an owner sends: a reply to a client, statistics to a client, or a completion to the coordinator.\<close>

datatype Completion = Done | PreparedReply "EngineError + Reply"

datatype OwnerEvent = Answer DataRequest Reply | StatsAnswer nat ShardStats | Complete Completion

subsection \<open>execute\_local and the control messages\<close>

definition execute_local :: "allocator \<Rightarrow> Shard \<Rightarrow> DataRequest \<Rightarrow> int \<Rightarrow> (OwnerEvent \<times> Shard) option" where
  "execute_local alloc s request now_ms = do {
     (r, s') \<leftarrow> execute alloc s (rq_operation request) now_ms;
     Some (Answer request (case r of Inl e \<Rightarrow> EngineError_reply e | Inr reply \<Rightarrow> reply), s')
   }"

fun handle_control :: "allocator \<Rightarrow> OwnerState \<Rightarrow> Control \<Rightarrow> (OwnerEvent list \<times> OwnerState) option" where
  "handle_control alloc o1 (Reserve tid) =
     (if o_reservation o1 \<noteq> None then None
      else Some ([Complete Done], o1\<lparr>o_reservation := Some \<lparr>rv_id = tid, rv_prepared = None\<rparr>\<rparr>))"
| "handle_control alloc o1 (Prepare tid operation now_ms) = do {
     active \<leftarrow> o_reservation o1;
     if rv_id active \<noteq> tid \<or> rv_prepared active \<noteq> None then None
     else do {
       r \<leftarrow> prepare alloc (o_shard o1) operation now_ms;
       case r of
         Inl e \<Rightarrow> Some ([Complete (PreparedReply (Inl e))], o1)
       | Inr prepared \<Rightarrow>
           Some ([Complete (PreparedReply (Inr (p_response prepared)))],
             o1\<lparr>o_reservation := Some (active\<lparr>rv_prepared := Some prepared\<rparr>)\<rparr>)
     }
   }"
| "handle_control alloc o1 (Apply tid) = do {
     active \<leftarrow> o_reservation o1;
     if rv_id active \<noteq> tid then None
     else do {
       prepared \<leftarrow> rv_prepared active;
       (_, s') \<leftarrow> Shard_apply (o_shard o1) prepared;
       Some ([Complete Done],
         o1\<lparr>o_shard := s', o_reservation := Some (active\<lparr>rv_prepared := None\<rparr>)\<rparr>)
     }
   }"
| "handle_control alloc o1 (Release tid) = do {
     active \<leftarrow> o_reservation o1;
     if rv_id active \<noteq> tid then None
     else Some ([Complete Done], o1\<lparr>o_reservation := None, o_data_turn := True\<rparr>)
   }"
| "handle_control alloc o1 (Stats client) =
     Some ([StatsAnswer client (Shard_stats (o_shard o1))], o1\<lparr>o_data_turn := True\<rparr>)"
| "handle_control alloc o1 Stop =
     (if o_reservation o1 \<noteq> None then None else Some ([], o1\<lparr>o_stopping := True\<rparr>))"

subsection \<open>One turn of the loop\<close>

text \<open>Before the \<open>select!\<close>: an ongoing stream of reservations cannot starve queued local work.\<close>

definition owner_top :: "allocator \<Rightarrow> int \<Rightarrow> OwnerState \<Rightarrow> (OwnerEvent list \<times> OwnerState) option" where
  "owner_top alloc now_ms o1 =
     (if o_data_turn o1 \<and> o_reservation o1 = None then
        (case o_data o1 of
           [] \<Rightarrow> Some ([], o1\<lparr>o_data_turn := False\<rparr>)
         | request # rest \<Rightarrow> do {
             (ev, s') \<leftarrow> execute_local alloc (o_shard o1) request now_ms;
             Some ([ev], o1\<lparr>o_data_turn := False, o_data := rest, o_shard := s'\<rparr>)
           })
      else Some ([], o1))"

datatype SelectResult = Continue "OwnerEvent list" OwnerState | Break | Pending

definition owner_select :: "allocator \<Rightarrow> int \<Rightarrow> nat \<Rightarrow> bool \<Rightarrow> bool \<Rightarrow> bool \<Rightarrow> OwnerState \<Rightarrow> SelectResult option" where
  "owner_select alloc now_ms batch tick_ready controls_closed data_closed o1 =
     (if \<not> o_stopping o1 \<and> o_controls o1 \<noteq> [] then do {
        (evs, o2) \<leftarrow> handle_control alloc (o1\<lparr>o_controls := tl (o_controls o1)\<rparr>) (hd (o_controls o1));
        Some (Continue evs o2)
      }
      else if \<not> o_stopping o1 \<and> controls_closed then
        (if o_reservation o1 \<noteq> None then None
         else Some (Continue [] (o1\<lparr>o_stopping := True\<rparr>)))
      else if tick_ready \<and> o_reservation o1 = None \<and> \<not> o_stopping o1 then do {
        (_, s') \<leftarrow> expire_due (o_shard o1) now_ms batch;
        Some (Continue [] (o1\<lparr>o_shard := s', o_data_turn := True\<rparr>))
      }
      else if o_reservation o1 = None then
        (case o_data o1 of
           request # rest \<Rightarrow> do {
             (ev, s') \<leftarrow> execute_local alloc (o_shard o1) request now_ms;
             Some (Continue [ev] (o1\<lparr>o_data := rest, o_shard := s'\<rparr>))
           }
         | [] \<Rightarrow> Some (if o_stopping o1 \<or> data_closed then Break else Pending))
      else Some Pending)"

subsection \<open>What an owner does to its table\<close>

text \<open>
  The effect of one command, of a refusal, or of an expiration pass on the table \<open>m\<close> of a store.
\<close>

definition ran :: "int \<Rightarrow> Operation \<Rightarrow> keyspace \<Rightarrow> Reply \<Rightarrow> keyspace \<Rightarrow> bool" where
  "ran now op m reply m' \<longleftrightarrow>
     (\<exists>mm. spec_op now (live now m) op = Inr (reply, mm) \<and> m' = after_op m op mm)"

definition purged :: "int \<Rightarrow> keyspace \<Rightarrow> keyspace \<Rightarrow> bool" where
  "purged now m m' \<longleftrightarrow> (\<exists>R \<subseteq> due_keys now m. m' = m |` (- R))"

text \<open>A preparation that stands for a command at a time on the shard as it is.\<close>

definition prepared_for :: "Shard \<Rightarrow> Operation \<Rightarrow> int \<Rightarrow> Prepared \<Rightarrow> bool" where
  "prepared_for s op now p \<longleftrightarrow> keys_fit op \<and> (\<exists>alloc. prepare alloc s op now = Some (Inr p))"

lemma prepared_for_effects:
  assumes reach: "shard_reach l s" and p: "prepared_for s op now p"
  shows "eff_ok s (p_effects p)" and "table_fits s (patch (p_effects p) (entries s))" and "p_revision p = revision s"
    and "p_payload_after p = nat (alist_total entry_bytes (patch (p_effects p) (entries s)))"
    and "ran now op (table s) (p_response p) (override (table s) (p_effects p))"
proof -
  obtain alloc where fit: "keys_fit op" and prep: "prepare alloc s op now = Some (Inr p)"
    using p by (auto simp: prepared_for_def)
  have inv: "shard_inv s" using shard_reach_inv [OF reach] by simp
  obtain eff reply where pe: "prepare_effects s op now = Inr (eff, reply)"
      "spec_op now (live now (table s)) op = Inr (reply, live now (override (table s) eff))"
    and pp: "p = \<lparr>p_revision = revision s, p_effects = eff,
        p_payload_after = nat (alist_total entry_bytes (patch eff (entries s))), p_response = reply\<rparr>"
    and ok: "eff_ok s eff" "table_fits s (patch eff (entries s))"
    using prepare_cases [OF inv fit, of alloc now] prep by auto
  have "after_op (table s) op (live now (override (table s) eff)) = override (table s) eff"
    by (rule after_op_override) (rule prepare_effects_settles [OF pe(1)])
  then show "ran now op (table s) (p_response p) (override (table s) (p_effects p))"
    using pe(2) pp by (auto simp: ran_def)
  show "eff_ok s (p_effects p)" and "table_fits s (patch (p_effects p) (entries s))" and "p_revision p = revision s"
    and "p_payload_after p = nat (alist_total entry_bytes (patch (p_effects p) (entries s)))"
    using pp ok by simp_all
qed

lemma prepared_for_apply:
  assumes reach: "shard_reach l s" and p: "prepared_for s op now p" and lt: "revision s < u64_max"
  shows "\<exists>s'. Shard_apply s p = Some (p_response p, s') \<and> shard_reach l s' \<and>
    ran now op (table s) (p_response p) (table s') \<and> table s' = override (table s) (p_effects p)"
proof -
  obtain alloc where fit: "keys_fit op" and prep: "prepare alloc s op now = Some (Inr p)"
    using p by (auto simp: prepared_for_def)
  have inv: "shard_inv s" using shard_reach_inv [OF reach] by simp
  note eff = prepared_for_effects [OF reach p]
  obtain s' where s': "Shard_apply s p = Some (p_response p, s')" "entries s' = patch (p_effects p) (entries s)"
    using Shard_apply_ok [OF inv, of p] eff lt by auto
  have "execute alloc s op now = Some (Inr (p_response p), s')"
    using prep s'(1) by (simp add: execute_def)
  then have "shard_reach l s'" using shard_reach.exec [OF reach fit] by blast
  moreover have "table s' = override (table s) (p_effects p)"
    using s'(2) eff(1) by (simp add: map_of_patch eff_ok_def)
  ultimately show ?thesis using s'(1) eff(5) by simp
qed

lemma prepare_total:
  assumes "shard_reach l s" and "keys_fit op"
  shows "\<exists>r. prepare alloc s op now = Some r"
  using prepare_cases [of s op alloc now] shard_reach_inv [OF assms(1)] assms(2) by auto

lemma execute_local_effect:
  assumes reach: "shard_reach l s" and fit: "keys_fit (rq_operation rq)"
    and ex: "execute_local alloc s rq now = Some (ev, s')"
  shows "\<exists>reply. ev = Answer rq reply \<and> shard_reach l s' \<and>
    (ran now (rq_operation rq) (table s) reply (table s') \<or> (\<exists>e. reply = EngineError_reply e) \<and> table s' = table s)"
proof -
  have inv: "shard_inv s" using shard_reach_inv [OF reach] by simp
  obtain r where r: "execute alloc s (rq_operation rq) now = Some (r, s')"
    "ev = Answer rq (case r of Inl e \<Rightarrow> EngineError_reply e | Inr reply \<Rightarrow> reply)"
    using ex by (auto simp: execute_local_def split: Option.bind_splits)
  have reach': "shard_reach l s'" using shard_reach.exec [OF reach fit r(1)] .
  show ?thesis
  proof (cases r)
    case (Inl e)
    then have "s' = s" using r(1) by (auto simp: execute_def split: Option.bind_splits sum.splits)
    then show ?thesis using reach' Inl r(2) by auto
  next
    case (Inr reply)
    have lt: "revision s < u64_max" using execute_revision [OF inv] r(1) Inr by blast
    obtain p where p: "prepare alloc s (rq_operation rq) now = Some (Inr p)" "Shard_apply s p = Some (reply, s')"
      using r(1) Inr by (auto simp: execute_def split: Option.bind_splits sum.splits)
    then have "prepared_for s (rq_operation rq) now p" using fit by (auto simp: prepared_for_def)
    then show ?thesis
      using prepared_for_apply [OF reach _ lt] p(2) reach' Inr r(2) by fastforce
  qed
qed

lemma execute_local_total:
  assumes "shard_reach l s" and "keys_fit (rq_operation rq)" and "revision s < u64_max"
  shows "\<exists>r. execute_local alloc s rq now = Some r"
  using execute_cases [of s "rq_operation rq" alloc now] shard_reach_inv [OF assms(1)] assms(2,3)
  by (auto simp: execute_local_def)

lemma expire_due_effect:
  assumes reach: "shard_reach l s" and ex: "expire_due s now budget = Some (n, s')"
  shows "shard_reach l s' \<and> purged now (table s) (table s')"
  using shard_reach.expire [OF assms] expire_loop_pass [of s now budget 0 n s'] shard_reach_inv [OF reach] ex
  by (auto simp: expire_due_def expired_pass_def purged_def)

lemma expire_due_total:
  assumes "shard_reach l s" and "revision s + budget \<le> u64_max"
  shows "\<exists>r. expire_due s now budget = Some r"
  using expire_loop_total [of s budget 0 now] shard_reach_inv [OF assms(1)] assms(2) by (simp add: expire_due_def)

lemma Shard_apply_effect:
  assumes "shard_reach l s" and "prepared_for s op now p" and "Shard_apply s p = Some (reply, s')"
  shows "shard_reach l s' \<and> reply = p_response p \<and> ran now op (table s) (p_response p) (table s') \<and>
    table s' = override (table s) (p_effects p)"
proof -
  obtain alloc where "prepare alloc s op now = Some (Inr p)" using assms(2) by (auto simp: prepared_for_def)
  then have "execute alloc s op now = Some (Inr reply, s')" using assms(3) by (simp add: execute_def)
  then have "revision s < u64_max" using execute_revision shard_reach_inv [OF assms(1)] by blast
  then show ?thesis using prepared_for_apply [OF assms(1,2)] assms(3) by auto
qed

subsection \<open>Isolation and fairness\<close>

text \<open>
  Claim C27. A reserved owner is isolated: until it is released its turns go to its control messages only.
  It executes no command of its queue and no expiration pass; the message is a \<open>Prepare\<close>, \<open>Apply\<close> or
  \<open>Release\<close> of the reservation it holds or a request for statistics. Only \<open>Apply\<close> changes the shard, and it
  installs exactly the preparation made under that reservation; only \<open>Release\<close> ends the reservation, with
  whatever was prepared and not applied; a request for statistics changes neither.
\<close>

theorem reserved_owner_isolated:
  assumes "o_reservation o1 = Some rv"
    and "owner_select alloc now batch tick_ready controls_closed data_closed o1 = Some (Continue evs o2)"
  shows "owner_top alloc now o1 = Some ([], o1) \<and> o_data o2 = o_data o1 \<and> (\<forall>rq reply. Answer rq reply \<notin> set evs) \<and>
    (\<exists>msg rest. o_controls o1 = msg # rest \<and> o_controls o2 = rest \<and>
      (case msg of
         Prepare tid op t \<Rightarrow> tid = rv_id rv \<and> rv_prepared rv = None \<and> o_shard o2 = o_shard o1 \<and>
           (\<exists>r. prepare alloc (o_shard o1) op t = Some r \<and>
              o_reservation o2 = Some (rv\<lparr>rv_prepared := (case r of Inl _ \<Rightarrow> None | Inr p \<Rightarrow> Some p)\<rparr>))
       | Apply tid \<Rightarrow> tid = rv_id rv \<and> o_reservation o2 = Some (rv\<lparr>rv_prepared := None\<rparr>) \<and>
           (\<exists>p. rv_prepared rv = Some p \<and> Shard_apply (o_shard o1) p = Some (p_response p, o_shard o2))
       | Release tid \<Rightarrow> tid = rv_id rv \<and> o_shard o2 = o_shard o1 \<and> o_reservation o2 = None
       | Stats client \<Rightarrow> o_shard o2 = o_shard o1 \<and> o_reservation o2 = Some rv \<and>
           evs = [StatsAnswer client (Shard_stats (o_shard o1))]
       | _ \<Rightarrow> False))"
proof -
  have "owner_top alloc now o1 = Some ([], o1)" using assms(1) by (simp add: owner_top_def)
  moreover obtain msg rest where ctl: "o_controls o1 = msg # rest"
    "handle_control alloc (o1\<lparr>o_controls := rest\<rparr>) msg = Some (evs, o2)"
    using assms by (auto simp: owner_select_def neq_Nil_conv split: if_splits Option.bind_splits)
  moreover have "reply = p_response p" if "Shard_apply s p = Some (reply, s')" for s p reply s'
    using that by (auto simp: Shard_apply_def split: if_splits Option.bind_splits)
  ultimately show ?thesis
    using assms(1) by (cases msg) (force split: if_splits Option.bind_splits sum.splits)+
qed

theorem reserved_owner_isolated_witness:
  "\<exists>p o2. owner_select granting 20 64 True False False
       \<lparr>o_shard = tiny_shard, o_reservation = Some \<lparr>rv_id = 3, rv_prepared = Some p\<rparr>, o_stopping = False, o_data_turn = True,
        o_data = [\<lparr>rq_client = 1, rq_operation = Get ''k'', rq_credit = 385\<rparr>], o_controls = [Apply 3, Release 3]\<rparr> =
       Some (Continue [Complete Done] o2) \<and>
     o_data o2 = [\<lparr>rq_client = 1, rq_operation = Get ''k'', rq_credit = 385\<rparr>] \<and> o_shard o2 = leased_shard \<and>
     o_controls o2 = [Release 3] \<and> o_reservation o2 = Some \<lparr>rv_id = 3, rv_prepared = None\<rparr>"
proof -
  obtain p where p: "Shard_apply tiny_shard p = Some (Reply_ok, leased_shard)"
    using tiny_lease by (auto simp: execute_def split: Option.bind_splits sum.splits)
  let ?o = "\<lparr>o_shard = tiny_shard, o_reservation = Some \<lparr>rv_id = 3, rv_prepared = Some p\<rparr>, o_stopping = False, o_data_turn = True,
        o_data = [\<lparr>rq_client = 1, rq_operation = Get ''k'', rq_credit = 385\<rparr>], o_controls = [Apply 3, Release 3]\<rparr>"
  obtain o2 where sel: "owner_select granting 20 64 True False False ?o = Some (Continue [Complete Done] o2)"
    using p by (simp add: owner_select_def)
  then show ?thesis
    using reserved_owner_isolated [OF _ sel, of "\<lparr>rv_id = 3, rv_prepared = Some p\<rparr>"] p
    by (intro exI [of _ p] exI [of _ o2]) auto
qed

text \<open>
  What can happen to an owner that holds a reservation, up to and including the turn that releases it: commands
  and control messages arrive, and turns are taken at any time, with any allocator and whatever is ready.
\<close>

inductive reserved_run :: "OwnerState \<Rightarrow> OwnerState \<Rightarrow> bool" for o1 where
  start: "reserved_run o1 o1"
| arrive: "reserved_run o1 o2 \<Longrightarrow> reserved_run o1 (o2\<lparr>o_data := o_data o2 @ ds, o_controls := o_controls o2 @ cs\<rparr>)"
| turn: "reserved_run o1 o2 \<Longrightarrow> o_reservation o2 \<noteq> None \<Longrightarrow>
    owner_select alloc now batch tick_ready controls_closed data_closed o2 = Some (Continue evs o3) \<Longrightarrow> reserved_run o1 o3"

text \<open>The owner owes its queue a turn: it will look there first, unless it is reserved.\<close>

definition data_due :: "OwnerState \<Rightarrow> bool" where
  "data_due o1 \<longleftrightarrow> o_reservation o1 = None \<longrightarrow> o_data_turn o1 \<or> o_stopping o1"

lemma handle_control_due:
  "handle_control alloc o1 msg = Some (evs, o2) \<Longrightarrow> data_due o2 \<and> o_data o2 = o_data o1"
  by (cases msg) (auto simp: data_due_def split: if_splits Option.bind_splits sum.splits)

lemma overtaken_due:
  assumes "owner_select alloc now batch tick_ready controls_closed data_closed o1 = Some (Continue evs o2)"
    and "o_data o2 = o_data o1"
  shows "data_due o2"
  using assms
  by (auto simp: owner_select_def dest: handle_control_due split: if_splits Option.bind_splits list.splits)
    (simp_all add: data_due_def)

lemma reserved_run_due:
  assumes "reserved_run o1 o2" and "data_due o1"
  shows "data_due o2 \<and> (\<exists>more. o_data o2 = o_data o1 @ more)"
  using assms
proof (induction rule: reserved_run.induct)
  case (turn o2 alloc now batch tick_ready controls_closed data_closed evs o3)
  then have "o_data o3 = o_data o2"
    using handle_control_due by (auto simp: owner_select_def split: if_splits Option.bind_splits)
  then show ?case using turn overtaken_due by metis
qed (auto simp: data_due_def)

text \<open>
  Claim C28. Queued commands are not starved: a command at the head of the queue is passed over at most once
  by an unreserved owner. When a turn went to a control message or to the expiration timer instead, the
  command is executed before the owner looks at its control messages or its timer again, however many of them
  are waiting; if that message reserved the owner, this holds from the end of the reservation on, whatever
  arrived and was served under it.
\<close>

theorem queued_work_not_starved:
  assumes "owner_select alloc now batch tick_ready controls_closed data_closed o1 = Some (Continue evs o2)"
    and "o_data o1 = rq # rest" and "o_data o2 = rq # rest"
    and "reserved_run o2 o3" and "o_reservation o3 = None"
    and "shard_reach l (o_shard o3)" and "keys_fit (rq_operation rq)" and "revision (o_shard o3) < u64_max"
  shows "\<exists>reply o4 more. o_data o4 = rest @ more \<and>
    (owner_top alloc' now' o3 = Some ([Answer rq reply], o4) \<or>
     owner_top alloc' now' o3 = Some ([], o3) \<and>
       owner_select alloc' now' batch' tick_ready' controls_closed' data_closed' o3 = Some (Continue [Answer rq reply] o4))"
proof -
  obtain more where more: "o_data o3 = rq # rest @ more" "data_due o3"
    using reserved_run_due [OF assms(4)] overtaken_due [OF assms(1)] assms(2,3) by auto
  obtain ev s' where ex: "execute_local alloc' (o_shard o3) rq now' = Some (ev, s')"
    using execute_local_total [OF assms(6-8)] by (metis surj_pair)
  then obtain reply where "ev = Answer rq reply" using execute_local_effect [OF assms(6,7) ex] by blast
  then show ?thesis
    using ex more assms(5) by (cases "o_data_turn o3") (auto simp: data_due_def owner_top_def owner_select_def)
qed

theorem queued_work_not_starved_witness:
  "\<exists>o2 o3 reply o4. owner_select granting 20 64 False False False
       \<lparr>o_shard = leased_shard, o_reservation = None, o_stopping = False, o_data_turn = False,
        o_data = [\<lparr>rq_client = 1, rq_operation = Get ''k'', rq_credit = 385\<rparr>], o_controls = [Reserve 3, Release 3, Stats 9]\<rparr>
       = Some (Continue [Complete Done] o2) \<and>
     owner_select granting 21 64 True False False o2 = Some (Continue [Complete Done] o3) \<and>
     owner_top granting 22 o3 = Some ([Answer \<lparr>rq_client = 1, rq_operation = Get ''k'', rq_credit = 385\<rparr> reply], o4) \<and>
     o_data o4 = [] \<and> o_controls o3 = [Stats 9]"
proof -
  let ?rq = "\<lparr>rq_client = 1, rq_operation = Get ''k'', rq_credit = 385\<rparr>"
  let ?o = "\<lparr>o_shard = leased_shard, o_reservation = None, o_stopping = False, o_data_turn = False,
        o_data = [?rq], o_controls = [Reserve 3, Release 3, Stats 9]\<rparr>"
  let ?o2 = "?o\<lparr>o_controls := [Release 3, Stats 9], o_reservation := Some \<lparr>rv_id = 3, rv_prepared = None\<rparr>\<rparr>"
  let ?o3 = "?o\<lparr>o_controls := [Stats 9], o_data_turn := True\<rparr>"
  have sel: "owner_select granting 20 64 False False False ?o = Some (Continue [Complete Done] ?o2)"
    and sel2: "owner_select granting 21 64 True False False ?o2 = Some (Continue [Complete Done] ?o3)"
    by (simp_all add: owner_select_def)
  have run: "reserved_run ?o2 ?o3" by (rule reserved_run.turn [OF reserved_run.start _ sel2]) simp
  have "revision leased_shard < u64_max" by code_simp
  then obtain reply o4 more where "o_data o4 = [] @ more"
    "owner_top granting 22 ?o3 = Some ([Answer ?rq reply], o4) \<or> owner_top granting 22 ?o3 = Some ([], ?o3) \<and>
       owner_select granting 22 64 False False False ?o3 = Some (Continue [Answer ?rq reply] o4)"
    using queued_work_not_starved [OF sel _ _ run, of ?rq "[]" tiny granting 22 64 False False False]
    by (auto simp: leased_reach keys_fit_def i64_max_def)
  then have "owner_top granting 22 ?o3 = Some ([Answer ?rq reply], o4)" "o_data o4 = []"
    by (auto simp: owner_top_def split: Option.bind_splits)
  then show ?thesis using sel sel2 by (intro exI [of _ ?o2] exI [of _ ?o3]) auto
qed

end
