(* ===== verification/Cross_Owner.thy ===== *)
theory Cross_Owner
  imports Owner_Loop
begin

section \<open>Routing, splitting and combining (crates/recall-server/src/engine.rs)\<close>

text \<open>
  A key belongs to the owner its hash selects. A command over keys of several owners is split into
  one part per owner, in ascending owner order; the parts' replies are combined. The hash function
  of \<open>RandomState\<close> is the parameter \<open>hash\<close>: nothing is assumed of it.
\<close>

subsection \<open>Definitions\<close>

type_synonym hasher = "bytes \<Rightarrow> nat"

definition route :: "hasher \<Rightarrow> nat \<Rightarrow> bytes \<Rightarrow> nat" where
  "route hash owners key = hash key mod owners"

record Part =
  pt_owner :: nat
  pt_operation :: Operation
  pt_positions :: "nat list"

text \<open>\<open>groups.entry(owner).or_default().push(x)\<close> on a \<open>BTreeMap\<close>, kept as a list sorted by key.\<close>

fun btree_push :: "nat \<Rightarrow> 'a \<Rightarrow> (nat \<times> 'a list) list \<Rightarrow> (nat \<times> 'a list) list" where
  "btree_push owner x [] = [(owner, [x])]"
| "btree_push owner x ((i, xs) # rest) =
     (if owner = i then (i, xs @ [x]) # rest
      else if owner < i then (owner, [x]) # (i, xs) # rest
      else (i, xs) # btree_push owner x rest)"

fun split_pairs :: "hasher \<Rightarrow> nat \<Rightarrow> (bytes \<times> bytes) list \<Rightarrow> (nat \<times> (bytes \<times> bytes) list) list \<Rightarrow>
    (nat \<times> (bytes \<times> bytes) list) list" where
  "split_pairs hash owners [] groups = groups"
| "split_pairs hash owners ((key, value) # pairs) groups =
     split_pairs hash owners pairs (btree_push (route hash owners key) (key, value) groups)"

fun split_keys :: "hasher \<Rightarrow> nat \<Rightarrow> nat \<Rightarrow> bytes list \<Rightarrow> (nat \<times> (bytes \<times> nat) list) list \<Rightarrow>
    (nat \<times> (bytes \<times> nat) list) list" where
  "split_keys hash owners index [] groups = groups"
| "split_keys hash owners index (key # keys) groups =
     split_keys hash owners (index + 1) keys (btree_push (route hash owners key) (key, index) groups)"

definition pair_parts :: "hasher \<Rightarrow> nat \<Rightarrow> (bytes \<times> bytes) list \<Rightarrow> Part list" where
  "pair_parts hash owners pairs =
     map (\<lambda>(owner, group). \<lparr>pt_owner = owner, pt_operation = MultiSet group, pt_positions = []\<rparr>)
       (split_pairs hash owners pairs [])"

definition key_parts :: "(bytes list \<Rightarrow> Operation) \<Rightarrow> hasher \<Rightarrow> nat \<Rightarrow> bytes list \<Rightarrow> Part list" where
  "key_parts mk hash owners keys =
     map (\<lambda>(owner, group). \<lparr>pt_owner = owner, pt_operation = mk (map fst group), pt_positions = map snd group\<rparr>)
       (split_keys hash owners 0 keys [])"

fun split :: "Operation \<Rightarrow> hasher \<Rightarrow> nat \<Rightarrow> Part list option" where
  "split (MultiSet pairs) hash owners = Some (pair_parts hash owners pairs)"
| "split (Delete keys) hash owners = Some (key_parts Delete hash owners keys)"
| "split (Exists keys) hash owners = Some (key_parts Exists hash owners keys)"
| "split (MultiGet keys) hash owners = Some (key_parts MultiGet hash owners keys)"
| "split _ hash owners = None"

text \<open>\<open>response[position] = value\<close> over the positions of one part.\<close>

fun place :: "nat list \<Rightarrow> Reply list \<Rightarrow> Reply list \<Rightarrow> Reply list option" where
  "place (p # ps) (v # vs) response =
     (if p < length response then place ps vs (response[p := v]) else None)"
| "place _ _ response = Some response"

fun combine_gets :: "Part list \<Rightarrow> Reply list \<Rightarrow> Reply list \<Rightarrow> Reply list option" where
  "combine_gets (part # parts) (result # results) response =
     (case result of
        Array vs \<Rightarrow>
          if length (pt_positions part) \<noteq> length vs then None
          else do {
            response' \<leftarrow> place (pt_positions part) vs response;
            combine_gets parts results response'
          }
      | _ \<Rightarrow> None)"
| "combine_gets _ _ response = Some response"

fun sum_integers :: "int \<Rightarrow> Reply list \<Rightarrow> int option" where
  "sum_integers acc [] = Some acc"
| "sum_integers acc (Integer n # results) = do {
     acc' \<leftarrow> i64_checked_add acc n;
     sum_integers acc' results
   }"
| "sum_integers acc (_ # results) = None"

fun combine :: "Operation \<Rightarrow> Part list \<Rightarrow> Reply list \<Rightarrow> Reply option" where
  "combine (MultiSet _) parts results = Some Reply_ok"
| "combine (MultiGet keys) parts results =
     map_option Array (combine_gets parts results (replicate (length keys) (Bulk None)))"
| "combine (Delete _) parts results = map_option Integer (sum_integers 0 results)"
| "combine (Exists _) parts results = map_option Integer (sum_integers 0 results)"
| "combine _ parts results = None"

subsection \<open>The groups\<close>

text \<open>A sorted grouping: ascending owners, and each group is the items routed to its owner, in order.\<close>

definition grouped :: "('a \<Rightarrow> nat) \<Rightarrow> 'a list \<Rightarrow> (nat \<times> 'a list) list \<Rightarrow> bool" where
  "grouped f xs gs \<longleftrightarrow> sorted_wrt (<) (map fst gs) \<and> fst ` set gs = f ` set xs \<and>
     (\<forall>(i, ys) \<in> set gs. ys = filter (\<lambda>x. f x = i) xs)"

lemma btree_push_fst: "fst ` set (btree_push i x gs) = insert i (fst ` set gs)"
  by (induction i x gs rule: btree_push.induct) auto

lemma btree_push_sorted: "sorted_wrt (<) (map fst gs) \<Longrightarrow> sorted_wrt (<) (map fst (btree_push i x gs))"
proof (induction i x gs rule: btree_push.induct)
  case (2 owner x i xs rest)
  have "fst ` set (btree_push owner x rest) = insert owner (fst ` set rest)" by (rule btree_push_fst)
  then show ?case using 2 by (auto simp: image_iff)
qed simp

lemma btree_push_mem:
  assumes "sorted_wrt (<) (map fst gs)"
  shows "(j, ys) \<in> set (btree_push i x gs) \<longleftrightarrow>
    (if j = i then ys = (case map_of gs i of None \<Rightarrow> [] | Some zs \<Rightarrow> zs) @ [x] else (j, ys) \<in> set gs)"
  using assms
proof (induction i x gs rule: btree_push.induct)
  case (2 owner x i xs rest)
  have fresh: "map_of rest i = None" "\<And>k. k \<le> i \<Longrightarrow> map_of rest k = None"
    using 2(2) by (auto simp: map_of_eq_None_iff)
  have notin: "(k, zs) \<notin> set rest" if "k \<le> i" for k zs
    using 2(2) that by fastforce
  show ?case
    using 2 fresh notin by auto
qed auto

lemma grouped_push:
  assumes "grouped f xs gs"
  shows "grouped f (xs @ [x]) (btree_push (f x) x gs)"
proof -
  have srt: "sorted_wrt (<) (map fst gs)" and fs: "fst ` set gs = f ` set xs"
    and gr: "\<And>i ys. (i, ys) \<in> set gs \<Longrightarrow> ys = filter (\<lambda>x. f x = i) xs"
    using assms by (auto simp: grouped_def)
  have "distinct (map fst gs)" using srt strict_sorted_iff by blast
  then have look: "map_of gs i = Some ys \<longleftrightarrow> (i, ys) \<in> set gs" for i ys by simp
  have old: "(case map_of gs (f x) of None \<Rightarrow> [] | Some zs \<Rightarrow> zs) = filter (\<lambda>y. f y = f x) xs"
  proof (cases "map_of gs (f x)")
    case None
    then have "f x \<notin> f ` set xs" using fs by (metis map_of_eq_None_iff)
    then have "filter (\<lambda>y. f y = f x) xs = []" unfolding filter_empty_conv by (metis imageI)
    then show ?thesis using None by simp
  next
    case (Some zs)
    then have "zs = filter (\<lambda>y. f y = f x) xs" using gr look by blast
    then show ?thesis using Some by simp
  qed
  have "ys = filter (\<lambda>y. f y = i) (xs @ [x])" if "(i, ys) \<in> set (btree_push (f x) x gs)" for i ys
    using that gr old btree_push_mem [OF srt, of i ys "f x" x] by (auto split: if_splits)
  then show ?thesis
    using btree_push_sorted [OF srt] btree_push_fst [of "f x" x gs] fs by (auto simp: grouped_def)
qed

lemma grouped_Nil: "grouped f [] []"
  by (simp add: grouped_def)

lemma split_pairs_grouped:
  "grouped (\<lambda>kv. route hash n (fst kv)) xs gs \<Longrightarrow>
   grouped (\<lambda>kv. route hash n (fst kv)) (xs @ pairs) (split_pairs hash n pairs gs)"
proof (induction pairs arbitrary: xs gs)
  case (Cons kv pairs)
  obtain k v where kv: "kv = (k, v)" by (cases kv)
  show ?case using Cons.IH [OF grouped_push [OF Cons.prems, of kv]] by (simp add: kv)
qed simp

lemma zip_index_Cons:
  "zip (k # keys) [i..<i + length (k # keys)] = (k, i) # zip keys [Suc i..<Suc i + length keys]"
  by (simp add: upt_conv_Cons del: upt_Suc)

lemma split_keys_grouped:
  "grouped (\<lambda>ki. route hash n (fst ki)) xs gs \<Longrightarrow>
   grouped (\<lambda>ki. route hash n (fst ki)) (xs @ zip keys [i..<i + length keys]) (split_keys hash n i keys gs)"
proof (induction keys arbitrary: xs gs i)
  case (Cons k keys)
  show ?case
    using Cons.IH [OF grouped_push [OF Cons.prems, of "(k, i)"], of "Suc i"]
    unfolding zip_index_Cons by simp
qed simp

text \<open>The parts of a splittable command.\<close>

definition parts_ok :: "hasher \<Rightarrow> nat \<Rightarrow> Operation \<Rightarrow> Part list \<Rightarrow> bool" where
  "parts_ok hash n op parts \<longleftrightarrow> sorted_wrt (<) (map pt_owner parts) \<and>
     set (map pt_owner parts) = route hash n ` set (Operation_keys op) \<and>
     (\<forall>part \<in> set parts.
        Operation_keys (pt_operation part) = filter (\<lambda>k. route hash n k = pt_owner part) (Operation_keys op))"

lemma zip_filter_fst:
  "map fst (filter (\<lambda>ki. P (fst ki)) (zip keys [i..<i + length keys])) = filter P keys"
proof (induction keys arbitrary: i)
  case (Cons k keys)
  show ?case using Cons.IH [of "Suc i"] unfolding zip_index_Cons by (simp del: upt_Suc)
qed simp

lemma zip_index_fst: "fst ` set (zip keys [i..<i + length keys]) = set keys"
proof -
  have "map fst (zip keys [i..<i + length keys]) = keys" by (simp add: map_fst_zip)
  then show ?thesis by (metis list.set_map)
qed

lemma key_parts_shape:
  shows "sorted_wrt (<) (map pt_owner (key_parts mk hash n keys))"
    and "set (map pt_owner (key_parts mk hash n keys)) = route hash n ` set keys"
    and "part \<in> set (key_parts mk hash n keys) \<Longrightarrow>
      pt_operation part = mk (filter (\<lambda>k. route hash n k = pt_owner part) keys) \<and>
      pt_positions part = map snd (filter (\<lambda>ki. route hash n (fst ki) = pt_owner part) (zip keys [0..<length keys]))"
proof -
  let ?gs = "split_keys hash n 0 keys []" and ?zs = "zip keys [0..<length keys]"
  have g: "grouped (\<lambda>ki. route hash n (fst ki)) ?zs ?gs"
    using split_keys_grouped [OF grouped_Nil, of hash n keys 0] by simp
  have own: "map pt_owner (key_parts mk hash n keys) = map fst ?gs"
    by (simp add: key_parts_def split_def comp_def)
  show "sorted_wrt (<) (map pt_owner (key_parts mk hash n keys))"
    using g unfolding own by (simp add: grouped_def)
  show "set (map pt_owner (key_parts mk hash n keys)) = route hash n ` set keys"
    using g zip_index_fst [of keys 0] unfolding own by (auto simp: grouped_def image_image) (metis image_eqI image_image)+
  assume "part \<in> set (key_parts mk hash n keys)"
  then obtain i grp where ig: "(i, grp) \<in> set ?gs"
    "part = \<lparr>pt_owner = i, pt_operation = mk (map fst grp), pt_positions = map snd grp\<rparr>"
    by (auto simp: key_parts_def)
  then have "grp = filter (\<lambda>ki. route hash n (fst ki) = i) ?zs" using g by (auto simp: grouped_def)
  then show "pt_operation part = mk (filter (\<lambda>k. route hash n k = pt_owner part) keys) \<and>
      pt_positions part = map snd (filter (\<lambda>ki. route hash n (fst ki) = pt_owner part) ?zs)"
    using ig(2) zip_filter_fst [of "\<lambda>k. route hash n k = i" keys 0] by simp
qed

lemma pair_parts_shape:
  shows "sorted_wrt (<) (map pt_owner (pair_parts hash n pairs))"
    and "set (map pt_owner (pair_parts hash n pairs)) = route hash n ` fst ` set pairs"
    and "part \<in> set (pair_parts hash n pairs) \<Longrightarrow>
      pt_operation part = MultiSet (filter (\<lambda>kv. route hash n (fst kv) = pt_owner part) pairs)"
proof -
  let ?gs = "split_pairs hash n pairs []"
  have g: "grouped (\<lambda>kv. route hash n (fst kv)) pairs ?gs"
    using split_pairs_grouped [OF grouped_Nil, of hash n pairs] by simp
  have own: "map pt_owner (pair_parts hash n pairs) = map fst ?gs" by (simp add: pair_parts_def split_def comp_def)
  show "sorted_wrt (<) (map pt_owner (pair_parts hash n pairs))" using g unfolding own by (simp add: grouped_def)
  show "set (map pt_owner (pair_parts hash n pairs)) = route hash n ` fst ` set pairs"
    using g unfolding own by (auto simp: grouped_def image_image)
  assume "part \<in> set (pair_parts hash n pairs)"
  then show "pt_operation part = MultiSet (filter (\<lambda>kv. route hash n (fst kv) = pt_owner part) pairs)"
    using g by (auto simp: pair_parts_def grouped_def)
qed

lemma split_parts_ok:
  assumes "split op hash n = Some parts"
  shows "parts_ok hash n op parts"
proof (cases op)
  case (MultiSet pairs)
  then show ?thesis
    using assms pair_parts_shape [where hash = hash and n = n and pairs = pairs]
    by (auto simp: parts_ok_def image_image filter_map comp_def)
next
  case (Delete keys)
  then show ?thesis
    using assms key_parts_shape [where mk = Delete and hash = hash and n = n and keys = keys]
    by (auto simp: parts_ok_def)
next
  case (Exists keys)
  then show ?thesis
    using assms key_parts_shape [where mk = Exists and hash = hash and n = n and keys = keys]
    by (auto simp: parts_ok_def)
next
  case (MultiGet keys)
  then show ?thesis
    using assms key_parts_shape [where mk = MultiGet and hash = hash and n = n and keys = keys]
    by (auto simp: parts_ok_def)
qed (use assms in simp_all)

subsection \<open>The combined reply is the reply of the whole command\<close>

definition spec_out :: "int \<Rightarrow> keyspace \<Rightarrow> Operation \<Rightarrow> Reply \<times> keyspace" where
  "spec_out now m op = projr (spec_op now m op)"

lemma sum_fibers:
  assumes "distinct os" and "finite K" and "f ` K \<subseteq> set os"
  shows "sum_list (map (\<lambda>i. card {k \<in> K. f k = i}) os) = card K"
proof -
  have "(\<Sum>i \<in> set os. \<Sum>k | k \<in> K \<and> f k = i. (1::nat)) = (\<Sum>k \<in> K. 1)"
    using assms by (intro sum.group) auto
  then show ?thesis using assms(1) by (simp add: sum_list_distinct_conv_sum_set)
qed

lemma sum_integers_ok:
  assumes "0 \<le> acc" and "\<And>p. p \<in> set ps \<Longrightarrow> 0 \<le> g p" and "acc + sum_list (map g ps) \<le> i64_max"
  shows "sum_integers acc (map (\<lambda>p. Integer (g p)) ps) = Some (acc + sum_list (map g ps))"
  using assms
proof (induction ps arbitrary: acc)
  case (Cons p ps)
  have "0 \<le> sum_list (map g ps)" using Cons.prems(2) by (intro sum_list_nonneg) auto
  then have "i64_checked_add acc (g p) = Some (acc + g p)"
    using Cons.prems(1,3) Cons.prems(2) [of p] by (simp add: i64_checked_add_def in_i64_def i64_min_def)
  then show ?case using Cons.IH [of "acc + g p"] Cons.prems by (simp add: add.assoc)
qed simp

lemma place_ok:
  assumes "\<And>k i. (k, i) \<in> set zs \<Longrightarrow> i < length resp \<and> keys ! i = k"
  shows "\<exists>resp'. place (map snd zs) (map (\<lambda>ki. g (fst ki)) zs) resp = Some resp' \<and> length resp' = length resp \<and>
    (\<forall>i < length resp. resp' ! i = (if i \<in> snd ` set zs then g (keys ! i) else resp ! i))"
  using assms
proof (induction zs arbitrary: resp)
  case (Cons z zs)
  obtain k i where z: "z = (k, i)" by (cases z)
  have i: "i < length resp" "keys ! i = k" using Cons.prems [of k i] z by simp_all
  have "\<And>k' i'. (k', i') \<in> set zs \<Longrightarrow> i' < length (resp[i := g k]) \<and> keys ! i' = k'"
    using Cons.prems by (metis length_list_update list.set_intros(2))
  then obtain resp' where resp': "place (map snd zs) (map (\<lambda>ki. g (fst ki)) zs) (resp[i := g k]) = Some resp'"
    "length resp' = length resp"
    "\<forall>j < length resp. resp' ! j = (if j \<in> snd ` set zs then g (keys ! j) else resp[i := g k] ! j)"
    using Cons.IH [of "resp[i := g k]"] by auto
  then show ?case using i z by (intro exI [of _ resp']) (auto simp: nth_list_update)
qed simp

lemma combine_gets_ok:
  assumes "\<And>part. part \<in> set parts \<Longrightarrow> pt_operation part = MultiGet (filter (\<lambda>k. route hash n k = pt_owner part) keys) \<and>
      pt_positions part = map snd (filter (\<lambda>ki. route hash n (fst ki) = pt_owner part) (zip keys [0..<length keys]))"
    and "length resp = length keys"
  shows "\<exists>resp'. combine_gets parts (map (\<lambda>p. fst (spec_out now m (pt_operation p))) parts) resp = Some resp' \<and>
    length resp' = length keys \<and>
    (\<forall>i < length keys. resp' ! i =
      (if route hash n (keys ! i) \<in> set (map pt_owner parts) then spec_bulk m (keys ! i) else resp ! i))"
  using assms
proof (induction parts arbitrary: resp)
  case (Cons part parts)
  let ?zs = "filter (\<lambda>ki. route hash n (fst ki) = pt_owner part) (zip keys [0..<length keys])"
  have part: "pt_operation part = MultiGet (map fst ?zs)" "pt_positions part = map snd ?zs"
    using Cons.prems(1) [of part] zip_filter_fst [of "\<lambda>k. route hash n k = pt_owner part" keys 0] by simp_all
  have zs: "i < length resp \<and> keys ! i = k" if "(k, i) \<in> set ?zs" for k i
    using that Cons.prems(2) by (auto simp: set_zip)
  obtain resp1 where resp1: "place (map snd ?zs) (map (\<lambda>ki. spec_bulk m (fst ki)) ?zs) resp = Some resp1"
    "length resp1 = length resp"
    "\<forall>i < length resp. resp1 ! i = (if i \<in> snd ` set ?zs then spec_bulk m (keys ! i) else resp ! i)"
    using place_ok [of ?zs resp keys "spec_bulk m"] zs by blast
  have mem: "i \<in> snd ` set ?zs \<longleftrightarrow> route hash n (keys ! i) = pt_owner part" if "i < length keys" for i
    using that by (force simp: set_zip image_iff)
  obtain resp' where resp': "combine_gets parts (map (\<lambda>p. fst (spec_out now m (pt_operation p))) parts) resp1 = Some resp'"
    "length resp' = length keys"
    "\<forall>i < length keys. resp' ! i =
      (if route hash n (keys ! i) \<in> set (map pt_owner parts) then spec_bulk m (keys ! i) else resp1 ! i)"
    using Cons.IH [of resp1] Cons.prems resp1(2) by auto
  have "fst (spec_out now m (pt_operation part)) = Array (map (\<lambda>ki. spec_bulk m (fst ki)) ?zs)"
    using part(1) by (simp add: spec_out_def comp_def)
  then show ?case
    using resp' resp1 part(2) mem Cons.prems(2) by (intro exI [of _ resp']) (auto simp: comp_def)
qed simp

lemma parts_distinct: "parts_ok hash n op parts \<Longrightarrow> distinct (map pt_owner parts)"
  using strict_sorted_iff by (auto simp: parts_ok_def)

lemma sum_list_int: "sum_list (map (\<lambda>x. int (f x)) xs) = int (sum_list (map f xs))"
  by (induction xs) simp_all

lemma combine_counts:
  assumes own: "distinct (map pt_owner parts)" and fib: "f ` K \<subseteq> set (map pt_owner parts)" and fin: "finite K"
    and g: "\<And>p. p \<in> set parts \<Longrightarrow> fst (spec_out now m (pt_operation p)) = Integer (int (card {k \<in> K. f k = pt_owner p}))"
    and le: "int (card K) \<le> i64_max"
  shows "sum_integers 0 (map (\<lambda>p. fst (spec_out now m (pt_operation p))) parts) = Some (int (card K))"
proof -
  have sum: "sum_list (map (\<lambda>p. int (card {k \<in> K. f k = pt_owner p})) parts) = int (card K)"
    using sum_fibers [OF own fin fib] by (simp add: sum_list_int comp_def)
  have eq: "map (\<lambda>p. fst (spec_out now m (pt_operation p))) parts =
      map (\<lambda>p. Integer (int (card {k \<in> K. f k = pt_owner p}))) parts"
    using g by simp
  show ?thesis
    unfolding eq using sum_integers_ok [of 0 parts "\<lambda>p. int (card {k \<in> K. f k = pt_owner p})"] sum le by simp
qed

lemma combine_spec:
  assumes split: "split op hash n = Some parts" and le: "int (length (Operation_keys op)) \<le> i64_max"
  shows "combine op parts (map (\<lambda>p. fst (spec_out now m (pt_operation p))) parts) = Some (fst (spec_out now m op))"
proof (cases op)
  case (MultiSet pairs)
  then show ?thesis by (simp add: spec_out_def)
next
  case (MultiGet keys)
  have parts: "parts = key_parts MultiGet hash n keys" using split MultiGet by simp
  obtain resp where resp: "combine_gets parts (map (\<lambda>p. fst (spec_out now m (pt_operation p))) parts)
      (replicate (length keys) (Bulk None)) = Some resp" "length resp = length keys"
    "\<forall>i < length keys. resp ! i = (if route hash n (keys ! i) \<in> set (map pt_owner parts)
      then spec_bulk m (keys ! i) else replicate (length keys) (Bulk None) ! i)"
    using combine_gets_ok [of parts hash n keys "replicate (length keys) (Bulk None)" now m]
      key_parts_shape(3) [where mk = MultiGet and hash = hash and n = n and keys = keys] parts by auto
  have "resp = map (spec_bulk m) keys"
    using resp(2,3) key_parts_shape(2) [of MultiGet hash n keys] parts by (intro nth_equalityI) auto
  then show ?thesis using MultiGet resp(1) by (simp add: spec_out_def)
next
  case (Delete keys)
  have parts: "parts = key_parts Delete hash n keys" using split Delete by simp
  let ?K = "{k \<in> set keys. m k \<noteq> None}"
  note pok = split_parts_ok [OF split]
  have "sum_integers 0 (map (\<lambda>p. fst (spec_out now m (pt_operation p))) parts) = Some (int (card ?K))"
  proof (rule combine_counts [OF parts_distinct [OF pok], of "route hash n"])
    show "route hash n ` ?K \<subseteq> set (map pt_owner parts)" using pok Delete by (auto simp: parts_ok_def)
    have "card ?K \<le> length keys"
      using card_mono [of "set keys" ?K] card_length [of keys] by (simp add: le_trans)
    then show "int (card ?K) \<le> i64_max" using le Delete by simp
    fix p assume "p \<in> set parts"
    then have "pt_operation p = Delete (filter (\<lambda>k. route hash n k = pt_owner p) keys)"
      using key_parts_shape(3) parts by blast
    moreover have "{k \<in> set (filter (\<lambda>k. route hash n k = pt_owner p) keys). m k \<noteq> None} =
        {k \<in> ?K. route hash n k = pt_owner p}" by auto
    ultimately show "fst (spec_out now m (pt_operation p)) = Integer (int (card {k \<in> ?K. route hash n k = pt_owner p}))"
      by (simp add: spec_out_def flip: card_filter_remdups)
  qed simp
  then show ?thesis using Delete by (simp add: spec_out_def card_filter_remdups)
next
  case (Exists keys)
  have parts: "parts = key_parts Exists hash n keys" using split Exists by simp
  let ?K = "{i. i < length keys \<and> m (keys ! i) \<noteq> None}"
  have cK: "card ?K = length (filter (\<lambda>k. m k \<noteq> None) keys)" by (simp add: length_filter_conv_card)
  note pok = split_parts_ok [OF split]
  have "sum_integers 0 (map (\<lambda>p. fst (spec_out now m (pt_operation p))) parts) = Some (int (card ?K))"
  proof (rule combine_counts [OF parts_distinct [OF pok], of "\<lambda>i. route hash n (keys ! i)"])
    show "(\<lambda>i. route hash n (keys ! i)) ` ?K \<subseteq> set (map pt_owner parts)"
      using pok Exists by (auto simp: parts_ok_def)
    have "card ?K \<le> length keys" unfolding cK by (rule length_filter_le)
    then show "int (card ?K) \<le> i64_max" using le Exists by simp
    fix p assume "p \<in> set parts"
    then have "pt_operation p = Exists (filter (\<lambda>k. route hash n k = pt_owner p) keys)"
      using key_parts_shape(3) parts by blast
    moreover have "length (filter (\<lambda>k. m k \<noteq> None) (filter (\<lambda>k. route hash n k = pt_owner p) keys)) =
        card {i \<in> ?K. route hash n (keys ! i) = pt_owner p}"
      by (simp add: length_filter_conv_card) (rule arg_cong [where f = card], auto)
    ultimately show "fst (spec_out now m (pt_operation p)) =
        Integer (int (card {i \<in> ?K. route hash n (keys ! i) = pt_owner p}))"
      by (simp add: spec_out_def)
  qed simp
  then show ?thesis using Exists cK by (simp add: spec_out_def)
qed (use split in simp_all)

subsection \<open>Commands are local to their keys\<close>

lemma spec_op_local:
  assumes eq: "\<And>k. k \<in> set (Operation_keys op) \<Longrightarrow> m2 k = m k"
  shows "case spec_op now m op of
      Inl e \<Rightarrow> spec_op now m2 op = Inl e
    | Inr (r, m') \<Rightarrow> \<exists>m2'. spec_op now m2 op = Inr (r, m2') \<and> (\<forall>k \<in> set (Operation_keys op). m2' k = m' k)"
proof (cases op)
  case (Set k v c x)
  then show ?thesis using eq by (auto simp: spec_set_def split: Expiry.splits)
next
  case (Increment k n b)
  then show ?thesis using eq by (auto simp: spec_increment_def Let_def split: sum.splits option.splits)
next
  case (Delete ks)
  have "filter (\<lambda>k. m2 k \<noteq> None) (remdups ks) = filter (\<lambda>k. m k \<noteq> None) (remdups ks)"
    using eq Delete by (intro filter_cong) auto
  then show ?thesis using Delete by simp
next
  case (Exists ks)
  have "filter (\<lambda>k. m2 k \<noteq> None) ks = filter (\<lambda>k. m k \<noteq> None) ks"
    using eq Exists by (intro filter_cong) auto
  then show ?thesis using eq Exists by simp
next
  case (MultiSet kvs)
  then show ?thesis using eq by (auto simp: map_add_def split: option.splits)
next
  case (Expire k ms)
  then show ?thesis using eq by (auto simp: spec_expire_def split: option.splits)
next
  case (Persist k)
  then show ?thesis using eq by (auto simp: spec_persist_def split: option.splits)
qed (use eq in \<open>auto simp: spec_bulk_def spec_ttl_def split: option.splits\<close>)

lemma live_cong: "m2 k = m k \<Longrightarrow> live now m2 k = live now m k"
  by (simp add: live_def)

lemma ran_local:
  assumes ran: "ran now op m r m'" and eq: "\<And>k. k \<in> set (Operation_keys op) \<Longrightarrow> M k = m k"
  shows "ran now op M r (\<lambda>k. if k \<in> set (Operation_keys op) then m' k else M k)"
proof -
  obtain mm where mm: "spec_op now (live now m) op = Inr (r, mm)" "m' = after_op m op mm"
    using ran by (auto simp: ran_def)
  obtain MM where MM: "spec_op now (live now M) op = Inr (r, MM)" "\<forall>k \<in> set (Operation_keys op). MM k = mm k"
    using spec_op_local [of op "live now M" "live now m" now] eq live_cong [of M _ m now] mm(1) by auto
  have "(\<lambda>k. if k \<in> set (Operation_keys op) then m' k else M k) = after_op M op MM"
    using MM(2) mm(2) by (auto simp: after_op_def)
  then show ?thesis using MM(1) by (auto simp: ran_def)
qed

text \<open>What a part says of a key is what the whole command says of it.\<close>

lemma map_of_filter_key:
  "P k \<Longrightarrow> map_of (filter (\<lambda>kv. P (fst kv)) xs) k = map_of xs k"
  by (induction xs) auto

lemma split_state:
  assumes split: "split op hash n = Some parts" and part: "part \<in> set parts"
    and k: "k \<in> set (Operation_keys op)" "route hash n k = pt_owner part"
  shows "snd (spec_out now m (pt_operation part)) k = snd (spec_out now m op) k"
proof (cases op)
  case (MultiSet kvs)
  let ?e = "\<lambda>(k, v). (k, \<lparr>e_value = v, e_expires = None\<rparr>)"
  have p: "pt_operation part = MultiSet (filter (\<lambda>kv. route hash n (fst kv) = pt_owner part) kvs)"
    using split part MultiSet pair_parts_shape(3) by auto
  have "rev (map ?e (filter (\<lambda>kv. route hash n (fst kv) = pt_owner part) kvs)) =
      filter (\<lambda>kv. route hash n (fst kv) = pt_owner part) (rev (map ?e kvs))"
    by (simp add: rev_filter filter_map comp_def split_def rev_map)
  then have "map_of (rev (map ?e (filter (\<lambda>kv. route hash n (fst kv) = pt_owner part) kvs))) k = map_of (rev (map ?e kvs)) k"
    using map_of_filter_key [of "\<lambda>k. route hash n k = pt_owner part" k "rev (map ?e kvs)"] k(2) by simp
  then show ?thesis using MultiSet p by (simp add: spec_out_def map_add_def)
next
  case (Delete ks)
  then have "pt_operation part = Delete (filter (\<lambda>k. route hash n k = pt_owner part) ks)"
    using split part key_parts_shape(3) by auto
  then show ?thesis using Delete k by (simp add: spec_out_def)
next
  case (Exists ks)
  then have "pt_operation part = Exists (filter (\<lambda>k. route hash n k = pt_owner part) ks)"
    using split part key_parts_shape(3) by auto
  then show ?thesis using Exists by (simp add: spec_out_def)
next
  case (MultiGet ks)
  then have "pt_operation part = MultiGet (filter (\<lambda>k. route hash n k = pt_owner part) ks)"
    using split part key_parts_shape(3) by auto
  then show ?thesis using MultiGet by (simp add: spec_out_def)
qed (use split in simp_all)

lemma split_spec_total:
  assumes "split op hash n = Some parts"
  shows "spec_op now m op = Inr (spec_out now m op)"
  using assms by (cases op) (simp_all add: spec_out_def)

lemma part_spec_total:
  assumes "split op hash n = Some parts" and "part \<in> set parts"
  shows "\<exists>parts'. split (pt_operation part) hash n = Some parts'"
proof (cases op)
  case (MultiSet kvs)
  then show ?thesis using assms pair_parts_shape(3) by fastforce
next
  case (Delete ks)
  then show ?thesis using assms key_parts_shape(3) by fastforce
next
  case (Exists ks)
  then show ?thesis using assms key_parts_shape(3) by fastforce
next
  case (MultiGet ks)
  then show ?thesis using assms key_parts_shape(3) by fastforce
qed (use assms in simp_all)

text \<open>
  The parts of a command, each run on its owner's table at the same time, make the whole command run
  on the table the owners hold together; the parts' replies always combine.
\<close>

lemma spec_out_local:
  assumes "split op hash n = Some parts" and "\<And>k. k \<in> set (Operation_keys op) \<Longrightarrow> m2 k = m k"
  shows "fst (spec_out now m2 op) = fst (spec_out now m op)"
    and "k \<in> set (Operation_keys op) \<Longrightarrow> snd (spec_out now m2 op) k = snd (spec_out now m op) k"
  using spec_op_local [of op m2 m now] assms(2) split_spec_total [OF assms(1)]
  by (auto split: prod.splits)

lemma ran_split:
  assumes "split op hash n = Some parts"
  shows "ran now op m r m' \<longleftrightarrow> r = fst (spec_out now (live now m) op) \<and>
    m' = after_op m op (snd (spec_out now (live now m) op))"
  using split_spec_total [OF assms, of now "live now m"]
  by (cases "spec_out now (live now m) op") (auto simp: ran_def)

lemma part_of_key:
  assumes "split op hash n = Some parts" and "k \<in> set (Operation_keys op)"
  obtains j where "j < length parts" and "pt_owner (parts ! j) = route hash n k"
    and "k \<in> set (Operation_keys (pt_operation (parts ! j)))"
proof -
  have ok: "parts_ok hash n op parts" using split_parts_ok [OF assms(1)] .
  have "route hash n k \<in> pt_owner ` set parts" using ok assms(2) by (auto simp: parts_ok_def)
  then obtain j where j: "j < length parts" "pt_owner (parts ! j) = route hash n k"
    by (metis imageE in_set_conv_nth)
  have "Operation_keys (pt_operation (parts ! j)) = filter (\<lambda>k. route hash n k = pt_owner (parts ! j)) (Operation_keys op)"
    using ok j(1) nth_mem unfolding parts_ok_def by blast
  then show ?thesis using that [OF j] j(2) assms(2) by simp
qed

lemma part_key_routed:
  assumes "split op hash n = Some parts" and "j < length parts" and "k \<in> set (Operation_keys (pt_operation (parts ! j)))"
  shows "route hash n k = pt_owner (parts ! j)" and "k \<in> set (Operation_keys op)"
  using split_parts_ok [OF assms(1)] assms(2,3) nth_mem [OF assms(2)] by (auto simp: parts_ok_def)

lemma parts_ran:
  assumes split: "split op hash n = Some parts" and fit: "keys_fit op" and len: "length results = length parts"
    and ran: "\<And>j. j < length parts \<Longrightarrow>
      ran now (pt_operation (parts ! j)) (m (pt_owner (parts ! j))) (results ! j) (m' (pt_owner (parts ! j)))"
    and rest: "\<And>i. i \<notin> set (map pt_owner parts) \<Longrightarrow> m' i = m i"
  shows "\<exists>reply. combine op parts results = Some reply \<and>
    ran now op (\<lambda>k. m (route hash n k) k) reply (\<lambda>k. m' (route hash n k) k)"
proof -
  let ?M = "\<lambda>k. m (route hash n k) k" and ?M' = "\<lambda>k. m' (route hash n k) k"
  have agree: "live now ?M k = live now (m (pt_owner (parts ! j))) k"
    if "j < length parts" "k \<in> set (Operation_keys (pt_operation (parts ! j)))" for j k
    using part_key_routed(1) [OF split that] by (auto intro: live_cong)
  have sub: "\<exists>ps. split (pt_operation (parts ! j)) hash n = Some ps" if "j < length parts" for j
    using part_spec_total [OF split] that by simp
  have res: "results ! j = fst (spec_out now (live now ?M) (pt_operation (parts ! j)))"
    and tab: "m' (pt_owner (parts ! j)) =
      after_op (m (pt_owner (parts ! j))) (pt_operation (parts ! j)) (snd (spec_out now (live now (m (pt_owner (parts ! j)))) (pt_operation (parts ! j))))"
    if j: "j < length parts" for j
  proof -
    obtain ps where ps: "split (pt_operation (parts ! j)) hash n = Some ps" using sub [OF j] by blast
    note r = ran [OF j, unfolded ran_split [OF ps]]
    show "results ! j = fst (spec_out now (live now ?M) (pt_operation (parts ! j)))"
      using r spec_out_local(1) [OF ps agree [OF j]] by simp
    show "m' (pt_owner (parts ! j)) =
      after_op (m (pt_owner (parts ! j))) (pt_operation (parts ! j)) (snd (spec_out now (live now (m (pt_owner (parts ! j)))) (pt_operation (parts ! j))))"
      using r by blast
  qed
  have "results = map (\<lambda>p. fst (spec_out now (live now ?M) (pt_operation p))) parts"
    using len res by (intro nth_equalityI) simp_all
  then have "combine op parts results = Some (fst (spec_out now (live now ?M) op))"
    using combine_spec [OF split] fit by (simp add: keys_fit_def)
  moreover have "?M' k = after_op ?M op (snd (spec_out now (live now ?M) op)) k" for k
  proof (cases "k \<in> set (Operation_keys op)")
    case True
    obtain j where j: "j < length parts" "pt_owner (parts ! j) = route hash n k"
      "k \<in> set (Operation_keys (pt_operation (parts ! j)))"
      using part_of_key [OF split True] .
    have "?M' k = snd (spec_out now (live now (m (pt_owner (parts ! j)))) (pt_operation (parts ! j))) k"
      using tab [OF j(1)] j(2,3) by (simp add: after_op_def)
    also have "\<dots> = snd (spec_out now (live now ?M) (pt_operation (parts ! j))) k"
    proof -
      obtain ps where ps: "split (pt_operation (parts ! j)) hash n = Some ps" using sub [OF j(1)] by blast
      show ?thesis by (rule spec_out_local(2) [OF ps agree [OF j(1)] j(3), symmetric])
    qed
    also have "\<dots> = snd (spec_out now (live now ?M) op) k"
      using split_state [OF split _ True] j by simp
    finally show ?thesis using True by (simp add: after_op_def)
  next
    case False
    have "m' (route hash n k) k = m (route hash n k) k"
    proof (cases "route hash n k \<in> set (map pt_owner parts)")
      case True
      then obtain j where j: "j < length parts" "pt_owner (parts ! j) = route hash n k"
        by (metis in_set_conv_nth length_map nth_map)
      then have "k \<notin> set (Operation_keys (pt_operation (parts ! j)))"
        using part_key_routed(2) [OF split] False by blast
      then show ?thesis using tab [OF j(1)] j(2) by (simp add: after_op_def)
    qed (use rest in simp)
    then show ?thesis using False by (simp add: after_op_def)
  qed
  ultimately show ?thesis using ran_split [OF split] by blast
qed

text \<open>
  Claim C13. Splitting a command over several owners and combining the replies is exact: if every part
  runs on its owner's table at one common time, then the replies combine without a failure, and the
  combined reply and the owners' tables taken together are those of the whole command run once on all
  keys, with the values of \<open>MGET\<close> in the order asked and \<open>DEL\<close> and \<open>EXISTS\<close> counted over all owners.
\<close>

theorem split_combine_exact:
  assumes "split op hash n = Some parts" and "keys_fit op" and "length results = length parts"
    and "\<And>j. j < length parts \<Longrightarrow>
      ran now (pt_operation (parts ! j)) (m (pt_owner (parts ! j))) (results ! j) (m' (pt_owner (parts ! j)))"
    and "\<And>i. i \<notin> set (map pt_owner parts) \<Longrightarrow> m' i = m i"
  shows "\<exists>reply. combine op parts results = Some reply \<and>
    ran now op (\<lambda>k. m (route hash n k) k) reply (\<lambda>k. m' (route hash n k) k)"
  by (rule parts_ran [OF assms])

lemma ran_read: "live now m = m \<Longrightarrow> spec_op now m op = Inr (r, m) \<Longrightarrow> ran now op m r m"
  by (auto simp: ran_def after_op_def)

theorem split_combine_exact_witness:
  "\<exists>reply. combine (MultiGet [''a'', ''bb'']) (key_parts MultiGet length 2 [''a'', ''bb''])
       [Array [Bulk (Some ''2'')], Array [Bulk (Some ''1'')]] = Some reply \<and>
     ran 0 (MultiGet [''a'', ''bb''])
       [''a'' \<mapsto> \<lparr>e_value = ''1'', e_expires = None\<rparr>, ''bb'' \<mapsto> \<lparr>e_value = ''2'', e_expires = None\<rparr>] reply
       [''a'' \<mapsto> \<lparr>e_value = ''1'', e_expires = None\<rparr>, ''bb'' \<mapsto> \<lparr>e_value = ''2'', e_expires = None\<rparr>]"
proof (rule split_combine_exact [where m = "\<lambda>i. [''a'' \<mapsto> \<lparr>e_value = ''1'', e_expires = None\<rparr>, ''bb'' \<mapsto> \<lparr>e_value = ''2'', e_expires = None\<rparr>]"
      and m' = "\<lambda>i. [''a'' \<mapsto> \<lparr>e_value = ''1'', e_expires = None\<rparr>, ''bb'' \<mapsto> \<lparr>e_value = ''2'', e_expires = None\<rparr>]" and hash = length and n = 2])
  show "split (MultiGet [''a'', ''bb'']) length 2 = Some (key_parts MultiGet length 2 [''a'', ''bb''])" by simp
  show "keys_fit (MultiGet [''a'', ''bb''])" by (simp add: keys_fit_def i64_max_def)
  let ?m = "[''a'' \<mapsto> \<lparr>e_value = ''1'', e_expires = None\<rparr>, ''bb'' \<mapsto> \<lparr>e_value = ''2'', e_expires = None\<rparr>]"
  have "live 0 ?m = ?m" by (auto simp: live_def due_def fun_eq_iff)
  then show "ran 0 (pt_operation (key_parts MultiGet length 2 [''a'', ''bb''] ! j)) ?m
      ([Array [Bulk (Some ''2'')], Array [Bulk (Some ''1'')]] ! j) ?m"
    if "j < length (key_parts MultiGet length 2 [''a'', ''bb''])" for j
    using that by (intro ran_read) (auto simp: key_parts_def route_def spec_bulk_def less_Suc_eq)
qed (simp_all add: key_parts_def route_def)

end
