(* ===== verification/Transition_System.thy ===== *)
theory Transition_System
  imports Main
begin

section \<open>Transition systems\<close>

text \<open>
  The concurrent parts of the program are step relations on a state. This theory holds what their
  correctness proofs share: reachable states, the interface of an invariant, and the interface of a
  bounded stock of resources that steps move around.
\<close>

lemma nth_list_update_if: "xs[i := x] ! j = (if i = j \<and> i < length xs then x else xs ! j)"
  by (cases "i < length xs") (auto simp: nth_list_update list_update_beyond)

inductive reach :: "('s \<Rightarrow> bool) \<Rightarrow> ('s \<Rightarrow> 's \<Rightarrow> bool) \<Rightarrow> 's \<Rightarrow> bool" for init step where
  start: "init s \<Longrightarrow> reach init step s"
| step: "reach init step s \<Longrightarrow> step s s' \<Longrightarrow> reach init step s'"

lemma reach_init: "reach init step s \<Longrightarrow> \<exists>s0. init s0"
  by (induction rule: reach.induct) blast+

lemma reach_steps: "step\<^sup>*\<^sup>* s s' \<Longrightarrow> reach init step s \<Longrightarrow> reach init step s'"
  by (induction rule: rtranclp_induct) (auto intro: reach.step)

text \<open>An inductive invariant.\<close>

locale invariant_system =
  fixes init :: "'s \<Rightarrow> bool" and step :: "'s \<Rightarrow> 's \<Rightarrow> bool" and inv :: "'s \<Rightarrow> bool"
  assumes inv_init: "init s \<Longrightarrow> inv s"
    and inv_step: "inv s \<Longrightarrow> step s s' \<Longrightarrow> inv s'"
begin

lemma reach_inv: "reach init step s \<Longrightarrow> inv s"
  by (induction rule: reach.induct) (auto intro: inv_init inv_step)

lemma steps_inv: "step\<^sup>*\<^sup>* s s' \<Longrightarrow> inv s \<Longrightarrow> inv s'"
  by (induction rule: rtranclp_induct) (auto intro: inv_step)

end

text \<open>A second invariant may use the first.\<close>

locale layered_invariant = invariant_system init step inv
  for init :: "'s \<Rightarrow> bool" and step :: "'s \<Rightarrow> 's \<Rightarrow> bool" and inv :: "'s \<Rightarrow> bool" +
  fixes inv2 :: "'s \<Rightarrow> bool"
  assumes inv2_init: "init s \<Longrightarrow> inv2 s"
    and inv2_step: "inv s \<Longrightarrow> inv2 s \<Longrightarrow> step s s' \<Longrightarrow> inv2 s'"

sublocale layered_invariant \<subseteq> both: invariant_system init step "\<lambda>s. inv s \<and> inv2 s"
  by unfold_locales (use inv_init inv_step inv2_init inv2_step in blast)+

text \<open>
  Steps that work something off: each lowers a rank. A run of such steps is no longer than the rank of
  its first state, and every state leads by them to one where no such step is left.
\<close>

locale ranked_system =
  fixes inv :: "'s \<Rightarrow> bool" and work :: "'s \<Rightarrow> 's \<Rightarrow> bool" and rank :: "'s \<Rightarrow> nat"
  assumes work_inv: "inv s \<Longrightarrow> work s s' \<Longrightarrow> inv s'"
    and work_rank: "inv s \<Longrightarrow> work s s' \<Longrightarrow> rank s' < rank s"
begin

lemma work_bound: "(work ^^ n) s s' \<Longrightarrow> inv s \<Longrightarrow> inv s' \<and> n + rank s' \<le> rank s"
proof (induction n arbitrary: s')
  case (Suc n)
  then obtain s1 where "(work ^^ n) s s1" "work s1 s'" by auto
  then show ?case using Suc.IH [of s1] Suc.prems(2) work_inv work_rank [of s1 s'] by fastforce
qed simp

lemma works_inv: "work\<^sup>*\<^sup>* s s' \<Longrightarrow> inv s \<Longrightarrow> inv s'"
  by (induction rule: rtranclp_induct) (auto intro: work_inv)

lemma work_settles: "inv s \<Longrightarrow> \<exists>s'. work\<^sup>*\<^sup>* s s' \<and> (\<nexists>s''. work s' s'')"
proof (induction "rank s" arbitrary: s rule: less_induct)
  case less
  show ?case
  proof (cases "\<exists>s1. work s s1")
    case True
    then obtain s1 where s1: "work s s1" by blast
    then show ?thesis
      using less.hyps [OF work_rank work_inv] less.prems by (meson converse_rtranclp_into_rtranclp)
  qed blast
qed

end

end
