(* ===== verification/Engine_System.thy ===== *)
theory Engine_System
  imports Cross_Owner Transition_System
begin

section \<open>The engine: owners, coordinator and clients (crates/recall-server/src/engine.rs)\<close>

text \<open>
  The owners and the coordinator run concurrently. A state of the engine holds every owner's state,
  the point the coordinator has reached in \<open>coordinate\<close> (its \<open>await\<close> points), the queues, the byte
  credits and the replies given so far. \<open>engine_step\<close> is the step relation: one turn of an owner, one
  step of the coordinator between two \<open>await\<close> points, one step of a client's admission, or one step
  of the shutdown, in any order, at any clock readings and with any answers of the allocator.
\<close>

subsection \<open>The coordinator\<close>

datatype Coordinator =
    Idle
  | Reserving DataRequest "Part list" nat
  | Preparing DataRequest "Part list" nat int "Reply list"
  | Applying DataRequest "Part list" nat Reply
  | Releasing DataRequest "Part list" nat Reply
  | Finished

text \<open>The control message for the part the coordinator has reached, with its owner.\<close>

definition coord_message :: "nat \<Rightarrow> Coordinator \<Rightarrow> (nat \<times> Control) option" where
  "coord_message tid c =
     (case c of
        Reserving rq parts k \<Rightarrow>
          if k < length parts then Some (pt_owner (parts ! k), Reserve tid) else None
      | Preparing rq parts k now_ms results \<Rightarrow>
          if k < length parts then Some (pt_owner (parts ! k), Prepare tid (pt_operation (parts ! k)) now_ms) else None
      | Applying rq parts k reply \<Rightarrow>
          if k < length parts then Some (pt_owner (parts ! k), Apply tid) else None
      | Releasing rq parts k response \<Rightarrow>
          if k < length parts then Some (pt_owner (parts ! k), Release tid) else None
      | _ \<Rightarrow> None)"

text \<open>The completion of that message has arrived. A failed preparation ends the phase.\<close>

fun coord_complete :: "Coordinator \<Rightarrow> Completion \<Rightarrow> Coordinator option" where
  "coord_complete (Reserving rq parts k) Done = Some (Reserving rq parts (k + 1))"
| "coord_complete (Preparing rq parts k now_ms results) (PreparedReply (Inr reply)) =
     Some (Preparing rq parts (k + 1) now_ms (results @ [reply]))"
| "coord_complete (Preparing rq parts k now_ms results) (PreparedReply (Inl failure)) =
     Some (Releasing rq parts 0 (EngineError_reply failure))"
| "coord_complete (Applying rq parts k reply) Done = Some (Applying rq parts (k + 1) reply)"
| "coord_complete (Releasing rq parts k response) Done = Some (Releasing rq parts (k + 1) response)"
| "coord_complete _ _ = None"

text \<open>All parts of a phase are done: read the clock, decide, or start to release.\<close>

fun coord_phase_end :: "nat \<Rightarrow> int \<Rightarrow> Coordinator \<Rightarrow> Coordinator option" where
  "coord_phase_end max_reply clock_now (Reserving rq parts k) = Some (Preparing rq parts 0 clock_now [])"
| "coord_phase_end max_reply clock_now (Preparing rq parts k now_ms results) = do {
     reply \<leftarrow> combine (rq_operation rq) parts results;
     if (case encoded_len reply of None \<Rightarrow> True | Some n \<Rightarrow> n > max_reply)
     then Some (Releasing rq parts 0 (Reply_error ''ERR response exceeds configured limit''))
     else Some (Applying rq parts 0 reply)
   }"
| "coord_phase_end max_reply clock_now (Applying rq parts k reply) = Some (Releasing rq parts 0 reply)"
| "coord_phase_end max_reply clock_now _ = None"

fun c_parts :: "Coordinator \<Rightarrow> Part list" where
  "c_parts (Reserving rq parts k) = parts"
| "c_parts (Preparing rq parts k now_ms results) = parts"
| "c_parts (Applying rq parts k reply) = parts"
| "c_parts (Releasing rq parts k response) = parts"
| "c_parts _ = []"

fun c_index :: "Coordinator \<Rightarrow> nat" where
  "c_index (Reserving rq parts k) = k"
| "c_index (Preparing rq parts k now_ms results) = k"
| "c_index (Applying rq parts k reply) = k"
| "c_index (Releasing rq parts k response) = k"
| "c_index _ = 0"

fun c_request :: "Coordinator \<Rightarrow> DataRequest list" where
  "c_request (Reserving rq parts k) = [rq]"
| "c_request (Preparing rq parts k now_ms results) = [rq]"
| "c_request (Applying rq parts k reply) = [rq]"
| "c_request (Releasing rq parts k response) = [rq]"
| "c_request _ = []"

subsection \<open>Admission\<close>

datatype Admission = Rejected Reply | Admitted "nat option" nat

text \<open>
  \<open>EngineHandle::execute\<close> up to its first \<open>await\<close>: where the command goes (\<open>None\<close> for the
  coordinator) and what it is charged.
\<close>

definition charge_of :: "Operation \<Rightarrow> nat" where
  "charge_of operation =
     usize_saturating_add
       (usize_saturating_add (Operation_payload_bytes operation)
         (usize_saturating_mul (length (Operation_keys operation)) 128))
       256"

definition admission :: "Config \<Rightarrow> hasher \<Rightarrow> bool \<Rightarrow> Operation \<Rightarrow> Admission" where
  "admission c hash closing operation =
     (if closing then Rejected (Reply_error ''BUSY Recall is shutting down'')
      else case Operation_keys operation of
             [] \<Rightarrow> Rejected (Reply_error ''ERR empty key set'')
           | first_key # _ \<Rightarrow>
               let first_owner = route hash (workers c) first_key;
                   single_owner = list_all (\<lambda>key. route hash (workers c) key = first_owner) (Operation_keys operation);
                   charge = charge_of operation
               in if charge > queue_bytes c \<or> charge > u32_max
                  then Rejected (Reply_error ''BUSY command exceeds queue byte capacity'')
                  else Admitted (if single_owner then Some first_owner else None) charge)"

subsection \<open>The state of the engine\<close>

datatype CrossRequest = CrossExecute DataRequest | CrossStop

record Engine =
  en_owners :: "OwnerState list"
  en_top :: "bool list"
  en_coord :: Coordinator
  en_awaiting :: bool
  en_completion :: "Completion option"
  en_next_id :: nat
  en_cross :: "CrossRequest list"
  en_cross_closed :: bool
  en_credits :: "nat list"
  en_cross_credits :: nat
  en_sending :: "(DataRequest \<times> nat option) list"
  en_closing :: bool
  en_stop_sent :: bool
  en_stopped :: nat
  en_answered :: "(DataRequest \<times> Reply) list"
  en_stats :: "(nat \<times> ShardStats) list"

text \<open>\<open>Engine::with_clock\<close>: one owner per worker, with the shard of its share of the limits.\<close>

fun start_shards :: "allocator \<Rightarrow> Config \<Rightarrow> nat list \<Rightarrow> EngineError + Shard list" where
  "start_shards alloc c [] = Inr []"
| "start_shards alloc c (index # rest) =
     (case Shard_new alloc (shard_limits c index) of
        Inl e \<Rightarrow> Inl e
      | Inr s \<Rightarrow> (case start_shards alloc c rest of Inl e \<Rightarrow> Inl e | Inr ss \<Rightarrow> Inr (s # ss)))"

definition fresh_engine :: "Config \<Rightarrow> Shard list \<Rightarrow> Engine" where
  "fresh_engine c shards =
     \<lparr>en_owners = map (\<lambda>s. \<lparr>o_shard = s, o_reservation = None, o_stopping = False,
        o_data_turn = False, o_data = [], o_controls = []\<rparr>) shards,
      en_top = replicate (workers c) True,
      en_coord = Idle, en_awaiting = False, en_completion = None, en_next_id = 0,
      en_cross = [], en_cross_closed = False,
      en_credits = replicate (workers c) (queue_bytes c), en_cross_credits = queue_bytes c,
      en_sending = [], en_closing = False, en_stop_sent = False, en_stopped = 0,
      en_answered = [], en_stats = []\<rparr>"

definition with_clock :: "allocator \<Rightarrow> Config \<Rightarrow> EngineError + Engine" where
  "with_clock alloc c =
     (case validate c of
        Inl e \<Rightarrow> Inl e
      | Inr _ \<Rightarrow>
          (case start_shards alloc c [0..<workers c] of
             Inl e \<Rightarrow> Inl e
           | Inr shards \<Rightarrow> Inr (fresh_engine c shards)))"

text \<open>The events of an owner: a reply frees the request's credits, a completion wakes the coordinator.\<close>

fun deliver :: "nat \<Rightarrow> OwnerEvent list \<Rightarrow> Engine \<Rightarrow> Engine" where
  "deliver i [] e = e"
| "deliver i (Answer rq reply # evs) e =
     deliver i evs (e\<lparr>en_answered := en_answered e @ [(rq, reply)],
       en_credits := (en_credits e)[i := en_credits e ! i + rq_credit rq]\<rparr>)"
| "deliver i (StatsAnswer client st # evs) e = deliver i evs (e\<lparr>en_stats := en_stats e @ [(client, st)]\<rparr>)"
| "deliver i (Complete x # evs) e = deliver i evs (e\<lparr>en_completion := Some x\<rparr>)"

definition set_owner :: "nat \<Rightarrow> OwnerState \<Rightarrow> Engine \<Rightarrow> Engine" where
  "set_owner i o1 e = e\<lparr>en_owners := (en_owners e)[i := o1]\<rparr>"

definition push_control :: "nat \<Rightarrow> Control \<Rightarrow> Engine \<Rightarrow> Engine" where
  "push_control i msg e = set_owner i ((en_owners e ! i)\<lparr>o_controls := o_controls (en_owners e ! i) @ [msg]\<rparr>) e"

definition control_capacity :: nat where
  "control_capacity = 8"

definition give_back :: "nat option \<Rightarrow> nat \<Rightarrow> Engine \<Rightarrow> Engine" where
  "give_back target credit e =
     (case target of
        Some i \<Rightarrow> e\<lparr>en_credits := (en_credits e)[i := en_credits e ! i + credit]\<rparr>
      | None \<Rightarrow> e\<lparr>en_cross_credits := en_cross_credits e + credit\<rparr>)"

definition available :: "nat option \<Rightarrow> Engine \<Rightarrow> nat" where
  "available target e = (case target of Some i \<Rightarrow> en_credits e ! i | None \<Rightarrow> en_cross_credits e)"

definition take_credit :: "nat option \<Rightarrow> nat \<Rightarrow> Engine \<Rightarrow> Engine" where
  "take_credit target credit e =
     (case target of
        Some i \<Rightarrow> e\<lparr>en_credits := (en_credits e)[i := en_credits e ! i - credit]\<rparr>
      | None \<Rightarrow> e\<lparr>en_cross_credits := en_cross_credits e - credit\<rparr>)"

definition target_closed :: "nat option \<Rightarrow> Engine \<Rightarrow> bool" where
  "target_closed target e = (case target of Some i \<Rightarrow> o_stopping (en_owners e ! i) | None \<Rightarrow> en_cross_closed e)"

definition target_full :: "Config \<Rightarrow> nat option \<Rightarrow> Engine \<Rightarrow> bool" where
  "target_full c target e =
     (case target of
        Some i \<Rightarrow> length (o_data (en_owners e ! i)) \<ge> queue_capacity c
      | None \<Rightarrow> length (en_cross e) \<ge> queue_capacity c)"

definition enqueue :: "nat option \<Rightarrow> DataRequest \<Rightarrow> Engine \<Rightarrow> Engine" where
  "enqueue target rq e =
     (case target of
        Some i \<Rightarrow> set_owner i ((en_owners e ! i)\<lparr>o_data := o_data (en_owners e ! i) @ [rq]\<rparr>) e
      | None \<Rightarrow> e\<lparr>en_cross := en_cross e @ [CrossExecute rq]\<rparr>)"

definition answer :: "DataRequest \<Rightarrow> Reply \<Rightarrow> Engine \<Rightarrow> Engine" where
  "answer rq reply e = e\<lparr>en_answered := en_answered e @ [(rq, reply)]\<rparr>"

subsection \<open>The step relation\<close>

inductive engine_step :: "Config \<Rightarrow> hasher \<Rightarrow> Engine \<Rightarrow> Engine \<Rightarrow> bool" for c hash where
  reject: "admission c hash (en_closing e) (rq_operation rq) = Rejected reply \<Longrightarrow>
    engine_step c hash e (answer rq reply e)"
| acquire: "admission c hash False (rq_operation rq) = Admitted target (rq_credit rq) \<Longrightarrow>
    keys_fit (rq_operation rq) \<Longrightarrow> rq_credit rq \<le> available target e \<Longrightarrow>
    engine_step c hash e ((take_credit target (rq_credit rq) e)\<lparr>en_sending := en_sending e @ [(rq, target)]\<rparr>)"
| acquire_timeout: "admission c hash False (rq_operation rq) = Admitted target (rq_credit rq) \<Longrightarrow>
    engine_step c hash e (answer rq (Reply_error ''BUSY admission queue deadline exceeded'') e)"
| send: "en_sending e = before @ (rq, target) # after \<Longrightarrow> \<not> target_closed target e \<Longrightarrow> \<not> target_full c target e \<Longrightarrow>
    engine_step c hash e (enqueue target rq (e\<lparr>en_sending := before @ after\<rparr>))"
| send_timeout: "en_sending e = before @ (rq, target) # after \<Longrightarrow>
    engine_step c hash e (answer rq (Reply_error ''BUSY admission queue deadline exceeded'')
      (give_back target (rq_credit rq) (e\<lparr>en_sending := before @ after\<rparr>)))"
| send_closed: "en_sending e = before @ (rq, target) # after \<Longrightarrow> target_closed target e \<Longrightarrow>
    engine_step c hash e (answer rq (Reply_error ''BUSY Recall is shutting down'')
      (give_back target (rq_credit rq) (e\<lparr>en_sending := before @ after\<rparr>)))"
| top: "i < workers c \<Longrightarrow> en_top e ! i \<Longrightarrow> owner_top alloc now (en_owners e ! i) = Some (evs, o1) \<Longrightarrow>
    engine_step c hash e (deliver i evs (set_owner i o1 (e\<lparr>en_top := (en_top e)[i := False]\<rparr>)))"
| select: "i < workers c \<Longrightarrow> \<not> en_top e ! i \<Longrightarrow>
    owner_select alloc now (expiry_batch c) tick_ready False False (en_owners e ! i) = Some (Continue evs o1) \<Longrightarrow>
    engine_step c hash e (deliver i evs (set_owner i o1 (e\<lparr>en_top := (en_top e)[i := True]\<rparr>)))"
| coord_take: "en_coord e = Idle \<Longrightarrow> en_cross e = CrossExecute rq # rest \<Longrightarrow>
    u64_checked_add (en_next_id e) 1 = Some tid \<Longrightarrow> split (rq_operation rq) hash (workers c) = Some parts \<Longrightarrow>
    engine_step c hash e (e\<lparr>en_coord := Reserving rq parts 0, en_next_id := tid, en_cross := rest\<rparr>)"
| coord_stop: "en_coord e = Idle \<Longrightarrow> en_cross e = CrossStop # rest \<Longrightarrow>
    engine_step c hash e (e\<lparr>en_cross_closed := True, en_cross := rest\<rparr>)"
| coord_finish: "en_coord e = Idle \<Longrightarrow> en_cross e = [] \<Longrightarrow> en_cross_closed e \<Longrightarrow>
    engine_step c hash e (e\<lparr>en_coord := Finished\<rparr>)"
| coord_send: "\<not> en_awaiting e \<Longrightarrow> coord_message (en_next_id e) (en_coord e) = Some (i, msg) \<Longrightarrow>
    length (o_controls (en_owners e ! i)) < control_capacity \<Longrightarrow>
    engine_step c hash e ((push_control i msg e)\<lparr>en_awaiting := True\<rparr>)"
| coord_receive: "en_awaiting e \<Longrightarrow> en_completion e = Some x \<Longrightarrow> coord_complete (en_coord e) x = Some c' \<Longrightarrow>
    engine_step c hash e (e\<lparr>en_coord := c', en_awaiting := False, en_completion := None\<rparr>)"
| coord_phase: "\<not> en_awaiting e \<Longrightarrow> c_index (en_coord e) = length (c_parts (en_coord e)) \<Longrightarrow>
    coord_phase_end (cfg_max_reply_bytes c) now (en_coord e) = Some c' \<Longrightarrow>
    engine_step c hash e (e\<lparr>en_coord := c'\<rparr>)"
| coord_answer: "\<not> en_awaiting e \<Longrightarrow> en_coord e = Releasing rq parts (length parts) response \<Longrightarrow>
    engine_step c hash e (answer rq response (give_back None (rq_credit rq) (e\<lparr>en_coord := Idle\<rparr>)))"
| stats: "i < workers c \<Longrightarrow> length (o_controls (en_owners e ! i)) < control_capacity \<Longrightarrow>
    engine_step c hash e (push_control i (Stats client) e)"
| shutdown: "engine_step c hash e (e\<lparr>en_closing := True\<rparr>)"
| shutdown_cross: "en_closing e \<Longrightarrow> \<not> en_stop_sent e \<Longrightarrow> length (en_cross e) < queue_capacity c \<Longrightarrow>
    engine_step c hash e (e\<lparr>en_cross := en_cross e @ [CrossStop], en_stop_sent := True\<rparr>)"
| shutdown_owner: "en_coord e = Finished \<Longrightarrow> en_stopped e = i \<Longrightarrow> i < workers c \<Longrightarrow>
    length (o_controls (en_owners e ! i)) < control_capacity \<Longrightarrow>
    engine_step c hash e ((push_control i Stop e)\<lparr>en_stopped := i + 1\<rparr>)"

definition engine_init :: "Config \<Rightarrow> Engine \<Rightarrow> bool" where
  "engine_init c e \<longleftrightarrow> (\<exists>alloc. with_clock alloc c = Inr e)"

abbreviation engine_reach :: "Config \<Rightarrow> hasher \<Rightarrow> Engine \<Rightarrow> bool" where
  "engine_reach c hash \<equiv> reach (engine_init c) (engine_step c hash)"

end
