(* ===== verification/Engine_Invariant.thy ===== *)
theory Engine_Invariant
  imports Engine_System
begin

section \<open>The reservation protocol keeps its promises\<close>

text \<open>
  The invariant of the concurrent engine. Every owner holds the keys routed to it; a reservation is
  held exactly by the owners the coordinator has reserved and not released, with a preparation
  exactly where the coordinator believes there is one, made on the owner's table as it still is;
  there is at most one control message of the coordinator under way, and it is the one the
  coordinator waits for.
\<close>

subsection \<open>The invariant\<close>

definition owner_good :: "Config \<Rightarrow> hasher \<Rightarrow> nat \<Rightarrow> OwnerState \<Rightarrow> bool" where
  "owner_good c hash i o1 \<longleftrightarrow> shard_reach (shard_limits c i) (o_shard o1) \<and>
     (\<forall>k \<in> dom (table (o_shard o1)). route hash (workers c) k = i) \<and>
     (\<forall>rq \<in> set (o_data o1). keys_fit (rq_operation rq) \<and>
        (\<forall>k \<in> set (Operation_keys (rq_operation rq)). route hash (workers c) k = i))"

text \<open>The reservation of the owner of part \<open>j\<close>, as the coordinator's point determines it.\<close>

fun part_state :: "Coordinator \<Rightarrow> Completion option \<Rightarrow> nat \<Rightarrow> nat \<Rightarrow> Shard \<Rightarrow> Reservation option \<Rightarrow> bool" where
  "part_state (Reserving rq parts k) x tid j s rv =
     (rv = (if j < k \<or> j = k \<and> x \<noteq> None then Some \<lparr>rv_id = tid, rv_prepared = None\<rparr> else None))"
| "part_state (Preparing rq parts k now results) x tid j s rv =
     (\<exists>prep. rv = Some \<lparr>rv_id = tid, rv_prepared = prep\<rparr> \<and>
        (if j < k then \<exists>p. prep = Some p \<and> prepared_for s (pt_operation (parts ! j)) now p \<and> p_response p = results ! j
         else if j = k then
           (case x of
              Some (PreparedReply (Inr r)) \<Rightarrow>
                \<exists>p. prep = Some p \<and> prepared_for s (pt_operation (parts ! j)) now p \<and> p_response p = r
            | _ \<Rightarrow> prep = None)
         else prep = None))"
| "part_state (Applying rq parts k reply) x tid j s rv =
     (\<exists>prep. rv = Some \<lparr>rv_id = tid, rv_prepared = prep\<rparr> \<and>
        (if j < k \<or> j = k \<and> x \<noteq> None then prep = None
         else \<exists>p now. prep = Some p \<and> prepared_for s (pt_operation (parts ! j)) now p))"
| "part_state (Releasing rq parts k reply) x tid j s rv =
     (if j < k \<or> j = k \<and> x \<noteq> None then rv = None else \<exists>prep. rv = Some \<lparr>rv_id = tid, rv_prepared = prep\<rparr>)"
| "part_state _ x tid j s rv = (rv = None)"

fun is_coord_msg :: "Control \<Rightarrow> bool" where
  "is_coord_msg (Stats _) = False"
| "is_coord_msg Stop = False"
| "is_coord_msg _ = True"

definition rsv_ok :: "Coordinator \<Rightarrow> Completion option \<Rightarrow> nat \<Rightarrow> nat \<Rightarrow> OwnerState \<Rightarrow> bool" where
  "rsv_ok co x tid i o1 \<longleftrightarrow>
     (\<forall>j < length (c_parts co). pt_owner (c_parts co ! j) = i \<longrightarrow> part_state co x tid j (o_shard o1) (o_reservation o1)) \<and>
     (i \<notin> set (map pt_owner (c_parts co)) \<longrightarrow> o_reservation o1 = None)"

definition in_flight :: "Coordinator \<Rightarrow> bool \<Rightarrow> Completion option \<Rightarrow> nat \<Rightarrow> nat \<Rightarrow> Control list" where
  "in_flight co aw x tid i =
     (case coord_message tid co of
        Some (i', msg) \<Rightarrow> if aw \<and> x = None \<and> i' = i then [msg] else []
      | None \<Rightarrow> [])"

definition owner_inv :: "Config \<Rightarrow> hasher \<Rightarrow> Coordinator \<Rightarrow> bool \<Rightarrow> Completion option \<Rightarrow> nat \<Rightarrow> nat \<Rightarrow> OwnerState \<Rightarrow> bool" where
  "owner_inv c hash co aw x tid i o1 \<longleftrightarrow> owner_good c hash i o1 \<and> rsv_ok co x tid i o1 \<and>
     filter is_coord_msg (o_controls o1) = in_flight co aw x tid i \<and>
     (Stop \<in> set (o_controls o1) \<or> o_stopping o1 \<longrightarrow> co = Finished)"

definition splits :: "Config \<Rightarrow> hasher \<Rightarrow> DataRequest \<Rightarrow> bool" where
  "splits c hash rq \<longleftrightarrow> keys_fit (rq_operation rq) \<and> (\<exists>parts. split (rq_operation rq) hash (workers c) = Some parts)"

definition coord_ok :: "Config \<Rightarrow> hasher \<Rightarrow> Coordinator \<Rightarrow> bool" where
  "coord_ok c hash co \<longleftrightarrow> c_index co \<le> length (c_parts co) \<and>
     (\<forall>rq \<in> set (c_request co). keys_fit (rq_operation rq) \<and> split (rq_operation rq) hash (workers c) = Some (c_parts co)) \<and>
     (case co of Preparing rq parts k now results \<Rightarrow> length results = k | _ \<Rightarrow> True)"

text \<open>What the coordinator waits for: the completion belongs to the phase.\<close>

definition phase_completion :: "Coordinator \<Rightarrow> Completion \<Rightarrow> bool" where
  "phase_completion co y = (case co of Preparing rq parts k now results \<Rightarrow> \<exists>r. y = PreparedReply r | _ \<Rightarrow> y = Done)"

definition wait_ok :: "Coordinator \<Rightarrow> bool \<Rightarrow> Completion option \<Rightarrow> bool" where
  "wait_ok co aw x \<longleftrightarrow> (aw \<longrightarrow> c_index co < length (c_parts co)) \<and> (x \<noteq> None \<longrightarrow> aw) \<and>
     (\<forall>y. x = Some y \<longrightarrow> phase_completion co y)"

definition target_ok :: "Config \<Rightarrow> hasher \<Rightarrow> DataRequest \<Rightarrow> nat option \<Rightarrow> bool" where
  "target_ok c hash rq target \<longleftrightarrow> keys_fit (rq_operation rq) \<and>
     (case target of
        None \<Rightarrow> splits c hash rq
      | Some i \<Rightarrow> i < workers c \<and> (\<forall>k \<in> set (Operation_keys (rq_operation rq)). route hash (workers c) k = i))"

definition engine_inv :: "Config \<Rightarrow> hasher \<Rightarrow> Engine \<Rightarrow> bool" where
  "engine_inv c hash e \<longleftrightarrow> 0 < workers c \<and>
     length (en_owners e) = workers c \<and> length (en_credits e) = workers c \<and> length (en_top e) = workers c \<and>
     (\<forall>i < workers c. owner_inv c hash (en_coord e) (en_awaiting e) (en_completion e) (en_next_id e) i (en_owners e ! i)) \<and>
     coord_ok c hash (en_coord e) \<and> wait_ok (en_coord e) (en_awaiting e) (en_completion e) \<and>
     (\<forall>(rq, target) \<in> set (en_sending e). target_ok c hash rq target) \<and>
     (\<forall>rq. CrossExecute rq \<in> set (en_cross e) \<longrightarrow> splits c hash rq)"

lemma engine_invD:
  assumes "engine_inv c hash e"
  shows "0 < workers c" and "length (en_owners e) = workers c"
    and "coord_ok c hash (en_coord e)" and "wait_ok (en_coord e) (en_awaiting e) (en_completion e)"
    and "i < workers c \<Longrightarrow>
      owner_inv c hash (en_coord e) (en_awaiting e) (en_completion e) (en_next_id e) i (en_owners e ! i)"
  using assms by (simp_all add: engine_inv_def)

subsection \<open>Facts about the parts\<close>

lemma part_state_unreserved: "part_state co x tid j s None \<Longrightarrow> part_state co x tid j s' None"
  by (cases co) (auto split: if_splits)

lemma part_state_other: "j \<noteq> c_index co \<Longrightarrow> part_state co x tid j s rv = part_state co x' tid j s rv"
  by (cases co) auto

lemma route_less: "0 < n \<Longrightarrow> route hash n k < n"
  by (simp add: route_def)

lemma coord_ok_parts:
  assumes "coord_ok c hash co" and "0 < workers c"
  shows "distinct (map pt_owner (c_parts co))" and "part \<in> set (c_parts co) \<Longrightarrow> pt_owner part < workers c"
proof -
  have *: "distinct (map pt_owner (c_parts co)) \<and> (\<forall>part \<in> set (c_parts co). pt_owner part < workers c)"
  proof (cases "c_request co")
    case Nil
    then have "c_parts co = []" by (cases co) auto
    then show ?thesis by simp
  next
    case (Cons rq rqs)
    then have ok: "parts_ok hash (workers c) (rq_operation rq) (c_parts co)"
      using assms(1) split_parts_ok by (auto simp: coord_ok_def)
    have "pt_owner part < workers c" if "part \<in> set (c_parts co)" for part
    proof -
      have "pt_owner part \<in> route hash (workers c) ` set (Operation_keys (rq_operation rq))"
        using ok that unfolding parts_ok_def by (metis image_eqI list.set_map)
      then show ?thesis using route_less [OF assms(2)] by auto
    qed
    then show ?thesis using parts_distinct [OF ok] by blast
  qed
  then show "distinct (map pt_owner (c_parts co))" by blast
  show "part \<in> set (c_parts co) \<Longrightarrow> pt_owner part < workers c" using * by blast
qed

lemma parts_index_unique:
  assumes "distinct (map pt_owner parts)" and "i < length parts" and "j < length parts"
    and "pt_owner (parts ! i) = pt_owner (parts ! j)"
  shows "i = j"
  using assms nth_eq_iff_index_eq [of "map pt_owner parts" i j] by simp

text \<open>The message under way goes to the owner of the part the coordinator has reached.\<close>

lemma coord_message_part:
  assumes "coord_message tid co = Some (i, msg)"
  shows "c_index co < length (c_parts co)" and "i = pt_owner (c_parts co ! c_index co)" and "is_coord_msg msg"
  using assms by (cases co; auto simp: coord_message_def split: if_splits)+

lemma coord_message_Some:
  "c_index co < length (c_parts co) \<Longrightarrow> \<exists>i msg. coord_message tid co = Some (i, msg)"
  by (cases co) (auto simp: coord_message_def)

subsection \<open>One turn of an owner\<close>

fun completion_after :: "OwnerEvent list \<Rightarrow> Completion option \<Rightarrow> Completion option" where
  "completion_after [] x = x"
| "completion_after (Complete y # evs) x = completion_after evs (Some y)"
| "completion_after (ev # evs) x = completion_after evs x"

lemma deliver_fields [simp]:
  "en_owners (deliver i evs e) = en_owners e"
  "en_top (deliver i evs e) = en_top e"
  "en_coord (deliver i evs e) = en_coord e"
  "en_awaiting (deliver i evs e) = en_awaiting e"
  "en_completion (deliver i evs e) = completion_after evs (en_completion e)"
  "en_next_id (deliver i evs e) = en_next_id e"
  "en_cross (deliver i evs e) = en_cross e"
  "en_cross_closed (deliver i evs e) = en_cross_closed e"
  "length (en_credits (deliver i evs e)) = length (en_credits e)"
  "en_cross_credits (deliver i evs e) = en_cross_credits e"
  "en_sending (deliver i evs e) = en_sending e"
  "en_closing (deliver i evs e) = en_closing e"
  "en_stop_sent (deliver i evs e) = en_stop_sent e"
  "en_stopped (deliver i evs e) = en_stopped e"
  by (induction i evs e rule: deliver.induct) simp_all

text \<open>A command or an expiration pass on an unreserved owner.\<close>

lemma rsv_ok_unreserved:
  "rsv_ok co x tid i o1 \<Longrightarrow> o_reservation o1 = None \<Longrightarrow> o_reservation o2 = None \<Longrightarrow> rsv_ok co x tid i o2"
  using part_state_unreserved by (auto simp: rsv_ok_def)

lemma ran_routed:
  assumes "ran now op m r m'" and "\<forall>k \<in> dom m. route hash n k = i" and "\<forall>k \<in> set (Operation_keys op). route hash n k = i"
  shows "\<forall>k \<in> dom m'. route hash n k = i"
  using assms by (auto simp: ran_def after_op_def split: if_splits)

lemma owner_good_execute:
  assumes good: "owner_good c hash i o1" and data: "o_data o1 = rq # rest"
    and ex: "execute_local alloc (o_shard o1) rq now = Some (ev, s')"
  shows "owner_good c hash i (o1\<lparr>o_data := rest, o_shard := s'\<rparr>)" and "\<exists>reply. ev = Answer rq reply"
proof -
  have pre: "shard_reach (shard_limits c i) (o_shard o1)" "keys_fit (rq_operation rq)"
    and keys: "\<forall>k \<in> set (Operation_keys (rq_operation rq)). route hash (workers c) k = i"
    and dom: "\<forall>k \<in> dom (table (o_shard o1)). route hash (workers c) k = i"
    using good data by (auto simp: owner_good_def)
  obtain reply where reply: "ev = Answer rq reply" "shard_reach (shard_limits c i) s'"
    "ran now (rq_operation rq) (table (o_shard o1)) reply (table s') \<or> table s' = table (o_shard o1)"
    using execute_local_effect [OF pre ex] by blast
  have "\<forall>k \<in> dom (table s'). route hash (workers c) k = i"
    using reply(3) ran_routed [OF _ dom keys] dom by (elim disjE) simp_all
  then show "owner_good c hash i (o1\<lparr>o_data := rest, o_shard := s'\<rparr>)"
    using good data reply(2) by (auto simp: owner_good_def)
  show "\<exists>reply. ev = Answer rq reply" using reply(1) by blast
qed

lemma owner_good_expire:
  assumes good: "owner_good c hash i o1" and ex: "expire_due (o_shard o1) now budget = Some (n, s')"
  shows "owner_good c hash i (o1\<lparr>o_shard := s'\<rparr>)"
proof -
  have "shard_reach (shard_limits c i) s' \<and> purged now (table (o_shard o1)) (table s')"
    using expire_due_effect [OF _ ex] good unfolding owner_good_def by blast
  then show ?thesis using good by (auto simp: owner_good_def purged_def restrict_map_def split: if_splits)
qed

lemma owner_good_fields:
  "owner_good c hash i o1 \<Longrightarrow> o_shard o2 = o_shard o1 \<Longrightarrow> o_data o2 = o_data o1 \<Longrightarrow> owner_good c hash i o2"
  by (simp add: owner_good_def)

lemma owner_inv_quiet:
  assumes "owner_inv c hash co aw x tid i o1" and "o_reservation o1 = None" and "owner_good c hash i o2"
    and "o_reservation o2 = None" and "o_controls o2 = o_controls o1" and "o_stopping o2 = o_stopping o1"
  shows "owner_inv c hash co aw x tid i o2"
  using assms rsv_ok_unreserved [of co x tid i o1 o2] by (simp add: owner_inv_def)

text \<open>What a turn of owner \<open>i\<close> keeps, for the owner, for the coordinator and for the other owners.\<close>

definition turn_ok :: "Config \<Rightarrow> hasher \<Rightarrow> Coordinator \<Rightarrow> bool \<Rightarrow> Completion option \<Rightarrow> nat \<Rightarrow> nat \<Rightarrow>
    OwnerState \<Rightarrow> Completion option \<Rightarrow> bool" where
  "turn_ok c hash co aw x tid i o2 x' \<longleftrightarrow> owner_inv c hash co aw x' tid i o2 \<and> wait_ok co aw x' \<and>
     (\<forall>i' o'. i' \<noteq> i \<longrightarrow> owner_inv c hash co aw x tid i' o' \<longrightarrow> owner_inv c hash co aw x' tid i' o')"

lemma turn_ok_quiet:
  "owner_inv c hash co aw x tid i o2 \<Longrightarrow> wait_ok co aw x \<Longrightarrow> turn_ok c hash co aw x tid i o2 x"
  by (simp add: turn_ok_def)

text \<open>The arms of the \<open>select!\<close>: a control message, the timer, or a command.\<close>

lemma owner_select_cases:
  assumes "owner_select alloc now batch tick False False o1 = Some (Continue evs o2)"
  obtains (control) msg rest where "o_controls o1 = msg # rest"
      "handle_control alloc (o1\<lparr>o_controls := rest\<rparr>) msg = Some (evs, o2)"
    | (tick) n s' where "o_reservation o1 = None" "expire_due (o_shard o1) now batch = Some (n, s')"
      "evs = []" "o2 = o1\<lparr>o_shard := s', o_data_turn := True\<rparr>"
    | (data) rq rest ev s' where "o_reservation o1 = None" "o_data o1 = rq # rest"
      "execute_local alloc (o_shard o1) rq now = Some (ev, s')" "evs = [ev]" "o2 = o1\<lparr>o_data := rest, o_shard := s'\<rparr>"
  using assms by (auto simp: owner_select_def neq_Nil_conv split: if_splits Option.bind_splits list.splits)

lemma owner_top_cases:
  assumes "owner_top alloc now o1 = Some (evs, o2)"
  obtains (idle) d where "evs = []" "o2 = o1\<lparr>o_data_turn := d\<rparr>"
    | (data) rq rest ev s' where "o_reservation o1 = None" "o_data o1 = rq # rest"
      "execute_local alloc (o_shard o1) rq now = Some (ev, s')" "evs = [ev]"
      "o2 = o1\<lparr>o_data_turn := False, o_data := rest, o_shard := s'\<rparr>"
proof (cases "o_data_turn o1 \<and> o_reservation o1 = None")
  case True
  then show ?thesis
    using assms that by (auto simp: owner_top_def split: list.splits Option.bind_splits)
next
  case False
  then have "evs = []" "o2 = o1\<lparr>o_data_turn := o_data_turn o1\<rparr>" using assms by (auto simp: owner_top_def)
  then show ?thesis by (rule that(1))
qed

lemma owner_top_turn:
  assumes inv: "owner_inv c hash co aw x tid i o1" and wait: "wait_ok co aw x"
    and top: "owner_top alloc now o1 = Some (evs, o2)"
  shows "turn_ok c hash co aw x tid i o2 (completion_after evs x)"
proof -
  have good: "owner_good c hash i o1" using inv by (simp add: owner_inv_def)
  show ?thesis
    using top
  proof (cases rule: owner_top_cases)
    case idle
    have "owner_inv c hash co aw x tid i o2"
      using inv owner_good_fields [OF good, of o2] idle by (simp add: owner_inv_def rsv_ok_def)
    then show ?thesis using turn_ok_quiet wait idle(1) by simp
  next
    case data
    note run = owner_good_execute [OF good data(2,3)]
    have "owner_good c hash i o2" using owner_good_fields [OF run(1)] data(5) by simp
    then show ?thesis
      using turn_ok_quiet [OF owner_inv_quiet [OF inv, of o2] wait] data run(2) by auto
  qed
qed

lemma other_owner_completion:
  assumes inv: "owner_inv c hash co aw None tid i' o'" and msg: "coord_message tid co = Some (i, msg)" and ne: "i' \<noteq> i"
  shows "owner_inv c hash co aw (Some y) tid i' o'"
proof -
  note part = coord_message_part [OF msg]
  have "part_state co (Some y) tid j (o_shard o') (o_reservation o')"
    if "j < length (c_parts co)" "pt_owner (c_parts co ! j) = i'"
      "part_state co None tid j (o_shard o') (o_reservation o')" for j
    using that part ne part_state_other [of j co "Some y" tid _ _ None] by auto
  then show ?thesis using inv msg ne by (auto simp: owner_inv_def rsv_ok_def in_flight_def)
qed

text \<open>The message the coordinator waits for, taken by its owner.\<close>

lemma part_keys:
  assumes "coord_ok c hash co" and "k < length (c_parts co)"
  shows "keys_fit (pt_operation (c_parts co ! k))"
    and "\<forall>key \<in> set (Operation_keys (pt_operation (c_parts co ! k))). route hash (workers c) key = pt_owner (c_parts co ! k)"
proof -
  obtain rq where rq: "c_request co = [rq]" using assms(2) by (cases co) auto
  have ok: "parts_ok hash (workers c) (rq_operation rq) (c_parts co)" and fit: "keys_fit (rq_operation rq)"
    using assms(1) rq split_parts_ok by (auto simp: coord_ok_def)
  have keys: "Operation_keys (pt_operation (c_parts co ! k)) =
      filter (\<lambda>key. route hash (workers c) key = pt_owner (c_parts co ! k)) (Operation_keys (rq_operation rq))"
    using ok assms(2) nth_mem unfolding parts_ok_def by blast
  show "keys_fit (pt_operation (c_parts co ! k))"
    using fit length_filter_le [of _ "Operation_keys (rq_operation rq)"] unfolding keys_fit_def keys
    by (meson of_nat_le_iff order.trans)
  show "\<forall>key \<in> set (Operation_keys (pt_operation (c_parts co ! k))).
      route hash (workers c) key = pt_owner (c_parts co ! k)"
    unfolding keys by simp
qed

lemma coord_message_handled:
  assumes msg: "coord_message tid co = Some (i, msg)" and co: "coord_ok c hash co"
    and good: "owner_good c hash i o1"
    and ps: "part_state co None tid (c_index co) (o_shard o1) (o_reservation o1)"
    and h: "handle_control alloc o1 msg = Some (evs, o2)"
  shows "\<exists>y. evs = [Complete y] \<and> phase_completion co y \<and> owner_good c hash i o2 \<and>
    part_state co (Some y) tid (c_index co) (o_shard o2) (o_reservation o2) \<and>
    o_controls o2 = o_controls o1 \<and> o_stopping o2 = o_stopping o1"
proof (cases co)
  case (Reserving rq parts k)
  then have "msg = Reserve tid" using msg by (auto simp: coord_message_def split: if_splits)
  then show ?thesis
    using h Reserving owner_good_fields [OF good] by (auto simp: phase_completion_def split: if_splits)
next
  case (Preparing rq parts k now results)
  then have m: "msg = Prepare tid (pt_operation (parts ! k)) now" and k: "k < length parts"
    using msg by (auto simp: coord_message_def split: if_splits)
  have fit: "keys_fit (pt_operation (parts ! k))" using part_keys [OF co, of k] Preparing k by simp
  obtain r where r: "o_reservation o1 = Some \<lparr>rv_id = tid, rv_prepared = None\<rparr>"
    "prepare alloc (o_shard o1) (pt_operation (parts ! k)) now = Some r"
    using h ps m Preparing by (auto split: Option.bind_splits)
  then have "\<And>p. r = Inr p \<Longrightarrow> prepared_for (o_shard o1) (pt_operation (parts ! k)) now p"
    using fit by (auto simp: prepared_for_def)
  then show ?thesis
    using h m r Preparing owner_good_fields [OF good] by (auto simp: phase_completion_def split: sum.splits)
next
  case (Applying rq parts k reply)
  then have m: "msg = Apply tid" and i: "i = pt_owner (parts ! k)" and k: "k < length parts"
    using msg by (auto simp: coord_message_def split: if_splits)
  obtain p now where p: "o_reservation o1 = Some \<lparr>rv_id = tid, rv_prepared = Some p\<rparr>"
    "prepared_for (o_shard o1) (pt_operation (parts ! k)) now p"
    using ps Applying by auto
  obtain r s' where s': "Shard_apply (o_shard o1) p = Some (r, s')" "evs = [Complete Done]"
    "o2 = o1\<lparr>o_shard := s', o_reservation := Some \<lparr>rv_id = tid, rv_prepared = None\<rparr>\<rparr>"
    using h m p by (auto split: Option.bind_splits)
  have "shard_reach (shard_limits c i) (o_shard o1)" using good by (simp add: owner_good_def)
  note ap = Shard_apply_effect [OF this p(2) s'(1)]
  have "\<forall>key \<in> dom (table s'). route hash (workers c) key = i"
    using ran_routed [of now _ _ _ _ hash "workers c" i] part_keys(2) [OF co, of k] ap good Applying k i
    unfolding owner_good_def by (metis c_parts.simps(3))
  then have "owner_good c hash i o2" using good ap s'(3) by (simp add: owner_good_def)
  then show ?thesis using s' Applying by (simp add: phase_completion_def)
next
  case (Releasing rq parts k reply)
  then have "msg = Release tid" using msg by (auto simp: coord_message_def split: if_splits)
  then show ?thesis
    using h ps Releasing owner_good_fields [OF good] by (auto simp: phase_completion_def split: if_splits Option.bind_splits)
qed (use msg in \<open>simp_all add: coord_message_def\<close>)

lemma awaited_message:
  assumes inv: "owner_inv c hash co aw x tid i o1" and co: "o_controls o1 = msg # rest" and m: "is_coord_msg msg"
  shows "aw" and "x = None" and "coord_message tid co = Some (i, msg)" and "filter is_coord_msg rest = []"
  using assms by (auto simp: owner_inv_def in_flight_def split: option.splits if_splits)

lemma control_turn:
  assumes inv: "owner_inv c hash co aw x tid i o1" and wait: "wait_ok co aw x" and co: "coord_ok c hash co"
    and w: "0 < workers c" and ctl: "o_controls o1 = msg # rest"
    and h: "handle_control alloc (o1\<lparr>o_controls := rest\<rparr>) msg = Some (evs, o2)"
  shows "turn_ok c hash co aw x tid i o2 (completion_after evs x)"
proof (cases "is_coord_msg msg")
  case True
  note aw = awaited_message [OF inv ctl True]
  note part = coord_message_part [OF aw(3)]
  have good: "owner_good c hash i (o1\<lparr>o_controls := rest\<rparr>)"
    using owner_good_fields [of c hash i o1] inv by (simp add: owner_inv_def)
  have stop: "Stop \<notin> set (o_controls o1) \<and> \<not> o_stopping o1"
    using inv part(1) by (auto simp: owner_inv_def)
  have "part_state co None tid (c_index co) (o_shard o1) (o_reservation o1)"
    using inv part aw(2) by (auto simp: owner_inv_def rsv_ok_def)
  then obtain y where y: "evs = [Complete y]" "phase_completion co y" "owner_good c hash i o2"
    "part_state co (Some y) tid (c_index co) (o_shard o2) (o_reservation o2)" "o_controls o2 = rest" "\<not> o_stopping o2"
    using coord_message_handled [OF aw(3) co good _ h] stop by auto
  have "j = c_index co" if "j < length (c_parts co)" "pt_owner (c_parts co ! j) = i" for j
    using that part parts_index_unique [OF coord_ok_parts(1) [OF co w]] by blast
  then have "rsv_ok co (Some y) tid i o2"
    using y(4) part(1,2) nth_mem by (auto simp: rsv_ok_def)
  then have "owner_inv c hash co aw (Some y) tid i o2"
    using y aw stop ctl by (auto simp: owner_inv_def in_flight_def)
  moreover have "wait_ok co aw (Some y)" using y(2) aw(1) part(1) by (simp add: wait_ok_def)
  ultimately show ?thesis
    using other_owner_completion [OF _ aw(3)] y(1) aw(2) by (simp add: turn_ok_def)
next
  case False
  have good: "owner_good c hash i o2" "o_shard o2 = o_shard o1" "o_reservation o2 = o_reservation o1"
    "o_controls o2 = rest" "completion_after evs x = x"
    "o_stopping o2 \<longrightarrow> o_stopping o1 \<or> msg = Stop"
    using False h inv owner_good_fields [of c hash i o1 o2]
    by (cases msg; auto simp: owner_inv_def split: if_splits)+
  then have "owner_inv c hash co aw x tid i o2"
    using inv ctl False by (auto simp: owner_inv_def rsv_ok_def)
  then show ?thesis using turn_ok_quiet wait good(5) by simp
qed

lemma owner_select_turn:
  assumes inv: "owner_inv c hash co aw x tid i o1" and wait: "wait_ok co aw x" and co: "coord_ok c hash co"
    and w: "0 < workers c"
    and sel: "owner_select alloc now batch tick False False o1 = Some (Continue evs o2)"
  shows "turn_ok c hash co aw x tid i o2 (completion_after evs x)"
proof -
  have good: "owner_good c hash i o1" using inv by (simp add: owner_inv_def)
  show ?thesis
    using sel
  proof (cases rule: owner_select_cases)
    case control
    then show ?thesis using control_turn [OF inv wait co w] by blast
  next
    case tick
    have "owner_good c hash i o2" using owner_good_fields [OF owner_good_expire [OF good tick(2)]] tick(4) by simp
    then show ?thesis using turn_ok_quiet [OF owner_inv_quiet [OF inv, of o2] wait] tick by simp
  next
    case data
    note run = owner_good_execute [OF good data(2,3)]
    show ?thesis using turn_ok_quiet [OF owner_inv_quiet [OF inv, of o2] wait] run data by auto
  qed
qed

subsection \<open>The steps\<close>

lemma set_owner_fields [simp]:
  "en_owners (set_owner i o1 e) = (en_owners e)[i := o1]" "en_top (set_owner i o1 e) = en_top e"
  "en_coord (set_owner i o1 e) = en_coord e" "en_awaiting (set_owner i o1 e) = en_awaiting e"
  "en_completion (set_owner i o1 e) = en_completion e" "en_next_id (set_owner i o1 e) = en_next_id e"
  "en_cross (set_owner i o1 e) = en_cross e" "en_cross_closed (set_owner i o1 e) = en_cross_closed e"
  "en_credits (set_owner i o1 e) = en_credits e" "en_cross_credits (set_owner i o1 e) = en_cross_credits e"
  "en_sending (set_owner i o1 e) = en_sending e" "en_closing (set_owner i o1 e) = en_closing e"
  "en_answered (set_owner i o1 e) = en_answered e" "en_stop_sent (set_owner i o1 e) = en_stop_sent e"
  "en_stopped (set_owner i o1 e) = en_stopped e"
  by (simp_all add: set_owner_def)

lemma engine_inv_turn:
  assumes inv: "engine_inv c hash e" and i: "i < workers c"
    and turn: "turn_ok c hash (en_coord e) (en_awaiting e) (en_completion e) (en_next_id e) i o2
      (completion_after evs (en_completion e))"
  shows "engine_inv c hash (deliver i evs (set_owner i o2 (e\<lparr>en_top := (en_top e)[i := b]\<rparr>)))"
  using assms by (auto simp: engine_inv_def turn_ok_def nth_list_update)

lemma coord_ok_next:
  assumes "coord_ok c hash co" and "c_request co' = c_request co" and "c_parts co' = c_parts co"
    and "c_index co' \<le> length (c_parts co')" and "\<And>rq parts k now results. co' = Preparing rq parts k now results \<Longrightarrow> length results = k"
  shows "coord_ok c hash co'"
  using assms by (auto simp: coord_ok_def split: Coordinator.splits)

text \<open>The coordinator moves on, with no message under way before or after.\<close>

lemma engine_inv_coord:
  assumes inv: "engine_inv c hash e" and quiet: "\<not> en_awaiting e \<or> en_completion e \<noteq> None"
    and ok: "coord_ok c hash co'" and nf: "en_coord e \<noteq> Finished"
    and rsv: "\<And>i o1. i < workers c \<Longrightarrow> rsv_ok (en_coord e) (en_completion e) (en_next_id e) i o1 \<Longrightarrow>
      rsv_ok co' None tid i o1"
  shows "engine_inv c hash (e\<lparr>en_coord := co', en_awaiting := False, en_completion := None, en_next_id := tid\<rparr>)"
proof -
  have "in_flight (en_coord e) (en_awaiting e) (en_completion e) (en_next_id e) i = []" for i
    using quiet by (auto simp: in_flight_def split: option.splits)
  moreover have "in_flight co' False None tid i = []" for i by (simp add: in_flight_def split: option.splits)
  ultimately show ?thesis
    using inv ok nf rsv by (auto simp: engine_inv_def owner_inv_def wait_ok_def)
qed

lemma engine_inv_quiet:
  assumes inv: "engine_inv c hash e" and aw: "\<not> en_awaiting e" and ok: "coord_ok c hash co'" and nf: "en_coord e \<noteq> Finished"
    and rsv: "\<And>i o1. i < workers c \<Longrightarrow> rsv_ok (en_coord e) None (en_next_id e) i o1 \<Longrightarrow> rsv_ok co' None (en_next_id e) i o1"
  shows "engine_inv c hash (e\<lparr>en_coord := co'\<rparr>)"
proof -
  have x: "en_completion e = None" using inv aw by (auto simp: engine_inv_def wait_ok_def)
  have "engine_inv c hash (e\<lparr>en_coord := co', en_awaiting := False, en_completion := None, en_next_id := en_next_id e\<rparr>)"
    using engine_inv_coord [OF inv _ ok nf, of "en_next_id e"] aw rsv x by simp
  moreover have "e\<lparr>en_coord := co', en_awaiting := False, en_completion := None, en_next_id := en_next_id e\<rparr> =
      e\<lparr>en_coord := co'\<rparr>"
    using aw x by (cases e) simp
  ultimately show ?thesis by simp
qed

lemma rsv_ok_parts:
  assumes "c_parts co' = c_parts co"
    and "\<And>j s rv. j < length (c_parts co) \<Longrightarrow> part_state co x tid j s rv \<Longrightarrow> part_state co' x' tid j s rv"
    and "rsv_ok co x tid i o1"
  shows "rsv_ok co' x' tid i o1"
  using assms by (auto simp: rsv_ok_def)

lemma complete_part_state:
  assumes "coord_complete co y = Some co'" and "coord_ok c hash co" and "part_state co (Some y) tid j s rv"
  shows "part_state co' None tid j s rv"
  using assms by (induction co y rule: coord_complete.induct) (auto simp: coord_ok_def nth_append less_Suc_eq)

lemma complete_fields:
  assumes "coord_complete co y = Some co'"
  shows "c_parts co' = c_parts co" and "c_request co' = c_request co" and "c_index co' \<le> c_index co + 1"
    and "co' = Preparing rq parts k now results \<Longrightarrow> coord_ok c hash co \<Longrightarrow> length results = k"
  using assms by (induction co y rule: coord_complete.induct) (auto simp: coord_ok_def)

lemma phase_part_state:
  assumes "coord_phase_end n now co = Some co'" and "c_index co = length (c_parts co)"
    and "j < length (c_parts co)" and "part_state co None tid j s rv"
  shows "part_state co' None tid j s rv"
  using assms by (cases co) (auto split: Option.bind_splits if_splits)

lemma phase_fields:
  assumes "coord_phase_end n now co = Some co'"
  shows "c_parts co' = c_parts co" and "c_request co' = c_request co" and "c_index co' = 0"
    and "co' = Preparing rq parts k now' results \<Longrightarrow> length results = k"
  using assms by (cases co; auto split: Option.bind_splits if_splits)+

lemma admission_target:
  assumes "admission c hash closing op = Admitted target credit" and "keys_fit op" and "0 < workers c"
    and "rq_operation rq = op"
  shows "target_ok c hash rq target"
proof -
  obtain k0 ks where keys: "Operation_keys op = k0 # ks"
    using assms(1) by (auto simp: admission_def split: if_splits list.splits)
  let ?all = "list_all (\<lambda>k. route hash (workers c) k = route hash (workers c) k0) (Operation_keys op)"
  have target: "target = (if ?all then Some (route hash (workers c) k0) else None)"
    using assms(1) keys by (auto simp: admission_def Let_def split: if_splits)
  show ?thesis
  proof (cases ?all)
    case True
    then show ?thesis
      using target assms(2-4) keys route_less [OF assms(3)] by (auto simp: target_ok_def list_all_iff)
  next
    case False
    then have "\<exists>parts. split op hash (workers c) = Some parts" using keys by (cases op) auto
    then show ?thesis using target False assms(2,4) by (simp add: target_ok_def splits_def)
  qed
qed

text \<open>Steps that touch neither the owners nor the coordinator.\<close>

lemma engine_inv_frame:
  assumes inv: "engine_inv c hash e"
    and same: "en_owners e' = en_owners e" "en_top e' = en_top e" "en_coord e' = en_coord e" "en_awaiting e' = en_awaiting e"
      "en_completion e' = en_completion e" "en_next_id e' = en_next_id e" "length (en_credits e') = length (en_credits e)"
    and sub: "set (en_sending e') \<subseteq> set (en_sending e) \<union> {(rq, target). target_ok c hash rq target}"
      "set (en_cross e') \<subseteq> set (en_cross e) \<union> {CrossStop}"
  shows "engine_inv c hash e'"
  using inv sub unfolding engine_inv_def same by (auto 0 3)

lemma credit_fields [simp]:
  "en_owners (give_back t n e) = en_owners e" "en_top (give_back t n e) = en_top e" "en_coord (give_back t n e) = en_coord e"
  "en_awaiting (give_back t n e) = en_awaiting e" "en_completion (give_back t n e) = en_completion e"
  "en_next_id (give_back t n e) = en_next_id e" "length (en_credits (give_back t n e)) = length (en_credits e)"
  "en_sending (give_back t n e) = en_sending e" "en_cross (give_back t n e) = en_cross e"
  "en_answered (give_back t n e) = en_answered e" "en_cross_closed (give_back t n e) = en_cross_closed e"
  "en_closing (give_back t n e) = en_closing e" "en_stop_sent (give_back t n e) = en_stop_sent e" "en_stopped (give_back t n e) = en_stopped e"
  "en_owners (take_credit t n e) = en_owners e" "en_top (take_credit t n e) = en_top e" "en_coord (take_credit t n e) = en_coord e"
  "en_awaiting (take_credit t n e) = en_awaiting e" "en_completion (take_credit t n e) = en_completion e"
  "en_next_id (take_credit t n e) = en_next_id e" "length (en_credits (take_credit t n e)) = length (en_credits e)"
  "en_sending (take_credit t n e) = en_sending e" "en_cross (take_credit t n e) = en_cross e"
  "en_answered (take_credit t n e) = en_answered e" "en_cross_closed (take_credit t n e) = en_cross_closed e"
  "en_closing (take_credit t n e) = en_closing e" "en_stop_sent (take_credit t n e) = en_stop_sent e" "en_stopped (take_credit t n e) = en_stopped e"
  by (simp_all add: give_back_def take_credit_def split: option.splits)

lemma answer_fields [simp]:
  "en_owners (answer rq r e) = en_owners e" "en_top (answer rq r e) = en_top e" "en_coord (answer rq r e) = en_coord e"
  "en_awaiting (answer rq r e) = en_awaiting e" "en_completion (answer rq r e) = en_completion e"
  "en_next_id (answer rq r e) = en_next_id e" "en_credits (answer rq r e) = en_credits e"
  "en_sending (answer rq r e) = en_sending e" "en_cross (answer rq r e) = en_cross e"
  "en_answered (answer rq r e) = en_answered e @ [(rq, r)]" "en_cross_closed (answer rq r e) = en_cross_closed e"
  "en_closing (answer rq r e) = en_closing e" "en_stop_sent (answer rq r e) = en_stop_sent e"
  "en_stopped (answer rq r e) = en_stopped e"
  by (simp_all add: answer_def)

text \<open>A command joins its queue.\<close>

lemma engine_inv_enqueue:
  assumes inv: "engine_inv c hash e" and t: "target_ok c hash rq target"
  shows "engine_inv c hash (enqueue target rq e)"
proof (cases target)
  case None
  then show ?thesis using assms by (auto simp: engine_inv_def enqueue_def target_ok_def)
next
  case (Some i)
  have i: "i < workers c" using t Some by (simp add: target_ok_def)
  let ?o = "(en_owners e ! i)\<lparr>o_data := o_data (en_owners e ! i) @ [rq]\<rparr>"
  have "owner_inv c hash (en_coord e) (en_awaiting e) (en_completion e) (en_next_id e) i (en_owners e ! i)"
    using inv i by (simp add: engine_inv_def)
  then have "owner_inv c hash (en_coord e) (en_awaiting e) (en_completion e) (en_next_id e) i ?o"
    using t Some by (auto simp: owner_inv_def owner_good_def rsv_ok_def target_ok_def)
  then show ?thesis using inv i Some by (simp add: engine_inv_def enqueue_def nth_list_update)
qed

text \<open>A control message joins the queue of its owner.\<close>

lemma engine_inv_push:
  assumes inv: "engine_inv c hash e" and i: "i < workers c" and m: "\<not> is_coord_msg msg"
    and stop: "msg = Stop \<Longrightarrow> en_coord e = Finished"
  shows "engine_inv c hash (push_control i msg e)"
proof -
  let ?o = "(en_owners e ! i)\<lparr>o_controls := o_controls (en_owners e ! i) @ [msg]\<rparr>"
  have "owner_inv c hash (en_coord e) (en_awaiting e) (en_completion e) (en_next_id e) i (en_owners e ! i)"
    using inv i by (simp add: engine_inv_def)
  then have "owner_inv c hash (en_coord e) (en_awaiting e) (en_completion e) (en_next_id e) i ?o"
    using m stop by (auto simp: owner_inv_def owner_good_def rsv_ok_def)
  then show ?thesis using inv i by (simp add: engine_inv_def push_control_def nth_list_update)
qed

lemma engine_inv_send:
  assumes inv: "engine_inv c hash e" and aw: "\<not> en_awaiting e"
    and msg: "coord_message (en_next_id e) (en_coord e) = Some (i, msg)"
  shows "engine_inv c hash ((push_control i msg e)\<lparr>en_awaiting := True\<rparr>)"
proof -
  let ?o = "(en_owners e ! i)\<lparr>o_controls := o_controls (en_owners e ! i) @ [msg]\<rparr>"
  let ?inv = "owner_inv c hash (en_coord e) True (en_completion e) (en_next_id e)"
  note part = coord_message_part [OF msg]
  have co: "coord_ok c hash (en_coord e)" and w: "0 < workers c" and wait: "wait_ok (en_coord e) False (en_completion e)"
    using inv aw by (simp_all add: engine_inv_def)
  have i: "i < workers c" using coord_ok_parts(2) [OF co w, of "c_parts (en_coord e) ! c_index (en_coord e)"] part by simp
  have old: "owner_inv c hash (en_coord e) False (en_completion e) (en_next_id e) i' (en_owners e ! i')" if "i' < workers c" for i'
    using inv aw that by (simp add: engine_inv_def)
  have quiet: "in_flight (en_coord e) False x (en_next_id e) i' = []" for x i' by (simp add: in_flight_def split: option.splits)
  have "?inv i ?o"
    using old [OF i] msg part wait by (auto simp: owner_inv_def owner_good_def rsv_ok_def quiet in_flight_def wait_ok_def)
  moreover have "?inv i' (en_owners e ! i')" if "i' < workers c" "i' \<noteq> i" for i'
    using old [OF that(1)] that msg by (auto simp: owner_inv_def quiet in_flight_def)
  ultimately show ?thesis
    using inv i part wait by (auto simp: engine_inv_def push_control_def nth_list_update wait_ok_def)
qed

lemma push_control_fields [simp]:
  "en_stopped (push_control i msg e) = en_stopped e" "en_coord (push_control i msg e) = en_coord e"
  "en_awaiting (push_control i msg e) = en_awaiting e" "en_top (push_control i msg e) = en_top e"
  "en_cross (push_control i msg e) = en_cross e" "en_cross_closed (push_control i msg e) = en_cross_closed e"
  "en_sending (push_control i msg e) = en_sending e" "en_closing (push_control i msg e) = en_closing e"
  "en_stop_sent (push_control i msg e) = en_stop_sent e" "en_next_id (push_control i msg e) = en_next_id e"
  "en_answered (push_control i msg e) = en_answered e"
  by (simp_all add: push_control_def)

text \<open>Bookkeeping fields the invariant does not mention.\<close>

lemma engine_inv_stopped [simp]: "engine_inv c hash (e\<lparr>en_stopped := n\<rparr>) = engine_inv c hash e"
  by (simp add: engine_inv_def)

lemma engine_inv_sending:
  "engine_inv c hash e \<Longrightarrow> set sending \<subseteq> set (en_sending e) \<Longrightarrow> engine_inv c hash (e\<lparr>en_sending := sending\<rparr>)"
  by (rule engine_inv_frame [of c hash e]) auto

lemma engine_inv_step:
  assumes step: "engine_step c hash e e'" and inv: "engine_inv c hash e"
  shows "engine_inv c hash e'"
  using step
proof cases
  case (reject rq reply)
  then show ?thesis by (auto intro: engine_inv_frame [OF inv])
next
  case (acquire rq target)
  have "0 < workers c" using inv by (simp add: engine_inv_def)
  then have "target_ok c hash rq target" using admission_target acquire(2,3) by blast
  then show ?thesis using acquire(1) by (auto intro: engine_inv_frame [OF inv])
next
  case (acquire_timeout rq target)
  then show ?thesis by (auto intro: engine_inv_frame [OF inv])
next
  case (send before rq target "after")
  then have "target_ok c hash rq target" using inv by (auto simp: engine_inv_def)
  moreover have "engine_inv c hash (e\<lparr>en_sending := before @ after\<rparr>)"
    using send(2) by (intro engine_inv_sending [OF inv]) auto
  ultimately show ?thesis using engine_inv_enqueue send(1) by simp
next
  case (send_timeout before rq target "after")
  then show ?thesis by (auto intro: engine_inv_frame [OF inv])
next
  case (send_closed before rq target "after")
  then show ?thesis by (auto intro: engine_inv_frame [OF inv])
next
  case (top i alloc now evs o1)
  then show ?thesis
    using engine_inv_turn [OF inv] owner_top_turn engine_invD [OF inv] by blast
next
  case (select i alloc now tick_ready evs o1)
  then show ?thesis
    using engine_inv_turn [OF inv] owner_select_turn engine_invD [OF inv] by blast
next
  case (coord_take rq rest tid parts)
  have "coord_ok c hash (Reserving rq parts 0)"
    using inv coord_take by (auto simp: engine_inv_def coord_ok_def splits_def)
  then have "engine_inv c hash (e\<lparr>en_coord := Reserving rq parts 0, en_awaiting := False, en_completion := None, en_next_id := tid\<rparr>)"
    using coord_take(2) inv
    by (intro engine_inv_coord [OF inv]) (auto simp: engine_inv_def wait_ok_def rsv_ok_def)
  moreover have "\<not> en_awaiting e" "en_completion e = None" using inv coord_take(2) by (auto simp: engine_inv_def wait_ok_def)
  ultimately show ?thesis using coord_take(1,3) by (auto intro!: engine_inv_frame [of c hash "e\<lparr>en_coord := Reserving rq parts 0,
    en_awaiting := False, en_completion := None, en_next_id := tid\<rparr>"])
next
  case (coord_stop rest)
  then show ?thesis by (auto intro: engine_inv_frame [OF inv])
next
  case coord_finish
  then show ?thesis using inv by (auto simp: engine_inv_def owner_inv_def rsv_ok_def in_flight_def coord_ok_def wait_ok_def coord_message_def)
next
  case (coord_send i msg)
  then show ?thesis using engine_inv_send [OF inv] by simp
next
  case (coord_receive x c')
  have co: "coord_ok c hash (en_coord e)" and lt: "c_index (en_coord e) < length (c_parts (en_coord e))"
    using inv coord_receive by (auto simp: engine_inv_def wait_ok_def)
  note f = complete_fields [OF coord_receive(4)]
  have "coord_ok c hash c'" using coord_ok_next [OF co f(2,1)] f(1,3) f(4) [OF _ co] lt by auto
  moreover have "rsv_ok c' None (en_next_id e) i o1" if "rsv_ok (en_coord e) (Some x) (en_next_id e) i o1" for i o1
    using rsv_ok_parts [OF f(1) _ that] complete_part_state [OF coord_receive(4) co] by blast
  moreover have "en_coord e \<noteq> Finished" using lt by auto
  ultimately show ?thesis
    using engine_inv_coord [OF inv, of c' "en_next_id e"] coord_receive lt by auto
next
  case (coord_phase now c')
  have co: "coord_ok c hash (en_coord e)" and x: "en_completion e = None"
    using inv coord_phase by (auto simp: engine_inv_def wait_ok_def)
  note f = phase_fields [OF coord_phase(4)]
  have "coord_ok c hash c'" using coord_ok_next [OF co f(2,1)] f(3,4) by auto
  moreover have "rsv_ok c' None (en_next_id e) i o1" if "rsv_ok (en_coord e) None (en_next_id e) i o1" for i o1
    using rsv_ok_parts [OF f(1) _ that] phase_part_state [OF coord_phase(4,3)] by blast
  moreover have "en_coord e \<noteq> Finished" using coord_phase(4) by auto
  ultimately show ?thesis using engine_inv_quiet [OF inv, of c'] coord_phase(1,2) x by auto
next
  case (coord_answer rq parts response)
  have x: "en_completion e = None" using inv coord_answer by (auto simp: engine_inv_def wait_ok_def)
  have idle: "rsv_ok Idle None (en_next_id e) i o1" if "rsv_ok (en_coord e) None (en_next_id e) i o1" for i o1
    using that coord_answer(3) by (auto simp: rsv_ok_def in_set_conv_nth)
  have "engine_inv c hash (e\<lparr>en_coord := Idle\<rparr>)"
    using coord_answer x idle by (intro engine_inv_quiet [OF inv]) (auto simp: coord_ok_def)
  then show ?thesis using coord_answer(1) by (auto intro: engine_inv_frame)
next
  case (stats i client)
  then show ?thesis using engine_inv_push [OF inv stats(2), of "Stats client"] by simp
next
  case shutdown
  then show ?thesis by (auto intro: engine_inv_frame [OF inv])
next
  case shutdown_cross
  then show ?thesis by (auto intro: engine_inv_frame [OF inv])
next
  case (shutdown_owner i)
  then show ?thesis using engine_inv_push [OF inv, of i Stop] by simp
qed

subsection \<open>The initial state\<close>

lemma start_shards_new:
  "start_shards alloc c is = Inr ss \<Longrightarrow> length ss = length is \<and>
     (\<forall>j < length is. Shard_new alloc (shard_limits c (is ! j)) = Inr (ss ! j))"
proof (induction "is" arbitrary: ss)
  case (Cons i rest)
  then show ?case by (auto simp: nth_Cons split: sum.splits nat.splits)
qed simp

lemma Shard_new_table: "Shard_new alloc l = Inr s \<Longrightarrow> table s = Map.empty"
  by (auto simp: Shard_new_def split: if_splits option.splits)

lemma engine_started:
  assumes "with_clock alloc c = Inr e"
  shows "0 < workers c \<and> (\<exists>ss. e = fresh_engine c ss \<and> length ss = workers c \<and>
    (\<forall>i < workers c. Shard_new alloc (shard_limits c i) = Inr (ss ! i)))"
proof -
  have v: "validate c = Inr ()" using assms by (cases "validate c") (auto simp: with_clock_def)
  then obtain ss where ss: "start_shards alloc c [0..<workers c] = Inr ss" "e = fresh_engine c ss"
    using assms by (auto simp: with_clock_def split: sum.splits)
  then show ?thesis using validate_facts(2) [OF v] start_shards_new [OF ss(1)] by auto
qed

lemma engine_inv_start:
  assumes "with_clock alloc c = Inr e"
  shows "engine_inv c hash e"
proof -
  obtain ss where ss: "e = fresh_engine c ss" "length ss = workers c"
    "\<And>i. i < workers c \<Longrightarrow> Shard_new alloc (shard_limits c i) = Inr (ss ! i)" and "0 < workers c"
    using engine_started [OF assms] by blast
  moreover have "shard_reach (shard_limits c i) (ss ! i) \<and> table (ss ! i) = Map.empty" if "i < workers c" for i
    using ss(3) [OF that] shard_reach.new Shard_new_table by blast
  ultimately show ?thesis
    by (auto simp: fresh_engine_def engine_inv_def owner_inv_def owner_good_def rsv_ok_def
      in_flight_def coord_message_def coord_ok_def wait_ok_def)
qed

interpretation engine: invariant_system "engine_init c" "engine_step c hash" "engine_inv c hash" for c hash
  by unfold_locales (auto simp: engine_init_def engine_inv_start intro: engine_inv_step)

end
