(* ===== verification/Serial_Spec.thy ===== *)
theory Serial_Spec
  imports Owner_Loop Transition_System "HOL-Library.Multiset"
begin

section \<open>One command at a time\<close>

text \<open>
  The specification of the whole engine: a single keyspace on which commands run one at a time,
  each at some reading of the clock. A command either runs as a whole and gives its reply, or it is
  refused with an error and changes nothing; in between, keys whose deadline has passed may be
  removed.
\<close>

type_synonym outcome = "DataRequest \<times> Reply"

inductive atomic_step :: "outcome list \<Rightarrow> keyspace \<Rightarrow> keyspace \<Rightarrow> bool" where
  stutter: "atomic_step [] m m"
| purge: "purged now m m' \<Longrightarrow> atomic_step [] m m'"
| run: "ran now (rq_operation rq) m reply m' \<Longrightarrow> atomic_step [(rq, reply)] m m'"
| refuse: "atomic_step [(rq, Reply_error msg)] m m"

inductive_cases atomic_step_runE: "atomic_step [(rq, reply)] m m'"

text \<open>A serial run from the empty keyspace, with the outcomes in the order the commands ran.\<close>

inductive serial :: "outcome list \<Rightarrow> keyspace \<Rightarrow> bool" where
  empty: "serial [] Map.empty"
| extend: "serial h m \<Longrightarrow> atomic_step g m m' \<Longrightarrow> serial (h @ g) m'"

text \<open>
  A system refines the specification when each of its steps is one atomic step of the keyspace it
  stands for, and the outcomes it has committed to grow by exactly the outcomes of that step.
\<close>

locale serial_system = invariant_system init step inv
  for init :: "'s \<Rightarrow> bool" and step :: "'s \<Rightarrow> 's \<Rightarrow> bool" and inv :: "'s \<Rightarrow> bool" +
  fixes view :: "'s \<Rightarrow> keyspace" and outcomes :: "'s \<Rightarrow> outcome list"
  assumes view_init: "init s \<Longrightarrow> view s = Map.empty \<and> outcomes s = []"
    and step_atomic: "inv s \<Longrightarrow> step s s' \<Longrightarrow>
      \<exists>g. atomic_step g (view s) (view s') \<and> mset (outcomes s') = mset (outcomes s) + mset g"
begin

lemma steps_serial:
  assumes "step\<^sup>*\<^sup>* s s'" and "inv s" and "serial h (view s)"
  shows "\<exists>g. serial (h @ g) (view s') \<and> mset (outcomes s') = mset (outcomes s) + mset g"
  using assms
proof (induction rule: rtranclp_induct)
  case base
  then show ?case by (intro exI [of _ "[]"]) simp
next
  case (step s1 s2)
  obtain g where g: "serial (h @ g) (view s1)" "mset (outcomes s1) = mset (outcomes s) + mset g"
    using step by blast
  have "inv s1" using steps_inv [OF step(1)] step.prems(1) .
  then obtain g' where "atomic_step g' (view s1) (view s2)" "mset (outcomes s2) = mset (outcomes s1) + mset g'"
    using step_atomic step(2) by blast
  then have "serial (h @ (g @ g')) (view s2) \<and> mset (outcomes s2) = mset (outcomes s) + mset (g @ g')"
    using serial.extend [OF g(1)] g(2) by (simp add: add.assoc)
  then show ?case by blast
qed

lemma reach_serial:
  "reach init step s \<Longrightarrow> \<exists>h. serial h (view s) \<and> mset h = mset (outcomes s)"
proof (induction rule: reach.induct)
  case (start s)
  then show ?case using view_init [of s] serial.empty by auto
next
  case (step s s')
  then obtain h where h: "serial h (view s)" "mset h = mset (outcomes s)" by blast
  obtain g where "atomic_step g (view s) (view s')" "mset (outcomes s') = mset (outcomes s) + mset g"
    using step_atomic [OF reach_inv [OF step(1)] step(2)] by blast
  then have "serial (h @ g) (view s') \<and> mset (h @ g) = mset (outcomes s')"
    using serial.extend [OF h(1)] h(2) by simp
  then show ?case by blast
qed

end

end
