(* ===== verification/Engine_Atomicity.thy ===== *)
theory Engine_Atomicity
  imports Engine_Invariant Serial_Spec
begin

section \<open>Every command takes effect at one step\<close>

text \<open>
  The keyspace the engine stands for: every key as its owner holds it, with the prepared effects of a
  command the coordinator has decided to apply already in place. A local command takes effect when its
  owner executes it; a command over several owners takes effect when the coordinator has all
  preparations and starts to apply them, at that one step for all its keys.
\<close>

subsection \<open>The keyspace of the engine\<close>

definition pending :: "Coordinator \<Rightarrow> OwnerState \<Rightarrow> Effects" where
  "pending co o1 =
     (case (co, o_reservation o1) of
        (Applying rq parts k reply, Some rv) \<Rightarrow> (case rv_prepared rv of Some p \<Rightarrow> p_effects p | None \<Rightarrow> [])
      | _ \<Rightarrow> [])"

definition owner_view :: "Coordinator \<Rightarrow> OwnerState \<Rightarrow> keyspace" where
  "owner_view co o1 = override (table (o_shard o1)) (pending co o1)"

definition view :: "Config \<Rightarrow> hasher \<Rightarrow> Engine \<Rightarrow> keyspace" where
  "view c hash e = (\<lambda>k. owner_view (en_coord e) (en_owners e ! route hash (workers c) k) k)"

text \<open>The request whose outcome the coordinator has decided and not yet sent.\<close>

fun decided :: "Coordinator \<Rightarrow> outcome list" where
  "decided (Applying rq parts k reply) = [(rq, reply)]"
| "decided (Releasing rq parts k response) = [(rq, response)]"
| "decided _ = []"

definition outcomes :: "Engine \<Rightarrow> outcome list" where
  "outcomes e = en_answered e @ decided (en_coord e)"

lemma pending_unreserved [simp]: "o_reservation o1 = None \<Longrightarrow> pending co o1 = []"
  by (simp add: pending_def split: Coordinator.splits)

lemma pending_not_applying: "\<forall>rq parts k reply. co \<noteq> Applying rq parts k reply \<Longrightarrow> pending co o1 = []"
  by (simp add: pending_def split: Coordinator.splits)

lemma owner_view_cong:
  "o_shard o2 = o_shard o1 \<Longrightarrow> o_reservation o2 = o_reservation o1 \<Longrightarrow> owner_view co o2 = owner_view co o1"
  by (simp add: owner_view_def pending_def)

lemma owner_view_not_applying:
  "\<forall>rq parts k reply. co \<noteq> Applying rq parts k reply \<Longrightarrow> owner_view co o1 = table (o_shard o1)"
  by (simp add: owner_view_def pending_not_applying)

subsection \<open>Steps of an owner\<close>

lemma view_set_owner:
  assumes "i < workers c" and "length (en_owners e) = workers c"
    and "en_owners e' = (en_owners e)[i := o2]" and "en_coord e' = en_coord e"
  shows "view c hash e' = (\<lambda>k. if route hash (workers c) k = i then owner_view (en_coord e) o2 k else view c hash e k)"
  using assms by (auto simp: view_def nth_list_update)

lemma view_same_owner:
  assumes "i < workers c" and "length (en_owners e) = workers c"
    and "en_owners e' = (en_owners e)[i := o2]" and "en_coord e' = en_coord e"
    and "owner_view (en_coord e) o2 = owner_view (en_coord e) (en_owners e ! i)"
  shows "view c hash e' = view c hash e"
  unfolding view_set_owner [OF assms(1-4)] by (auto simp: assms(5) view_def)

fun answers :: "OwnerEvent list \<Rightarrow> outcome list" where
  "answers [] = []"
| "answers (Answer rq reply # evs) = (rq, reply) # answers evs"
| "answers (ev # evs) = answers evs"

lemma deliver_answered [simp]: "en_answered (deliver i evs e) = en_answered e @ answers evs"
  by (induction i evs e rule: deliver.induct) simp_all

text \<open>The owner's part of an atomic step.\<close>

definition owner_atomic :: "Config \<Rightarrow> hasher \<Rightarrow> Coordinator \<Rightarrow> nat \<Rightarrow> OwnerState \<Rightarrow> outcome list \<Rightarrow> OwnerState \<Rightarrow> bool" where
  "owner_atomic c hash co i o1 g o2 \<longleftrightarrow>
     owner_view co o2 = owner_view co o1 \<and> (g = [] \<or> (\<exists>rq msg. g = [(rq, Reply_error msg)])) \<or>
     owner_view co o1 = table (o_shard o1) \<and> owner_view co o2 = table (o_shard o2) \<and>
     (g = [] \<and> (\<exists>now. purged now (table (o_shard o1)) (table (o_shard o2))) \<or>
      (\<exists>rq reply now. g = [(rq, reply)] \<and> ran now (rq_operation rq) (table (o_shard o1)) reply (table (o_shard o2)) \<and>
        (\<forall>k \<in> set (Operation_keys (rq_operation rq)). route hash (workers c) k = i)))"

lemma owner_atomic_view:
  assumes i: "i < workers c" "length (en_owners e) = workers c"
    and e': "en_owners e' = (en_owners e)[i := o2]" "en_coord e' = en_coord e"
    and dom: "\<forall>k \<in> dom (table (o_shard (en_owners e ! i))). route hash (workers c) k = i"
    and atomic: "owner_atomic c hash (en_coord e) i (en_owners e ! i) g o2"
  shows "atomic_step g (view c hash e) (view c hash e')"
proof -
  let ?o = "en_owners e ! i"
  note set = view_set_owner [OF i e', of hash]
  have at_i: "view c hash e k = owner_view (en_coord e) ?o k" if "route hash (workers c) k = i" for k
    using that by (simp add: view_def)
  from atomic [unfolded owner_atomic_def] show ?thesis
  proof (elim disjE conjE exE)
    assume "owner_view (en_coord e) o2 = owner_view (en_coord e) ?o" "g = []"
    then show ?thesis using view_same_owner [OF i e'] by (simp add: atomic_step.stutter)
  next
    fix rq msg assume "owner_view (en_coord e) o2 = owner_view (en_coord e) ?o" "g = [(rq, Reply_error msg)]"
    then show ?thesis using view_same_owner [OF i e'] by (simp add: atomic_step.refuse)
  next
    fix now assume ov: "owner_view (en_coord e) ?o = table (o_shard ?o)" "owner_view (en_coord e) o2 = table (o_shard o2)"
      and g: "g = []" and "purged now (table (o_shard ?o)) (table (o_shard o2))"
    then obtain R where R: "R \<subseteq> due_keys now (table (o_shard ?o))" "table (o_shard o2) = table (o_shard ?o) |` (- R)"
      by (auto simp: purged_def)
    have Ri: "route hash (workers c) k = i" if "k \<in> R" for k using R(1) dom that by (auto simp: due_keys_def)
    then have "R \<subseteq> due_keys now (view c hash e)" using R(1) at_i ov(1) by (auto simp: due_keys_def subset_iff)
    moreover have "view c hash e' = view c hash e |` (- R)"
      unfolding set using ov R(2) Ri at_i by (auto simp: restrict_map_def)
    ultimately have "purged now (view c hash e) (view c hash e')" by (auto simp: purged_def)
    then show ?thesis using g by (simp add: atomic_step.purge)
  next
    fix rq reply now assume ov: "owner_view (en_coord e) ?o = table (o_shard ?o)" "owner_view (en_coord e) o2 = table (o_shard o2)"
      and g: "g = [(rq, reply)]" and ran: "ran now (rq_operation rq) (table (o_shard ?o)) reply (table (o_shard o2))"
      and keys: "\<forall>k \<in> set (Operation_keys (rq_operation rq)). route hash (workers c) k = i"
    have "ran now (rq_operation rq) (view c hash e) reply
        (\<lambda>k. if k \<in> set (Operation_keys (rq_operation rq)) then table (o_shard o2) k else view c hash e k)"
      using keys at_i ov(1) by (intro ran_local [OF ran]) simp
    moreover have "(\<lambda>k. if k \<in> set (Operation_keys (rq_operation rq)) then table (o_shard o2) k else view c hash e k) = view c hash e'"
      unfolding set using ov keys at_i ran by (auto simp: ran_def after_op_def)
    ultimately show ?thesis using g by (simp add: atomic_step.run)
  qed
qed

lemma execute_local_atomic:
  assumes good: "owner_good c hash i o1" and data: "o_data o1 = rq # rest" and free: "o_reservation o1 = None"
    and ex: "execute_local alloc (o_shard o1) rq now = Some (ev, s')"
    and o2: "o_shard o2 = s'" "o_reservation o2 = None"
  shows "owner_atomic c hash co i o1 (answers [ev]) o2"
proof -
  have pre: "shard_reach (shard_limits c i) (o_shard o1)" "keys_fit (rq_operation rq)"
    and keys: "\<forall>k \<in> set (Operation_keys (rq_operation rq)). route hash (workers c) k = i"
    using good data by (auto simp: owner_good_def)
  obtain reply where reply: "ev = Answer rq reply"
    "ran now (rq_operation rq) (table (o_shard o1)) reply (table s') \<or>
     (\<exists>e. reply = EngineError_reply e) \<and> table s' = table (o_shard o1)"
    using execute_local_effect [OF pre ex] by blast
  show ?thesis
    using reply o2 free keys by (auto simp: owner_atomic_def owner_view_def EngineError_reply_def)
qed

lemma control_atomic:
  assumes inv: "owner_inv c hash co aw x tid i o1" and co: "coord_ok c hash co"
    and ctl: "o_controls o1 = msg # rest"
    and h: "handle_control alloc (o1\<lparr>o_controls := rest\<rparr>) msg = Some (evs, o2)"
  shows "owner_view co o2 = owner_view co o1 \<and> answers evs = []"
proof (cases "is_coord_msg msg")
  case False
  then have "o_shard o2 = o_shard o1" "o_reservation o2 = o_reservation o1" "answers evs = []"
    using h by (cases msg; auto split: if_splits)+
  then show ?thesis using owner_view_cong [of o2 o1 co] by blast
next
  case True
  note aw = awaited_message [OF inv ctl True]
  note part = coord_message_part [OF aw(3)]
  have ps: "part_state co None tid (c_index co) (o_shard o1) (o_reservation o1)"
    using inv part aw(2) by (auto simp: owner_inv_def rsv_ok_def)
  have reach: "shard_reach (shard_limits c i) (o_shard o1)" using inv by (simp add: owner_inv_def owner_good_def)
  show ?thesis
  proof (cases co)
    case (Applying rq parts k reply)
    then have m: "msg = Apply tid" using aw(3) by (auto simp: coord_message_def split: if_splits)
    obtain p now where p: "o_reservation o1 = Some \<lparr>rv_id = tid, rv_prepared = Some p\<rparr>"
      "prepared_for (o_shard o1) (pt_operation (parts ! k)) now p"
      using ps Applying by auto
    obtain r s' where s': "Shard_apply (o_shard o1) p = Some (r, s')" "evs = [Complete Done]"
      "o2 = o1\<lparr>o_controls := rest, o_shard := s', o_reservation := Some \<lparr>rv_id = tid, rv_prepared = None\<rparr>\<rparr>"
      using h m p by (auto split: Option.bind_splits)
    have "table s' = override (table (o_shard o1)) (p_effects p)"
      using Shard_apply_effect [OF reach p(2) s'(1)] by blast
    then show ?thesis using s' p(1) Applying by (simp add: owner_view_def pending_def)
  qed (use h aw(3) in \<open>auto simp: coord_message_def owner_view_not_applying
         split: if_splits Option.bind_splits sum.splits\<close>)
qed

lemma owner_top_atomic:
  assumes inv: "owner_inv c hash co aw x tid i o1" and top: "owner_top alloc now o1 = Some (evs, o2)"
  shows "owner_atomic c hash co i o1 (answers evs) o2"
  using top
proof (cases rule: owner_top_cases)
  case idle
  then show ?thesis using owner_view_cong [of o2 o1] by (simp add: owner_atomic_def)
next
  case data
  have "owner_good c hash i o1" using inv by (simp add: owner_inv_def)
  then show ?thesis using execute_local_atomic [OF _ data(2,1,3), of c hash i o2] data by simp
qed

lemma owner_select_atomic:
  assumes inv: "owner_inv c hash co aw x tid i o1" and co: "coord_ok c hash co"
    and sel: "owner_select alloc now batch tick False False o1 = Some (Continue evs o2)"
  shows "owner_atomic c hash co i o1 (answers evs) o2"
  using sel
proof (cases rule: owner_select_cases)
  case control
  then show ?thesis using control_atomic [OF inv co] by (simp add: owner_atomic_def)
next
  case tick
  have "shard_reach (shard_limits c i) (o_shard o1)" using inv by (simp add: owner_inv_def owner_good_def)
  then show ?thesis using expire_due_effect [OF _ tick(2)] tick by (auto simp: owner_atomic_def owner_view_def)
next
  case data
  have "owner_good c hash i o1" using inv by (simp add: owner_inv_def)
  then show ?thesis using execute_local_atomic [OF _ data(2,1,3), of c hash i o2] data by simp
qed

subsection \<open>Steps of the coordinator\<close>

lemma view_not_applying:
  "\<forall>rq parts k reply. en_coord e \<noteq> Applying rq parts k reply \<Longrightarrow>
   view c hash e = (\<lambda>k. table (o_shard (en_owners e ! route hash (workers c) k)) k)"
  by (simp add: view_def owner_view_not_applying)

lemma part_reservation:
  assumes inv: "engine_inv c hash e" and j: "j < length (c_parts (en_coord e))"
  shows "part_state (en_coord e) (en_completion e) (en_next_id e) j
      (o_shard (en_owners e ! pt_owner (c_parts (en_coord e) ! j))) (o_reservation (en_owners e ! pt_owner (c_parts (en_coord e) ! j)))"
    and "shard_reach (shard_limits c (pt_owner (c_parts (en_coord e) ! j))) (o_shard (en_owners e ! pt_owner (c_parts (en_coord e) ! j)))"
proof -
  have "pt_owner (c_parts (en_coord e) ! j) < workers c"
    using coord_ok_parts(2) [OF engine_invD(3) [OF inv] engine_invD(1) [OF inv]] j by simp
  from engine_invD(5) [OF inv this]
  show "part_state (en_coord e) (en_completion e) (en_next_id e) j
      (o_shard (en_owners e ! pt_owner (c_parts (en_coord e) ! j))) (o_reservation (en_owners e ! pt_owner (c_parts (en_coord e) ! j)))"
    and "shard_reach (shard_limits c (pt_owner (c_parts (en_coord e) ! j))) (o_shard (en_owners e ! pt_owner (c_parts (en_coord e) ! j)))"
    using j by (auto simp: owner_inv_def owner_good_def rsv_ok_def)
qed

lemma other_unreserved:
  assumes inv: "engine_inv c hash e" and i: "i < workers c" "i \<notin> set (map pt_owner (c_parts (en_coord e)))"
  shows "o_reservation (en_owners e ! i) = None"
  using engine_invD(5) [OF inv i(1)] i(2) by (auto simp: owner_inv_def rsv_ok_def)

text \<open>All preparations have arrived: the replies combine, and the command runs on the whole keyspace.\<close>

lemma commit_ran:
  assumes inv: "engine_inv c hash e" and co: "en_coord e = Preparing rq parts (length parts) now results"
    and aw: "\<not> en_awaiting e"
  shows "\<exists>reply. combine (rq_operation rq) parts results = Some reply \<and>
    ran now (rq_operation rq) (view c hash e) reply (view c hash (e\<lparr>en_coord := Applying rq parts 0 reply'\<rparr>))"
proof -
  let ?tab = "\<lambda>i. table (o_shard (en_owners e ! i))"
  let ?new = "\<lambda>i. if i \<in> set (map pt_owner parts) then owner_view (Applying rq parts 0 reply') (en_owners e ! i) else ?tab i"
  have ok: "keys_fit (rq_operation rq)" "split (rq_operation rq) hash (workers c) = Some parts" "length results = length parts"
    using engine_invD(3) [OF inv] co by (auto simp: coord_ok_def)
  have x: "en_completion e = None" using engine_invD(4) [OF inv] aw by (auto simp: wait_ok_def)
  have "ran now (pt_operation (parts ! j)) (?tab (pt_owner (parts ! j))) (results ! j) (?new (pt_owner (parts ! j)))"
    if j: "j < length parts" for j
  proof -
    let ?o = "en_owners e ! pt_owner (parts ! j)"
    obtain p where p: "o_reservation ?o = Some \<lparr>rv_id = en_next_id e, rv_prepared = Some p\<rparr>"
      "prepared_for (o_shard ?o) (pt_operation (parts ! j)) now p" "p_response p = results ! j"
      using part_reservation(1) [OF inv, of j] co j by auto
    have "?new (pt_owner (parts ! j)) = override (table (o_shard ?o)) (p_effects p)"
      using p(1) j by (simp add: owner_view_def pending_def)
    moreover have "shard_reach (shard_limits c (pt_owner (parts ! j))) (o_shard ?o)"
      using part_reservation(2) [OF inv, of j] co j by simp
    ultimately show ?thesis using prepared_for_effects(5) [OF _ p(2)] p(3) by simp
  qed
  then obtain reply where reply: "combine (rq_operation rq) parts results = Some reply"
    "ran now (rq_operation rq) (\<lambda>k. ?tab (route hash (workers c) k) k) reply (\<lambda>k. ?new (route hash (workers c) k) k)"
    using parts_ran [OF ok(2,1,3), of now ?tab ?new] by auto
  have "(\<lambda>k. ?new (route hash (workers c) k) k) = view c hash (e\<lparr>en_coord := Applying rq parts 0 reply'\<rparr>)"
    using other_unreserved [OF inv route_less [OF engine_invD(1) [OF inv]], of hash] co
    by (auto simp: view_def owner_view_def)
  then show ?thesis using reply co by (auto simp: view_not_applying)
qed

lemma applied_view:
  assumes inv: "engine_inv c hash e" and co: "en_coord e = Applying rq parts (length parts) reply"
  shows "view c hash e = (\<lambda>k. table (o_shard (en_owners e ! route hash (workers c) k)) k)"
proof -
  have "owner_view (en_coord e) (en_owners e ! i) = table (o_shard (en_owners e ! i))" if i: "i < workers c" for i
  proof (cases "i \<in> set (map pt_owner parts)")
    case True
    then obtain j where "j < length parts" "i = pt_owner (parts ! j)" by (auto simp: in_set_conv_nth)
    then show ?thesis
      using part_reservation(1) [OF inv, of j] co by (auto simp: owner_view_def pending_def)
  next
    case False
    then show ?thesis using other_unreserved [OF inv i] co by (simp add: owner_view_def)
  qed
  then show ?thesis using route_less [OF engine_invD(1) [OF inv]] by (simp add: view_def)
qed

lemma coord_phase_atomic:
  assumes inv: "engine_inv c hash e" and aw: "\<not> en_awaiting e" and k: "c_index (en_coord e) = length (c_parts (en_coord e))"
    and co': "coord_phase_end n now (en_coord e) = Some co'"
  shows "\<exists>g. atomic_step g (view c hash e) (view c hash (e\<lparr>en_coord := co'\<rparr>)) \<and> decided co' = decided (en_coord e) @ g"
proof (cases "en_coord e")
  case (Reserving rq parts k)
  then show ?thesis
    using co' by (intro exI [of _ "[]"]) (auto simp: view_not_applying intro: atomic_step.stutter)
next
  case (Preparing rq parts k now' results)
  then have "k = length parts" using k by simp
  then obtain reply where reply: "combine (rq_operation rq) parts results = Some reply"
    "ran now' (rq_operation rq) (view c hash e) reply (view c hash (e\<lparr>en_coord := Applying rq parts 0 reply\<rparr>))"
    using commit_ran [OF inv _ aw] Preparing by (metis option.inject)
  then show ?thesis
    using co' Preparing
    by (auto simp: view_not_applying intro: atomic_step.run atomic_step.refuse split: if_splits)
next
  case (Applying rq parts k reply)
  then show ?thesis
    using co' k applied_view [OF inv] by (intro exI [of _ "[]"]) (auto simp: view_not_applying intro: atomic_step.stutter)
qed (use co' in simp_all)

lemma coord_complete_atomic:
  assumes "coord_complete co y = Some co'" and "en_coord e = co" and "en_coord e' = co'" and "en_owners e' = en_owners e"
  shows "\<exists>g. atomic_step g (view c hash e) (view c hash e') \<and> decided co' = decided co @ g"
  using assms
  by (induction co y rule: coord_complete.induct)
    (auto simp: view_def owner_view_def pending_def EngineError_reply_def intro: atomic_step.intros)

subsection \<open>Every step is atomic\<close>

lemma view_frame: "en_owners e' = en_owners e \<Longrightarrow> en_coord e' = en_coord e \<Longrightarrow> view c hash e' = view c hash e"
  by (simp add: view_def)

lemma stutter_step:
  assumes "view c hash e' = view c hash e" and "outcomes e' = outcomes e"
  shows "\<exists>g. atomic_step g (view c hash e) (view c hash e') \<and> mset (outcomes e') = mset (outcomes e) + mset g"
  using assms by (intro exI [of _ "[]"]) (auto intro: atomic_step.stutter)

lemma refuse_step:
  assumes "en_owners e' = en_owners e" and "en_coord e' = en_coord e"
    and "en_answered e' = en_answered e @ [(rq, Reply_error msg)]"
  shows "\<exists>g. atomic_step g (view c hash e) (view c hash e') \<and> mset (outcomes e') = mset (outcomes e) + mset g"
  using assms view_frame [OF assms(1,2), of c hash]
  by (intro exI [of _ "[(rq, Reply_error msg)]"]) (auto simp: outcomes_def intro: atomic_step.refuse)

lemma coord_step:
  assumes "atomic_step g (view c hash e) (view c hash e')" and "decided (en_coord e') = decided (en_coord e) @ g"
    and "en_answered e' = en_answered e"
  shows "\<exists>g. atomic_step g (view c hash e) (view c hash e') \<and> mset (outcomes e') = mset (outcomes e) + mset g"
  using assms by (intro exI [of _ g]) (simp add: outcomes_def)

lemma owner_step:
  assumes inv: "engine_inv c hash e" and i: "i < workers c"
    and atomic: "owner_atomic c hash (en_coord e) i (en_owners e ! i) (answers evs) o2"
  shows "\<exists>g. atomic_step g (view c hash e) (view c hash (deliver i evs (set_owner i o2 (e\<lparr>en_top := b\<rparr>)))) \<and>
    mset (outcomes (deliver i evs (set_owner i o2 (e\<lparr>en_top := b\<rparr>)))) = mset (outcomes e) + mset g"
proof (intro exI conjI)
  have "\<forall>k \<in> dom (table (o_shard (en_owners e ! i))). route hash (workers c) k = i"
    using engine_invD(5) [OF inv i] by (simp add: owner_inv_def owner_good_def)
  then show "atomic_step (answers evs) (view c hash e) (view c hash (deliver i evs (set_owner i o2 (e\<lparr>en_top := b\<rparr>))))"
    by (intro owner_atomic_view [OF i engine_invD(2) [OF inv] _ _ _ atomic]) simp_all
  show "mset (outcomes (deliver i evs (set_owner i o2 (e\<lparr>en_top := b\<rparr>)))) = mset (outcomes e) + mset (answers evs)"
    by (simp add: outcomes_def)
qed

lemma admission_refusal: "admission c hash closing op = Rejected reply \<Longrightarrow> \<exists>msg. reply = Reply_error msg"
  by (auto simp: admission_def Let_def split: if_splits list.splits)

lemma view_owners_cong:
  assumes "\<And>j. o_shard (en_owners e' ! j) = o_shard (en_owners e ! j) \<and> o_reservation (en_owners e' ! j) = o_reservation (en_owners e ! j)"
    and "en_coord e' = en_coord e"
  shows "view c hash e' = view c hash e"
  using owner_view_cong assms unfolding view_def by (metis (no_types))

lemma enqueue_view: "view c hash (enqueue target rq e) = view c hash e"
  by (rule view_owners_cong) (simp_all add: enqueue_def nth_list_update_if split: option.splits)

lemma push_control_view: "view c hash (push_control i msg e) = view c hash e"
  by (rule view_owners_cong) (simp_all add: push_control_def nth_list_update_if)

lemma outcomes_frame [simp]:
  "outcomes (e\<lparr>en_sending := x\<rparr>) = outcomes e" "outcomes (enqueue target rq e) = outcomes e"
  "outcomes (push_control i msg e) = outcomes e" "outcomes (take_credit target n e) = outcomes e"
  "outcomes (e\<lparr>en_awaiting := a\<rparr>) = outcomes e" "outcomes (e\<lparr>en_stopped := n\<rparr>) = outcomes e"
  by (simp_all add: outcomes_def enqueue_def push_control_def split: option.splits)

lemma step_is_atomic:
  assumes step: "engine_step c hash e e'" and inv: "engine_inv c hash e"
  shows "\<exists>g. atomic_step g (view c hash e) (view c hash e') \<and> mset (outcomes e') = mset (outcomes e) + mset g"
  using step
proof cases
  case (reject rq reply)
  then show ?thesis using admission_refusal [OF reject(2)] by (auto intro: refuse_step)
next
  case (acquire rq target)
  then show ?thesis by (intro stutter_step) (simp_all add: view_def outcomes_def)
next
  case (acquire_timeout rq target)
  then show ?thesis by (auto intro: refuse_step)
next
  case (send before rq target "after")
  then show ?thesis by (intro stutter_step) (simp_all add: enqueue_view, simp add: view_def)
next
  case (send_timeout before rq target "after")
  then show ?thesis by (auto intro: refuse_step)
next
  case (send_closed before rq target "after")
  then show ?thesis by (auto intro: refuse_step)
next
  case (top i alloc now evs o1)
  then show ?thesis using owner_step [OF inv top(2)] owner_top_atomic [OF engine_invD(5) [OF inv top(2)]] by blast
next
  case (select i alloc now tick_ready evs o1)
  then show ?thesis
    using owner_step [OF inv select(2)] owner_select_atomic [OF engine_invD(5) [OF inv select(2)] engine_invD(3) [OF inv]] by blast
next
  case (coord_take rq rest tid parts)
  then show ?thesis by (intro stutter_step) (simp_all add: view_not_applying outcomes_def)
next
  case (coord_stop rest)
  then show ?thesis by (intro stutter_step) (simp_all add: view_not_applying outcomes_def)
next
  case coord_finish
  then show ?thesis by (intro stutter_step) (simp_all add: view_not_applying outcomes_def)
next
  case (coord_send i msg)
  then show ?thesis using push_control_view [of c hash i msg e]
    by (intro stutter_step) (simp_all add: view_def)
next
  case (coord_receive x c')
  then show ?thesis using coord_complete_atomic [OF coord_receive(4), of e e' c hash] coord_step [of _ c hash e e'] by auto
next
  case (coord_phase now c')
  then show ?thesis using coord_phase_atomic [OF inv coord_phase(2-4)] coord_step [of _ c hash e e'] by auto
next
  case (coord_answer rq parts response)
  then show ?thesis by (intro stutter_step) (simp_all add: view_not_applying outcomes_def)
next
  case (stats i client)
  then show ?thesis by (intro stutter_step) (simp_all add: push_control_view)
next
  case shutdown
  then show ?thesis by (intro stutter_step) (simp_all add: view_def outcomes_def)
next
  case shutdown_cross
  then show ?thesis by (intro stutter_step) (simp_all add: view_def outcomes_def)
next
  case (shutdown_owner i)
  then show ?thesis using push_control_view [of c hash i Stop e]
    by (intro stutter_step) (simp_all add: view_def)
qed

lemma view_start:
  assumes "engine_init c e"
  shows "view c hash e = Map.empty \<and> outcomes e = []"
proof -
  obtain alloc ss where ss: "e = fresh_engine c ss" "length ss = workers c" "0 < workers c"
    "\<And>i. i < workers c \<Longrightarrow> Shard_new alloc (shard_limits c i) = Inr (ss ! i)"
    using assms engine_started unfolding engine_init_def by blast
  have "table (ss ! i) = Map.empty" if "i < workers c" for i
    using ss(4) [OF that] Shard_new_table by blast
  then show ?thesis
    using ss(1,2) route_less [OF ss(3)] by (auto simp: fresh_engine_def view_def owner_view_def outcomes_def)
qed

interpretation engine: serial_system "engine_init c" "engine_step c hash" "engine_inv c hash" "view c hash" outcomes
  for c hash
  by unfold_locales (use view_start step_is_atomic in blast)+

end
