(* ===== verification/Engine_Runs.thy ===== *)
theory Engine_Runs
  imports Engine_Atomicity
begin

section \<open>Runs of the engine\<close>

text \<open>
  A schedule picks the steps of the engine one by one, so that runs can be evaluated. Every scheduled
  action is a step of the engine; the properties of the concurrent engine are applied to such runs.
\<close>

datatype Action =
    Submit DataRequest
  | Hand
  | Turn nat int bool
  | Coordinate int
  | AskStats nat nat
  | Close

text \<open>What the coordinator does next, if it is not waiting for an owner.\<close>

definition coord_turn :: "Config \<Rightarrow> hasher \<Rightarrow> int \<Rightarrow> Engine \<Rightarrow> Engine option" where
  "coord_turn c hash now e =
     (if en_awaiting e then do {
        x \<leftarrow> en_completion e;
        co \<leftarrow> coord_complete (en_coord e) x;
        Some (e\<lparr>en_coord := co, en_awaiting := False, en_completion := None\<rparr>)
      }
      else case coord_message (en_next_id e) (en_coord e) of
        Some (i, msg) \<Rightarrow>
          if length (o_controls (en_owners e ! i)) < control_capacity
          then Some ((push_control i msg e)\<lparr>en_awaiting := True\<rparr>) else None
      | None \<Rightarrow>
          (case en_coord e of
             Idle \<Rightarrow>
               (case en_cross e of
                  CrossExecute rq # rest \<Rightarrow> do {
                    tid \<leftarrow> u64_checked_add (en_next_id e) 1;
                    parts \<leftarrow> split (rq_operation rq) hash (workers c);
                    Some (e\<lparr>en_coord := Reserving rq parts 0, en_next_id := tid, en_cross := rest\<rparr>)
                  }
                | CrossStop # rest \<Rightarrow> Some (e\<lparr>en_cross_closed := True, en_cross := rest\<rparr>)
                | [] \<Rightarrow> if en_cross_closed e then Some (e\<lparr>en_coord := Finished\<rparr>) else None)
           | Releasing rq parts k response \<Rightarrow>
               if k = length parts
               then Some (answer rq response (give_back None (rq_credit rq) (e\<lparr>en_coord := Idle\<rparr>))) else None
           | Finished \<Rightarrow> None
           | co \<Rightarrow>
               if c_index co = length (c_parts co)
               then map_option (\<lambda>co'. e\<lparr>en_coord := co'\<rparr>) (coord_phase_end (cfg_max_reply_bytes c) now co) else None))"

fun act :: "Config \<Rightarrow> hasher \<Rightarrow> Action \<Rightarrow> Engine \<Rightarrow> Engine option" where
  "act c hash (Submit rq) e =
     (case admission c hash False (rq_operation rq) of
        Admitted target credit \<Rightarrow>
          if rq_credit rq = credit \<and> int (length (Operation_keys (rq_operation rq))) \<le> i64_max \<and> credit \<le> available target e
          then Some ((take_credit target credit e)\<lparr>en_sending := en_sending e @ [(rq, target)]\<rparr>) else None
      | Rejected reply \<Rightarrow> None)"
| "act c hash Hand e =
     (case en_sending e of
        (rq, target) # rest \<Rightarrow>
          if target_closed target e \<or> target_full c target e then None
          else Some (enqueue target rq (e\<lparr>en_sending := rest\<rparr>))
      | [] \<Rightarrow> None)"
| "act c hash (Turn i now tick_ready) e =
     (if \<not> i < workers c then None
      else if en_top e ! i then do {
        (evs, o1) \<leftarrow> owner_top (\<lambda>site n. True) now (en_owners e ! i);
        Some (deliver i evs (set_owner i o1 (e\<lparr>en_top := (en_top e)[i := False]\<rparr>)))
      }
      else case owner_select (\<lambda>site n. True) now (expiry_batch c) tick_ready False False (en_owners e ! i) of
             Some (Continue evs o1) \<Rightarrow> Some (deliver i evs (set_owner i o1 (e\<lparr>en_top := (en_top e)[i := True]\<rparr>)))
           | _ \<Rightarrow> None)"
| "act c hash (Coordinate now) e = coord_turn c hash now e"
| "act c hash (AskStats i client) e =
     (if i < workers c \<and> length (o_controls (en_owners e ! i)) < control_capacity
      then Some (push_control i (Stats client) e) else None)"
| "act c hash Close e = Some (e\<lparr>en_closing := True\<rparr>)"

fun run_schedule :: "Config \<Rightarrow> hasher \<Rightarrow> Action list \<Rightarrow> Engine \<Rightarrow> Engine option" where
  "run_schedule c hash [] e = Some e"
| "run_schedule c hash (a # as) e = Option.bind (act c hash a e) (run_schedule c hash as)"

lemma coord_turn_step:
  assumes "coord_turn c hash now e = Some e'"
  shows "engine_step c hash e e'"
proof (cases "en_awaiting e")
  case True
  then show ?thesis
    using assms by (auto simp: coord_turn_def intro: engine_step.coord_receive split: Option.bind_splits)
next
  case idle: False
  show ?thesis
  proof (cases "coord_message (en_next_id e) (en_coord e)")
    case (Some im)
    then show ?thesis
      using assms idle by (cases im) (auto simp: coord_turn_def intro: engine_step.coord_send split: if_splits)
  next
    case None
    then show ?thesis
      using assms idle
      by (auto simp: coord_turn_def intro: engine_step.coord_take engine_step.coord_stop engine_step.coord_finish
          engine_step.coord_phase engine_step.coord_answer
          split: Coordinator.splits list.splits CrossRequest.splits Option.bind_splits if_splits)
  qed
qed

lemma act_step:
  assumes "act c hash a e = Some e'"
  shows "engine_step c hash e e'"
proof (cases a)
  case (Submit rq)
  then show ?thesis
    using assms by (auto simp: keys_fit_def intro: engine_step.acquire split: Admission.splits if_splits)
next
  case Hand
  then obtain rq target rest where "en_sending e = [] @ (rq, target) # rest" "\<not> target_closed target e" "\<not> target_full c target e"
    "e' = enqueue target rq (e\<lparr>en_sending := [] @ rest\<rparr>)"
    using assms by (auto split: list.splits if_splits)
  then show ?thesis using engine_step.send by blast
next
  case (Turn i now tick_ready)
  then show ?thesis
    using assms by (auto intro: engine_step.top engine_step.select
      split: if_splits Option.bind_splits option.splits SelectResult.splits)
next
  case (Coordinate now)
  then show ?thesis using assms coord_turn_step by simp
next
  case (AskStats i client)
  then show ?thesis using assms by (auto intro: engine_step.stats split: if_splits)
next
  case Close
  then show ?thesis using assms by (auto intro: engine_step.shutdown)
qed

lemma run_schedule_steps: "run_schedule c hash as e = Some e' \<Longrightarrow> (engine_step c hash)\<^sup>*\<^sup>* e e'"
proof (induction as arbitrary: e)
  case (Cons a as)
  then obtain e1 where "act c hash a e = Some e1" "run_schedule c hash as e1 = Some e'"
    by (auto split: Option.bind_splits)
  then show ?case using Cons.IH act_step by (meson converse_rtranclp_into_rtranclp)
qed simp

lemma run_schedule_reach:
  "run_schedule c hash as e = Some e' \<Longrightarrow> engine_reach c hash e \<Longrightarrow> engine_reach c hash e'"
  using reach_steps [OF run_schedule_steps] by blast

subsection \<open>A command over two owners\<close>

text \<open>
  Two owners, and \<open>MSET a 1 bb 2\<close>, whose keys belong to different owners: the run up to the point where
  one owner has applied its part and the other has not, and the run to the reply.
\<close>

definition demo_config :: Config where
  "demo_config = Config_default (Some 4)"

definition demo_hash :: hasher where
  "demo_hash key = length key"

definition demo_request :: DataRequest where
  "demo_request = \<lparr>rq_client = 7, rq_operation = MultiSet [(''a'', ''1''), (''bb'', ''2'')], rq_credit = 517\<rparr>"

definition demo_exchange :: "nat \<Rightarrow> Action list" where
  "demo_exchange i = [Coordinate 0, Turn i 0 False, Turn i 0 False, Coordinate 0]"

definition demo_prefix :: "Action list" where
  "demo_prefix = [Submit demo_request, Hand, Coordinate 0] @ demo_exchange 0 @ demo_exchange 1 @ [Coordinate 100] @
     demo_exchange 0 @ demo_exchange 1 @ [Coordinate 0]"

definition demo_half :: "Action list" where
  "demo_half = demo_prefix @ demo_exchange 0"

definition demo_full :: "Action list" where
  "demo_full = demo_half @ demo_exchange 1 @ [Coordinate 0] @ demo_exchange 0 @ demo_exchange 1 @ [Coordinate 0]"

definition demo_shard :: "nat \<Rightarrow> Shard" where
  "demo_shard i = \<lparr>entries = [], expiry = \<lparr>heap = [], positions = []\<rparr>, limits = shard_limits demo_config i,
     payload_bytes = 0, revision = 0, expired_keys = 0, applied_commands = 0\<rparr>"

definition demo_start :: Engine where
  "demo_start = fresh_engine demo_config [demo_shard 0, demo_shard 1]"

definition demo_engine :: "Action list \<Rightarrow> Engine" where
  "demo_engine as = the (run_schedule demo_config demo_hash as demo_start)"

lemma demo_init: "engine_init demo_config demo_start"
proof -
  have "with_clock granting demo_config = Inr demo_start" by code_simp
  then show ?thesis by (auto simp: engine_init_def)
qed

lemma demo_runs: "run_schedule demo_config demo_hash demo_half demo_start = Some (demo_engine demo_half)"
  "run_schedule demo_config demo_hash demo_full demo_start = Some (demo_engine demo_full)"
  by code_simp+

lemma demo_half_state: "view demo_config demo_hash (demo_engine demo_half) ''a'' = Some \<lparr>e_value = ''1'', e_expires = None\<rparr> \<and>
  view demo_config demo_hash (demo_engine demo_half) ''bb'' = Some \<lparr>e_value = ''2'', e_expires = None\<rparr> \<and>
  map_of (entries (o_shard (en_owners (demo_engine demo_half) ! 1))) ''a'' = None \<and>
  outcomes (demo_engine demo_half) = [(demo_request, Reply_ok)] \<and> en_answered (demo_engine demo_half) = []"
  by code_simp

lemma demo_reach:
  "engine_reach demo_config demo_hash (demo_engine demo_half)" "engine_reach demo_config demo_hash (demo_engine demo_full)"
  using run_schedule_reach [OF demo_runs(1)] run_schedule_reach [OF demo_runs(2)]
    reach.start [of "engine_init demo_config", OF demo_init] by blast+

subsection \<open>The properties\<close>

text \<open>
  Claim C2. Each step of the concurrent engine is one atomic step of the single keyspace it stands for:
  it changes nothing, removes keys whose deadline has passed, runs one whole command at one time, or
  refuses one command without any effect, and the replies given or decided grow by exactly the outcome
  of that step. A command over several owners is thereby applied as a whole at one step, although its
  owners install their parts one after the other.
\<close>

theorem engine_step_atomic:
  assumes "engine_reach c hash e" and "engine_step c hash e e'"
  shows "\<exists>g. atomic_step g (view c hash e) (view c hash e') \<and> mset (outcomes e') = mset (outcomes e) + mset g"
  by (rule step_is_atomic [OF assms(2) engine.reach_inv [OF assms(1)]])

theorem engine_step_atomic_witness:
  "\<exists>e' g. act demo_config demo_hash (Turn 1 0 False) (demo_engine demo_half) = Some e' \<and>
     atomic_step g (view demo_config demo_hash (demo_engine demo_half)) (view demo_config demo_hash e') \<and>
     mset (outcomes e') = mset (outcomes (demo_engine demo_half)) + mset g"
proof -
  have "act demo_config demo_hash (Turn 1 0 False) (demo_engine demo_half) \<noteq> None" by code_simp
  then obtain e' where e': "act demo_config demo_hash (Turn 1 0 False) (demo_engine demo_half) = Some e'" by blast
  show ?thesis using engine_step_atomic [OF demo_reach(1) act_step [OF e']] e' by blast
qed

text \<open>
  Claim C1. The engine is linearizable: the outcomes of any run are those of a serial run of the
  commands on one keyspace, and when the engine goes on, the serial run is only extended. So a command
  that was answered before another was submitted precedes it in the serial order.
\<close>

theorem engine_linearizable:
  assumes "engine_reach c hash e" and "(engine_step c hash)\<^sup>*\<^sup>* e e'"
  shows "\<exists>h g. serial h (view c hash e) \<and> mset h = mset (outcomes e) \<and>
    serial (h @ g) (view c hash e') \<and> mset (h @ g) = mset (outcomes e')"
proof -
  obtain h where h: "serial h (view c hash e)" "mset h = mset (outcomes e)"
    using engine.reach_serial [OF assms(1)] by blast
  obtain g where "serial (h @ g) (view c hash e')" "mset (outcomes e') = mset (outcomes e) + mset g"
    using engine.steps_serial [OF assms(2) engine.reach_inv [OF assms(1)] h(1)] by blast
  then show ?thesis using h by (metis mset_append)
qed

theorem engine_linearizable_witness:
  "\<exists>h g. serial h (view demo_config demo_hash (demo_engine demo_full)) \<and> mset h = {#(demo_request, Reply_ok)#} \<and>
    serial (h @ g) (view demo_config demo_hash (demo_engine demo_full)) \<and> mset (h @ g) = {#(demo_request, Reply_ok)#}"
proof -
  have "outcomes (demo_engine demo_full) = [(demo_request, Reply_ok)]" by code_simp
  then show ?thesis using engine_linearizable [OF demo_reach(2) rtranclp.rtrancl_refl] by simp
qed

end
