(* ===== verification/Engine_Credits.thy ===== *)
theory Engine_Credits
  imports Engine_Runs
begin

section \<open>Queues and byte credits\<close>

text \<open>
  Every accepted command holds credits of its queue from admission to its reply. The credits of an
  owner's queue, or of the coordinator's, are conserved: what is free and what waiting and queued
  commands hold add up to \<open>queue_bytes\<close>, so the bytes of pending commands are bounded, and no credit is
  lost when a command times out, is refused at shutdown, or is aborted.
\<close>

definition credits_of :: "DataRequest list \<Rightarrow> nat" where
  "credits_of rqs = sum_list (map rq_credit rqs)"

definition waiting_for :: "nat option \<Rightarrow> (DataRequest \<times> nat option) list \<Rightarrow> DataRequest list" where
  "waiting_for target sending = map fst (filter (\<lambda>p. snd p = target) sending)"

fun cross_requests :: "CrossRequest list \<Rightarrow> DataRequest list" where
  "cross_requests [] = []"
| "cross_requests (CrossExecute rq # rest) = rq # cross_requests rest"
| "cross_requests (CrossStop # rest) = cross_requests rest"

definition queued :: "nat option \<Rightarrow> Engine \<Rightarrow> DataRequest list" where
  "queued target e =
     (case target of
        Some i \<Rightarrow> o_data (en_owners e ! i)
      | None \<Rightarrow> c_request (en_coord e) @ cross_requests (en_cross e))"

definition valid_target :: "Config \<Rightarrow> nat option \<Rightarrow> bool" where
  "valid_target c target = (case target of Some i \<Rightarrow> i < workers c | None \<Rightarrow> True)"

definition charged :: "DataRequest \<Rightarrow> bool" where
  "charged rq \<longleftrightarrow> rq_credit rq = charge_of (rq_operation rq)"

text \<open>The credits of one queue, and the capacities of the channels.\<close>

definition credit_ok :: "Config \<Rightarrow> Engine \<Rightarrow> nat option \<Rightarrow> bool" where
  "credit_ok c e target \<longleftrightarrow>
     available target e + credits_of (queued target e) + credits_of (waiting_for target (en_sending e)) = queue_bytes c \<and>
     (\<forall>rq \<in> set (queued target e) \<union> set (waiting_for target (en_sending e)). charged rq)"

definition capacity_ok :: "Config \<Rightarrow> Engine \<Rightarrow> bool" where
  "capacity_ok c e \<longleftrightarrow> length (en_cross e) \<le> queue_capacity c \<and>
     (\<forall>i < workers c. length (o_data (en_owners e ! i)) \<le> queue_capacity c \<and>
        length (o_controls (en_owners e ! i)) \<le> control_capacity)"

definition credit_inv :: "Config \<Rightarrow> Engine \<Rightarrow> bool" where
  "credit_inv c e \<longleftrightarrow> (\<forall>target. valid_target c target \<longrightarrow> credit_ok c e target) \<and> capacity_ok c e"

lemma credits_of_simps [simp]:
  "credits_of [] = 0" "credits_of (rq # rqs) = rq_credit rq + credits_of rqs"
  "credits_of (xs @ ys) = credits_of xs + credits_of ys"
  by (simp_all add: credits_of_def)

lemma waiting_for_simps [simp]:
  "waiting_for t [] = []" "waiting_for t (xs @ ys) = waiting_for t xs @ waiting_for t ys"
  "waiting_for t ((rq, t') # xs) = (if t' = t then rq # waiting_for t xs else waiting_for t xs)"
  by (simp_all add: waiting_for_def)

lemma cross_requests_append [simp]: "cross_requests (xs @ ys) = cross_requests xs @ cross_requests ys"
  by (induction xs rule: cross_requests.induct) simp_all

subsection \<open>A turn of an owner\<close>

lemma deliver_credits:
  "i < length (en_credits e) \<Longrightarrow>
   en_credits (deliver i evs e) = (en_credits e)[i := en_credits e ! i + credits_of (map fst (answers evs))]"
  by (induction i evs e rule: deliver.induct) (simp_all add: add.assoc)

text \<open>An owner answers the commands of its queue in the order they were accepted.\<close>

definition turn_queues :: "OwnerState \<Rightarrow> OwnerEvent list \<Rightarrow> OwnerState \<Rightarrow> bool" where
  "turn_queues o1 evs o2 \<longleftrightarrow> o_data o1 = map fst (answers evs) @ o_data o2 \<and> length (o_controls o2) \<le> length (o_controls o1)"

lemma handle_control_queues:
  "handle_control alloc o1 msg = Some (evs, o2) \<Longrightarrow>
   answers evs = [] \<and> o_data o2 = o_data o1 \<and> o_controls o2 = o_controls o1"
  by (cases msg) (auto split: if_splits Option.bind_splits sum.splits)

lemma execute_local_answer: "execute_local alloc s rq now = Some (ev, s') \<Longrightarrow> \<exists>reply. ev = Answer rq reply"
  by (auto simp: execute_local_def split: Option.bind_splits)

lemma owner_top_queues: "owner_top alloc now o1 = Some (evs, o2) \<Longrightarrow> turn_queues o1 evs o2"
  by (erule owner_top_cases) (auto simp: turn_queues_def dest: execute_local_answer)

lemma owner_select_queues:
  "owner_select alloc now batch tick False False o1 = Some (Continue evs o2) \<Longrightarrow> turn_queues o1 evs o2"
  by (erule owner_select_cases) (auto simp: turn_queues_def dest: execute_local_answer handle_control_queues)

lemma credit_inv_turn:
  assumes inv: "engine_inv c hash e" and cr: "credit_inv c e" and i: "i < workers c" and q: "turn_queues (en_owners e ! i) evs o2"
  shows "credit_inv c (deliver i evs (set_owner i o2 (e\<lparr>en_top := b\<rparr>)))" (is "credit_inv c ?e'")
proof -
  have len: "length (en_owners e) = workers c" "length (en_credits e) = workers c" using inv by (simp_all add: engine_inv_def)
  have credits: "en_credits ?e' = (en_credits e)[i := en_credits e ! i + credits_of (map fst (answers evs))]"
    using deliver_credits i len by simp
  have "credit_ok c ?e' target" if "valid_target c target" for target
  proof (cases "target = Some i")
    case True
    have "credit_ok c e (Some i)" using cr i by (simp add: credit_inv_def valid_target_def)
    then show ?thesis
      using True q len i credits by (auto simp: credit_ok_def available_def queued_def turn_queues_def)
  next
    case False
    have "credit_ok c e target" using cr that by (simp add: credit_inv_def)
    then show ?thesis
      using False that len credits
      by (auto simp: credit_ok_def available_def queued_def valid_target_def nth_list_update split: option.splits)
  qed
  moreover have "capacity_ok c ?e'"
    using cr q i len by (auto simp: credit_inv_def capacity_ok_def turn_queues_def nth_list_update)
  ultimately show ?thesis by (simp add: credit_inv_def)
qed

subsection \<open>The other steps\<close>

text \<open>Steps of a client: the credits of one target move between free, waiting and queued.\<close>

lemma charge_admitted: "admission c hash closing op = Admitted target credit \<Longrightarrow> credit = charge_of op"
  by (auto simp: admission_def Let_def split: if_splits list.splits)

lemma sending_target:
  assumes "engine_inv c hash e" and "en_sending e = before @ (rq, target) # after"
  shows "valid_target c target"
  using assms by (auto simp: engine_inv_def target_ok_def valid_target_def split: option.splits)

lemma credit_acquire:
  assumes "length (en_credits e) = workers c" and "credit_inv c e" and "valid_target c target"
    and "rq_credit rq \<le> available target e" and "charged rq"
  shows "credit_inv c ((take_credit target (rq_credit rq) e)\<lparr>en_sending := en_sending e @ [(rq, target)]\<rparr>)"
proof -
  let ?e' = "(take_credit target (rq_credit rq) e)\<lparr>en_sending := en_sending e @ [(rq, target)]\<rparr>"
  have "credit_ok c ?e' t" if "valid_target c t" for t
  proof -
    have old: "credit_ok c e t" using assms(2) that by (simp add: credit_inv_def)
    have "queued t ?e' = queued t e" by (simp add: queued_def split: option.splits)
    moreover have "available t ?e' = (if t = target then available t e - rq_credit rq else available t e)"
      using assms(1,3) that
      by (auto simp: available_def take_credit_def valid_target_def nth_list_update split: option.splits)
    ultimately show ?thesis using old assms(4,5) by (auto simp: credit_ok_def)
  qed
  then show ?thesis using assms(2) by (simp add: credit_inv_def capacity_ok_def)
qed

lemma credit_drop:
  assumes "length (en_credits e) = workers c" and "credit_inv c e" and "valid_target c target"
    and "en_sending e = before @ (rq, target) # after"
  shows "credit_inv c (answer rq reply (give_back target (rq_credit rq) (e\<lparr>en_sending := before @ after\<rparr>)))" (is "credit_inv c ?e'")
proof -
  have "credit_ok c ?e' t" if "valid_target c t" for t
  proof -
    have old: "credit_ok c e t" using assms(2) that by (simp add: credit_inv_def)
    have "queued t ?e' = queued t e" by (simp add: queued_def split: option.splits)
    moreover have "available t ?e' = (if t = target then available t e + rq_credit rq else available t e)"
      using assms(1,3) that
      by (auto simp: available_def give_back_def answer_def valid_target_def nth_list_update split: option.splits)
    ultimately show ?thesis using old assms(4) by (auto simp: credit_ok_def)
  qed
  then show ?thesis using assms(2) by (simp add: credit_inv_def capacity_ok_def)
qed

lemma credit_send:
  assumes "length (en_owners e) = workers c" and "credit_inv c e" and "valid_target c target"
    and "en_sending e = before @ (rq, target) # after" and "\<not> target_full c target e"
  shows "credit_inv c (enqueue target rq (e\<lparr>en_sending := before @ after\<rparr>))" (is "credit_inv c ?e'")
proof -
  have "credit_ok c ?e' t" if "valid_target c t" for t
  proof -
    have old: "credit_ok c e t" using assms(2) that by (simp add: credit_inv_def)
    have "queued t ?e' = (if t = target then queued t e @ [rq] else queued t e)"
      using assms(1,3) by (auto simp: queued_def enqueue_def valid_target_def nth_list_update split: option.splits)
    moreover have "available t ?e' = available t e"
      by (simp add: available_def enqueue_def split: option.splits)
    moreover have "en_sending ?e' = before @ after" by (simp add: enqueue_def split: option.splits)
    ultimately show ?thesis using old assms(4) by (auto simp: credit_ok_def)
  qed
  moreover have "capacity_ok c ?e'"
    using assms by (auto simp: credit_inv_def capacity_ok_def enqueue_def target_full_def nth_list_update valid_target_def split: option.splits)
  ultimately show ?thesis by (simp add: credit_inv_def)
qed

text \<open>Steps that leave every queue and every credit as it is.\<close>

lemma credit_frame:
  assumes "credit_inv c e" and "en_credits e' = en_credits e" and "en_cross_credits e' = en_cross_credits e"
    and "en_sending e' = en_sending e" and "length (en_cross e') \<le> queue_capacity c"
    and "c_request (en_coord e') @ cross_requests (en_cross e') = c_request (en_coord e) @ cross_requests (en_cross e)"
    and "\<And>i. i < workers c \<Longrightarrow> o_data (en_owners e' ! i) = o_data (en_owners e ! i) \<and>
      length (o_controls (en_owners e' ! i)) \<le> control_capacity"
  shows "credit_inv c e'"
proof -
  have "credit_ok c e' t" if "valid_target c t" for t
  proof -
    have "credit_ok c e t" using assms(1) that by (simp add: credit_inv_def)
    moreover have "queued t e' = queued t e"
      using assms(6,7) that by (auto simp: queued_def valid_target_def split: option.splits)
    moreover have "available t e' = available t e" using assms(2,3) by (simp add: available_def split: option.splits)
    ultimately show ?thesis using assms(4) by (simp add: credit_ok_def)
  qed
  moreover have "capacity_ok c e'" using assms(1,5,7) by (auto simp: credit_inv_def capacity_ok_def)
  ultimately show ?thesis by (simp add: credit_inv_def)
qed

lemma capacityD:
  assumes "credit_inv c e"
  shows "length (en_cross e) \<le> queue_capacity c" and "i < workers c \<Longrightarrow> length (o_controls (en_owners e ! i)) \<le> control_capacity"
  using assms by (simp_all add: credit_inv_def capacity_ok_def)

lemma credit_push:
  assumes cr: "credit_inv c e" and "length (o_controls (en_owners e ! i)) < control_capacity"
    and "en_owners e' = en_owners (push_control i msg e)" and "en_credits e' = en_credits e"
    and "en_cross_credits e' = en_cross_credits e" and "en_sending e' = en_sending e" and "en_cross e' = en_cross e"
    and "en_coord e' = en_coord e"
  shows "credit_inv c e'"
  using assms capacityD [OF cr]
  by (intro credit_frame [OF cr]) (auto simp: push_control_def nth_list_update_if)

lemma credit_answer:
  assumes cr: "credit_inv c e" and co: "c_request (en_coord e) = [rq]"
  shows "credit_inv c (answer rq response (give_back None (rq_credit rq) (e\<lparr>en_coord := Idle\<rparr>)))" (is "credit_inv c ?e'")
proof -
  have "credit_ok c ?e' t" if "valid_target c t" for t
  proof -
    have "credit_ok c e t" using cr that by (simp add: credit_inv_def)
    then show ?thesis
      using co by (cases t) (auto simp: credit_ok_def queued_def available_def give_back_def answer_def)
  qed
  then show ?thesis using cr by (simp add: credit_inv_def capacity_ok_def)
qed

lemma credit_inv_step:
  assumes inv: "engine_inv c hash e" and cr: "credit_inv c e" and step: "engine_step c hash e e'"
  shows "credit_inv c e'"
  using step
proof cases
  case (reject rq reply)
  then show ?thesis using capacityD [OF cr] by (auto intro: credit_frame [OF cr] simp: answer_def)
next
  case (acquire rq target)
  have "target_ok c hash rq target" using admission_target [OF acquire(2,3) engine_invD(1) [OF inv]] by blast
  then have "valid_target c target" by (auto simp: target_ok_def valid_target_def split: option.splits)
  moreover have "charged rq" using charge_admitted [OF acquire(2)] by (simp add: charged_def)
  ultimately show ?thesis
    using credit_acquire [OF _ cr] inv acquire(1,4) by (simp add: engine_inv_def)
next
  case (acquire_timeout rq target)
  then show ?thesis using capacityD [OF cr] by (auto intro: credit_frame [OF cr] simp: answer_def)
next
  case (send before rq target "after")
  then show ?thesis
    using credit_send [OF engine_invD(2) [OF inv] cr sending_target [OF inv send(2)] send(2,4)] by simp
next
  case (send_timeout before rq target "after")
  then show ?thesis
    using credit_drop [OF _ cr sending_target [OF inv send_timeout(2)] send_timeout(2)] inv by (simp add: engine_inv_def)
next
  case (send_closed before rq target "after")
  then show ?thesis
    using credit_drop [OF _ cr sending_target [OF inv send_closed(2)] send_closed(2)] inv by (simp add: engine_inv_def)
next
  case (top i alloc now evs o1)
  then show ?thesis using credit_inv_turn [OF inv cr top(2) owner_top_queues [OF top(4)]] by simp
next
  case (select i alloc now tick_ready evs o1)
  then show ?thesis using credit_inv_turn [OF inv cr select(2) owner_select_queues [OF select(4)]] by simp
next
  case (coord_take rq rest tid parts)
  then show ?thesis using capacityD [OF cr] by (auto intro: credit_frame [OF cr])
next
  case (coord_stop rest)
  then show ?thesis using capacityD [OF cr] by (auto intro: credit_frame [OF cr])
next
  case coord_finish
  then show ?thesis using capacityD [OF cr] by (auto intro: credit_frame [OF cr])
next
  case (coord_send i msg)
  then show ?thesis by (intro credit_push [OF cr coord_send(4)]) (simp_all add: push_control_def)
next
  case (coord_receive x c')
  then show ?thesis using capacityD [OF cr] complete_fields(2) [OF coord_receive(4)] by (auto intro: credit_frame [OF cr])
next
  case (coord_phase now c')
  then show ?thesis using capacityD [OF cr] phase_fields(2) [OF coord_phase(4)] by (auto intro: credit_frame [OF cr])
next
  case (coord_answer rq parts response)
  then show ?thesis using credit_answer [OF cr] by simp
next
  case (stats i client)
  then show ?thesis by (intro credit_push [OF cr stats(3)]) (simp_all add: push_control_def)
next
  case shutdown
  then show ?thesis using capacityD [OF cr] by (auto intro: credit_frame [OF cr])
next
  case shutdown_cross
  then show ?thesis using capacityD [OF cr] by (auto intro: credit_frame [OF cr])
next
  case (shutdown_owner i)
  then show ?thesis by (intro credit_push [OF cr shutdown_owner(5)]) (simp_all add: push_control_def)
qed

lemma credit_inv_start:
  assumes "engine_init c e"
  shows "credit_inv c e"
proof -
  obtain ss where "e = fresh_engine c ss" "length ss = workers c"
    using assms engine_started unfolding engine_init_def by blast
  then show ?thesis
    by (auto simp: credit_inv_def credit_ok_def capacity_ok_def fresh_engine_def available_def queued_def
        valid_target_def control_capacity_def split: option.splits)
qed

interpretation credits: layered_invariant "engine_init c" "engine_step c hash" "engine_inv c hash" "credit_inv c" for c hash
  by unfold_locales (use credit_inv_start credit_inv_step in blast)+

subsection \<open>The properties\<close>

text \<open>
  Claim C23. Memory held by pending commands is bounded and credits are conserved: in every reachable
  state and for every owner and the coordinator, the free byte credits and those of the commands that
  wait to be sent, are queued, or are being coordinated add up to \<open>queue_bytes\<close>; each of these commands
  holds its full charge; and the data, cross-owner and control channels are within their capacities.
\<close>

theorem queue_credits_conserved:
  assumes "engine_reach c hash e"
  shows "(\<forall>target. valid_target c target \<longrightarrow>
      available target e + credits_of (queued target e) + credits_of (waiting_for target (en_sending e)) = queue_bytes c \<and>
      (\<forall>rq \<in> set (queued target e) \<union> set (waiting_for target (en_sending e)). rq_credit rq = charge_of (rq_operation rq))) \<and>
    length (en_cross e) \<le> queue_capacity c \<and>
    (\<forall>i < workers c. length (o_data (en_owners e ! i)) \<le> queue_capacity c \<and>
       length (o_controls (en_owners e ! i)) \<le> control_capacity)"
  using credits.both.reach_inv [OF assms]
  by (simp add: credit_inv_def credit_ok_def capacity_ok_def charged_def)

theorem queue_credits_conserved_witness:
  "available None (demo_engine demo_half) = queue_bytes demo_config - 517 \<and>
   rq_credit demo_request = charge_of (rq_operation demo_request)"
proof -
  have "queued None (demo_engine demo_half) = [demo_request]" "en_sending (demo_engine demo_half) = []" "rq_credit demo_request = 517"
    by code_simp+
  then show ?thesis
    using conjunct1 [OF queue_credits_conserved [OF demo_reach(1)], THEN spec, of None]
    by (auto simp: valid_target_def)
qed

end
