(* ===== verification/Engine_Accounting.thy ===== *)
theory Engine_Accounting
  imports Engine_Credits
begin

section \<open>Every command is answered exactly once\<close>

text \<open>
  The commands the engine holds: those of clients that wait for room in a queue, those in the queues of
  the owners and of the coordinator, and the one the coordinator works on. A run of the engine records
  the commands submitted to it; what was submitted is, at every moment, what is held and what was
  answered, each command as often as it was submitted.
\<close>

definition held :: "Engine \<Rightarrow> DataRequest multiset" where
  "held e = mset (map fst (en_sending e)) + mset (concat (map o_data (en_owners e))) +
     mset (cross_requests (en_cross e)) + mset (c_request (en_coord e))"

definition answered :: "Engine \<Rightarrow> DataRequest multiset" where
  "answered e = mset (map fst (en_answered e))"

definition account :: "Engine \<Rightarrow> DataRequest multiset" where
  "account e = held e + answered e"

text \<open>The steps with which a command enters the engine: the call of \<open>EngineHandle::execute\<close> up to its credits.\<close>

inductive submission :: "Config \<Rightarrow> hasher \<Rightarrow> DataRequest \<Rightarrow> Engine \<Rightarrow> Engine \<Rightarrow> bool" for c hash rq where
  refused: "admission c hash (en_closing e) (rq_operation rq) = Rejected reply \<Longrightarrow>
    submission c hash rq e (answer rq reply e)"
| accepted: "admission c hash False (rq_operation rq) = Admitted target (rq_credit rq) \<Longrightarrow>
    keys_fit (rq_operation rq) \<Longrightarrow> rq_credit rq \<le> available target e \<Longrightarrow>
    submission c hash rq e ((take_credit target (rq_credit rq) e)\<lparr>en_sending := en_sending e @ [(rq, target)]\<rparr>)"
| expired: "admission c hash False (rq_operation rq) = Admitted target (rq_credit rq) \<Longrightarrow>
    submission c hash rq e (answer rq (Reply_error ''BUSY admission queue deadline exceeded'') e)"

text \<open>A run of the engine, with the commands submitted to it.\<close>

inductive engine_run :: "Config \<Rightarrow> hasher \<Rightarrow> Engine \<Rightarrow> DataRequest list \<Rightarrow> Engine \<Rightarrow> bool" for c hash e0 where
  begins: "engine_run c hash e0 [] e0"
| submits: "engine_run c hash e0 rqs e \<Longrightarrow> submission c hash rq e e' \<Longrightarrow> engine_run c hash e0 (rqs @ [rq]) e'"
| works: "engine_run c hash e0 rqs e \<Longrightarrow> engine_step c hash e e' \<Longrightarrow> \<nexists>rq. submission c hash rq e e' \<Longrightarrow>
    engine_run c hash e0 rqs e'"

lemma submission_step: "submission c hash rq e e' \<Longrightarrow> engine_step c hash e e'"
  by (induction rule: submission.induct) (auto intro: engine_step.reject engine_step.acquire engine_step.acquire_timeout)

lemma engine_run_steps: "engine_run c hash e0 rqs e \<Longrightarrow> (engine_step c hash)\<^sup>*\<^sup>* e0 e"
  by (induction rule: engine_run.induct) (auto intro: submission_step rtranclp.rtrancl_into_rtrancl)

lemma engine_steps_run: "(engine_step c hash)\<^sup>*\<^sup>* e0 e \<Longrightarrow> \<exists>rqs. engine_run c hash e0 rqs e"
proof (induction rule: rtranclp_induct)
  case (step e1 e2)
  then show ?case by (meson engine_run.submits engine_run.works)
qed (auto intro: engine_run.begins)

subsection \<open>The account of the steps\<close>

lemma mset_concat_update:
  assumes "i < length xss"
  shows "mset (concat (xss[i := ys])) + mset (xss ! i) = mset (concat xss) + mset ys"
proof -
  have "mset (concat xss) = mset (concat (take i xss)) + mset (xss ! i) + mset (concat (drop (Suc i) xss))"
    by (subst id_take_nth_drop [OF assms]) (simp add: ac_simps)
  then show ?thesis by (simp add: upd_conv_take_nth_drop [OF assms] ac_simps)
qed

lemma held_set_owner:
  assumes "i < length (en_owners e)"
  shows "held (set_owner i o2 e) + mset (o_data (en_owners e ! i)) = held e + mset (o_data o2)"
  using mset_concat_update [of i "map o_data (en_owners e)" "o_data o2"] assms
  by (simp add: held_def set_owner_def map_update ac_simps)

lemma account_parts:
  assumes "en_sending e' = en_sending e" and "en_cross e' = en_cross e" and "en_coord e' = en_coord e"
    and "map o_data (en_owners e') = map o_data (en_owners e)" and "en_answered e' = en_answered e"
  shows "account e' = account e"
  using assms by (simp add: account_def held_def answered_def)

lemma account_turn:
  assumes i: "i < length (en_owners e)" and q: "turn_queues (en_owners e ! i) evs o2"
  shows "account (deliver i evs (set_owner i o2 (e\<lparr>en_top := b\<rparr>))) = account e" (is "account ?e' = _")
proof -
  have "held ?e' = held (set_owner i o2 e)" by (simp add: held_def set_owner_def)
  moreover have "held (set_owner i o2 e) + mset (map fst (answers evs)) = held e"
    using held_set_owner [OF i, of o2] q by (simp add: turn_queues_def ac_simps)
  ultimately show ?thesis by (simp add: account_def answered_def ac_simps)
qed

lemma account_push:
  "account (push_control i msg e) = account e"
proof (cases "i < length (en_owners e)")
  case True
  then show ?thesis
    using held_set_owner [OF True, of "(en_owners e ! i)\<lparr>o_controls := o_controls (en_owners e ! i) @ [msg]\<rparr>"]
    by (simp add: account_def answered_def push_control_def)
qed (simp add: push_control_def set_owner_def list_update_beyond)

lemma account_drop:
  assumes "en_sending e = before @ (rq, target) # after"
  shows "account (answer rq reply (give_back target (rq_credit rq) (e\<lparr>en_sending := before @ after\<rparr>))) = account e"
  using assms by (simp add: account_def held_def answered_def)

lemma account_enqueue:
  assumes "en_sending e = before @ (rq, target) # after" and "\<And>i. target = Some i \<Longrightarrow> i < length (en_owners e)"
  shows "account (enqueue target rq (e\<lparr>en_sending := before @ after\<rparr>)) = account e"
proof (cases target)
  case None
  then show ?thesis using assms(1) by (simp add: account_def held_def answered_def enqueue_def)
next
  case (Some i)
  then have "i < length (en_owners (e\<lparr>en_sending := before @ after\<rparr>))" using assms(2) by simp
  from held_set_owner [OF this, of "(en_owners e ! i)\<lparr>o_data := o_data (en_owners e ! i) @ [rq]\<rparr>"]
  have "held (enqueue target rq (e\<lparr>en_sending := before @ after\<rparr>)) = held (e\<lparr>en_sending := before @ after\<rparr>) + {#rq#}"
    using Some by (simp add: enqueue_def)
  moreover have "held e = held (e\<lparr>en_sending := before @ after\<rparr>) + {#rq#}" using assms(1) by (simp add: held_def)
  ultimately show ?thesis using Some by (simp add: account_def answered_def enqueue_def)
qed

lemma account_submission: "submission c hash rq e e' \<Longrightarrow> account e' = add_mset rq (account e)"
  by (induction rule: submission.induct) (simp_all add: account_def held_def answered_def)

lemma account_step:
  assumes inv: "engine_inv c hash e" and step: "engine_step c hash e e'"
  shows "account e' = account e \<or> (\<exists>rq. submission c hash rq e e')"
  using step
proof cases
  case (send before rq target "after")
  have "i < length (en_owners e)" if "target = Some i" for i
    using sending_target [OF inv send(2)] engine_invD(2) [OF inv] that by (simp add: valid_target_def)
  then show ?thesis using send(1) account_enqueue [OF send(2)] by simp
next
  case (top i alloc now evs o1)
  then show ?thesis using account_turn [OF _ owner_top_queues [OF top(4)]] engine_invD(2) [OF inv] by simp
next
  case (select i alloc now tick_ready evs o1)
  then show ?thesis using account_turn [OF _ owner_select_queues [OF select(4)]] engine_invD(2) [OF inv] by simp
next
  case (coord_send i msg)
  have "account e' = account (push_control i msg e)" using coord_send(1) by (intro account_parts) simp_all
  then show ?thesis by (simp add: account_push)
next
  case (coord_receive x c')
  then show ?thesis using complete_fields(2) [OF coord_receive(4)] by (simp add: account_def held_def answered_def)
next
  case (coord_phase now c')
  then show ?thesis using phase_fields(2) [OF coord_phase(4)] by (simp add: account_def held_def answered_def)
next
  case (shutdown_owner i)
  have "account e' = account (push_control i Stop e)" using shutdown_owner(1) by (intro account_parts) simp_all
  then show ?thesis by (simp add: account_push)
next
  case (stats i client)
  then show ?thesis by (simp add: account_push)
qed (auto simp: account_drop account_def held_def answered_def intro: submission.intros)

lemma account_initial:
  assumes "engine_init c e"
  shows "account e = {#}"
proof -
  obtain ss where "e = fresh_engine c ss" using assms engine_started unfolding engine_init_def by blast
  then show ?thesis by (simp add: account_def held_def answered_def fresh_engine_def comp_def)
qed

lemma engine_run_account:
  assumes "engine_run c hash e0 rqs e" and "engine_inv c hash e0"
  shows "engine_inv c hash e \<and> account e = account e0 + mset rqs"
  using assms
proof (induction rule: engine_run.induct)
  case (submits rqs e rq e')
  then show ?case using engine_inv_step [OF submission_step] account_submission by fastforce
next
  case (works rqs e e')
  then show ?case using engine_inv_step account_step by metis
qed simp

text \<open>
  Claim C6. No command is lost and none is answered twice: in any run of an engine from its start, with
  any interleaving of clients, owners, coordinator, timers and shutdown, the commands answered and the
  commands still held are together exactly the commands submitted, each as often as it was submitted.
  In particular a command that has been answered is no longer held, and once nothing is held every
  command has had exactly one reply.
\<close>

theorem commands_answered_exactly_once:
  assumes "engine_init c e0" and "engine_run c hash e0 rqs e"
  shows "mset (map fst (en_answered e)) + held e = mset rqs"
  using engine_run_account [OF assms(2)] engine.inv_init [OF assms(1)] account_initial [OF assms(1)]
  by (simp add: account_def answered_def ac_simps)

theorem commands_answered_exactly_once_witness:
  "\<exists>rqs. engine_run demo_config demo_hash demo_start rqs (demo_engine demo_full) \<and> {#demo_request#} = mset rqs"
proof -
  obtain rqs where run: "engine_run demo_config demo_hash demo_start rqs (demo_engine demo_full)"
    using engine_steps_run [OF run_schedule_steps [OF demo_runs(2)]] by blast
  have answers: "map fst (en_answered (demo_engine demo_full)) = [demo_request]" by code_simp
  have "en_sending (demo_engine demo_full) = []" "concat (map o_data (en_owners (demo_engine demo_full))) = []"
    "cross_requests (en_cross (demo_engine demo_full)) = []" "c_request (en_coord (demo_engine demo_full)) = []"
    by code_simp+
  then have "held (demo_engine demo_full) = {#}" unfolding held_def by (simp del: concat_eq_Nil_conv)
  with commands_answered_exactly_once [OF demo_init run] run show ?thesis unfolding answers by auto
qed

end
