(* ===== verification/Engine_Calls.thy ===== *)
theory Engine_Calls
  imports Engine_Accounting
begin

section \<open>Calls of the engine (crates/recall-server/src/engine.rs, EngineHandle)\<close>

text \<open>
  A session calls the engine by \<open>EngineHandle::execute\<close> and \<open>EngineHandle::stats\<close> and waits for the answer;
  meanwhile every other client and every thread of the engine goes on. So a call is a stretch of engine steps
  during which the command of the call is submitted and answered. The locale \<open>engine_calls\<close> states this for the
  two functions a session is given; whatever the threads do and other clients send in the meantime is left to
  them. It is interpreted on calls that drive the engine, queues, owners and coordinator, round robin until the
  answer is there.
\<close>

text \<open>
  One call: the command is none the engine has ever seen (each call has a response channel of its own), the
  engine takes steps, and then the command has been answered with \<open>reply\<close>.
\<close>

definition engine_call :: "Config \<Rightarrow> hasher \<Rightarrow> Operation \<Rightarrow> Engine \<Rightarrow> Reply \<Rightarrow> Engine \<Rightarrow> bool" where
  "engine_call c hash operation e reply e' \<longleftrightarrow>
     (\<exists>rq. rq_operation rq = operation \<and> rq \<notin># account e \<and> (engine_step c hash)\<^sup>*\<^sup>* e e' \<and> (rq, reply) \<in> set (en_answered e'))"

locale engine_calls =
  fixes c :: Config and hash :: hasher
    and run :: "Operation \<Rightarrow> Engine \<Rightarrow> Reply \<times> Engine" and stats :: "Engine \<Rightarrow> ShardStats list \<times> Engine"
  assumes run_calls: "engine_reach c hash e \<Longrightarrow> engine_call c hash operation e (fst (run operation e)) (snd (run operation e))"
    and stats_steps: "engine_reach c hash e \<Longrightarrow> (engine_step c hash)\<^sup>*\<^sup>* e (snd (stats e))"
begin

lemma run_steps: "engine_reach c hash e \<Longrightarrow> (engine_step c hash)\<^sup>*\<^sup>* e (snd (run operation e))"
  using run_calls by (auto simp: engine_call_def)

lemma run_answer:
  assumes "engine_reach c hash e"
  obtains rq where "rq_operation rq = operation" "rq \<notin># account e"
    and "(rq, fst (run operation e)) \<in> set (en_answered (snd (run operation e)))"
  using run_calls [OF assms] by (auto simp: engine_call_def)

end

subsection \<open>Driving the engine\<close>

text \<open>Each thread and the coordinator are given a turn; what cannot move is passed over.\<close>

definition attempt :: "Config \<Rightarrow> hasher \<Rightarrow> Action \<Rightarrow> Engine \<Rightarrow> Engine" where
  "attempt c hash a e = (case act c hash a e of None \<Rightarrow> e | Some e' \<Rightarrow> e')"

definition sweep :: "Config \<Rightarrow> hasher \<Rightarrow> int \<Rightarrow> Engine \<Rightarrow> Engine" where
  "sweep c hash now e = fold (attempt c hash) (Hand # Coordinate now # map (\<lambda>i. Turn i now False) [0..<workers c]) e"

fun drive :: "nat \<Rightarrow> Config \<Rightarrow> hasher \<Rightarrow> int \<Rightarrow> DataRequest \<Rightarrow> Engine \<Rightarrow> Engine" where
  "drive 0 c hash now rq e = e"
| "drive (Suc n) c hash now rq e =
     (if map_of (en_answered e) rq \<noteq> None then e else drive n c hash now rq (sweep c hash now e))"

lemma attempt_step: "(engine_step c hash)\<^sup>*\<^sup>* e (attempt c hash a e)"
  by (auto simp: attempt_def intro: act_step split: option.splits)

lemma attempts_steps: "(engine_step c hash)\<^sup>*\<^sup>* e (fold (attempt c hash) as e)"
proof (induction as arbitrary: e)
  case (Cons a as)
  then show ?case using rtranclp_trans [OF attempt_step [of c hash e a] Cons.IH] by simp
qed simp

lemma drive_steps: "(engine_step c hash)\<^sup>*\<^sup>* e (drive n c hash now rq e)"
proof (induction n arbitrary: e)
  case (Suc n)
  have "(engine_step c hash)\<^sup>*\<^sup>* e (sweep c hash now e)" unfolding sweep_def by (rule attempts_steps)
  then show ?case using rtranclp_trans [OF _ Suc.IH] by simp
qed simp

text \<open>A client number that no command and no request for statistics in the engine has.\<close>

definition seen :: "Engine \<Rightarrow> DataRequest list" where
  "seen e = map fst (en_sending e) @ concat (map o_data (en_owners e)) @ cross_requests (en_cross e) @
     c_request (en_coord e) @ map fst (en_answered e)"

definition fresh_client :: "Engine \<Rightarrow> nat" where
  "fresh_client e = Suc (sum_list (map rq_client (seen e)) + sum_list (map fst (en_stats e)))"

lemma account_seen: "account e = mset (seen e)"
  by (simp add: account_def held_def answered_def seen_def ac_simps)

lemma fresh_client_fresh: "rq_client rq = fresh_client e \<Longrightarrow> rq \<notin># account e"
proof
  assume "rq_client rq = fresh_client e" and "rq \<in># account e"
  then have "fresh_client e \<in> set (map rq_client (seen e))" by (simp add: account_seen rev_image_eqI)
  then show False using member_le_sum_list [of "fresh_client e" "map rq_client (seen e)"] by (simp add: fresh_client_def)
qed

text \<open>
  A call that finds the engine closed or its command unacceptable is refused; otherwise the engine is driven for
  at most \<open>n\<close> rounds, and a command that has not been answered then was not admitted in time.
\<close>

definition driven_call :: "nat \<Rightarrow> Config \<Rightarrow> hasher \<Rightarrow> int \<Rightarrow> Operation \<Rightarrow> Engine \<Rightarrow> Reply \<times> Engine" where
  "driven_call n c hash now operation e =
     (case admission c hash (en_closing e) operation of
        Rejected reply \<Rightarrow>
          (reply, answer \<lparr>rq_client = fresh_client e, rq_operation = operation, rq_credit = 0\<rparr> reply e)
      | Admitted target credit \<Rightarrow>
          (let rq = \<lparr>rq_client = fresh_client e, rq_operation = operation, rq_credit = credit\<rparr>;
               e' = drive n c hash now rq (attempt c hash (Submit rq) e);
               busy = Reply_error ''BUSY admission queue deadline exceeded''
           in case map_of (en_answered e') rq of
                Some reply \<Rightarrow> (reply, e')
              | None \<Rightarrow> (busy, answer rq busy e)))"

definition driven_stats :: "Config \<Rightarrow> hasher \<Rightarrow> int \<Rightarrow> Engine \<Rightarrow> ShardStats list \<times> Engine" where
  "driven_stats c hash now e =
     (let client = fresh_client e;
          e' = fold (attempt c hash)
            (concat (map (\<lambda>i. [AskStats i client, Turn i now False, Turn i now False]) [0..<workers c])) e
      in (map snd (filter (\<lambda>(who, _). who = client) (en_stats e')), e'))"

lemma admission_open: "admission c hash closing operation = Admitted target credit \<Longrightarrow>
    admission c hash False operation = Admitted target credit"
  by (auto simp: admission_def split: if_splits)

lemma driven_call_calls:
  "engine_call c hash operation e (fst (driven_call n c hash now operation e)) (snd (driven_call n c hash now operation e))"
proof (cases "admission c hash (en_closing e) operation")
  case (Rejected reply)
  let ?rq = "\<lparr>rq_client = fresh_client e, rq_operation = operation, rq_credit = 0\<rparr>"
  have "engine_step c hash e (answer ?rq reply e)" using Rejected by (intro engine_step.reject) simp
  moreover have "?rq \<notin># account e" by (rule fresh_client_fresh) simp
  ultimately show ?thesis
    unfolding engine_call_def by (intro exI [of _ ?rq]) (auto simp: driven_call_def Rejected answer_def)
next
  case (Admitted target credit)
  let ?rq = "\<lparr>rq_client = fresh_client e, rq_operation = operation, rq_credit = credit\<rparr>"
  let ?e = "drive n c hash now ?rq (attempt c hash (Submit ?rq) e)"
  have fresh: "?rq \<notin># account e" by (rule fresh_client_fresh) simp
  show ?thesis
  proof (cases "map_of (en_answered ?e) ?rq")
    case (Some reply)
    have "(engine_step c hash)\<^sup>*\<^sup>* e ?e" by (rule rtranclp_trans [OF attempt_step drive_steps])
    then show ?thesis
      unfolding engine_call_def using fresh map_of_SomeD [OF Some]
      by (intro exI [of _ ?rq]) (simp add: driven_call_def Admitted Let_def Some)
  next
    case None
    have "engine_step c hash e (answer ?rq (Reply_error ''BUSY admission queue deadline exceeded'') e)"
      using admission_open [OF Admitted] by (intro engine_step.acquire_timeout) simp
    then show ?thesis
      unfolding engine_call_def using fresh
      by (intro exI [of _ ?rq]) (auto simp: driven_call_def Admitted Let_def None answer_def)
  qed
qed

interpretation driven: engine_calls c hash "driven_call n c hash now" "driven_stats c hash now" for n c hash now
  by unfold_locales (simp_all add: driven_call_calls driven_stats_def Let_def attempts_steps)

end
