(* ===== verification/Reply_Types.thy ===== *)
theory Reply_Types
  imports Net_Connection Engine_Calls "HOL-Library.Sublist"
begin

section \<open>Every reply is a well-formed RESP2 value\<close>

text \<open>
  RESP2 delimits simple strings and errors by a line end and carries 64-bit signed integers. Nothing in
  the type \<open>Reply\<close> keeps a line end out of a message or an integer within its range, so this is a typing
  discipline of the program: it is followed by the parser's errors, the store, the coordinator's
  combined replies, the session and the connection, and it makes what a connection writes readable.
\<close>

definition one_line :: "bytes \<Rightarrow> bool" where
  "one_line v = list_all (\<lambda>b. b \<noteq> CHR 0x0D \<and> b \<noteq> CHR 0x0A) v"

fun wf_reply :: "Reply \<Rightarrow> bool" where
  "wf_reply (Simple v) = one_line v"
| "wf_reply (Error v) = one_line v"
| "wf_reply (Integer n) = in_i64 n"
| "wf_reply (Bulk v) = True"
| "wf_reply (Array rs) = list_all wf_reply rs"

lemma one_line_simps [simp]:
  "one_line []" "one_line (b # v) \<longleftrightarrow> b \<noteq> CHR 0x0D \<and> b \<noteq> CHR 0x0A \<and> one_line v"
  "one_line (v @ w) \<longleftrightarrow> one_line v \<and> one_line w"
  by (auto simp: one_line_def)

lemma wf_line_safe: "wf_reply r \<Longrightarrow> line_safe r"
  by (induction r) (auto simp: one_line_def list_all_iff)

lemma wf_reply_simps [simp]:
  "wf_reply Reply_ok" "wf_reply (Reply_error e) = one_line e" "wf_reply (Reply_bulk v)"
  "wf_reply (EngineError_reply e) = one_line e" "wf_reply (CommandError_reply e) = one_line e"
  by (simp_all add: Reply_ok_def Reply_error_def Reply_bulk_def EngineError_reply_def CommandError_reply_def)

subsection \<open>Parsing\<close>

lemma integer_line: "integer v = Inl e \<Longrightarrow> one_line e"
  by (auto simp: integer_def split: if_splits option.splits)

lemma client_name_line: "client_name v l = Inl e \<Longrightarrow> one_line e"
  by (auto simp: client_name_def split: if_splits)

lemma fixed_errors_line [simp]: "one_line syntax_error" "one_line set_expire_error" "one_line expire_error" "one_line overflow_error"
  by (simp_all add: syntax_error_def set_expire_error_def expire_error_def overflow_error_def)

text \<open>A fallible step whose error, if it ends in one, fits a line.\<close>

definition err_line :: "(CommandError + 'a) option \<Rightarrow> bool" where
  "err_line r \<longleftrightarrow> (\<forall>e. r = Some (Inl e) \<longrightarrow> one_line e)"

lemma err_line_intros:
  "err_line (Some (Inr x))"
  "one_line e \<Longrightarrow> err_line (Some (Inl e))"
  "err_line r1 \<Longrightarrow> err_line r2 \<Longrightarrow> err_line (if b then r1 else r2)"
  "(\<And>x. m = Some x \<Longrightarrow> err_line (f x)) \<Longrightarrow> err_line (Option.bind m f)"
  by (auto simp: err_line_def split: Option.bind_splits)

lemma err_line_map: "err_line (Some r) \<Longrightarrow> err_line (Some (map_sum id f r))"
  by (cases r) (simp_all add: err_line_def)

lemma err_line_integer: "err_line (Some (integer v))"
  by (simp add: err_line_def integer_line)

lemma parse_set_loop_line: "err_line (parse_set_loop a i c x)"
proof (induction a i c x rule: parse_set_loop.induct)
  case (1 a i c x)
  then show ?case
    unfolding err_line_def by (subst parse_set_loop.simps)
      (auto split: if_splits Option.bind_splits sum.splits option.splits dest: integer_line)
qed

lemma parse_hello_loop_line: "err_line (parse_hello_loop a l i au n)"
proof (induction a l i au n rule: parse_hello_loop.induct)
  case (1 a l i au n)
  then show ?case
    unfolding err_line_def by (subst parse_hello_loop.simps)
      (auto split: if_splits Option.bind_splits sum.splits dest: client_name_line)
qed

lemma parse_parts_line:
  "err_line (parse_set a)" "err_line (parse_hello a l)" "err_line (parse_client a l)" "err_line (parse_increment n a)"
  "err_line (parse_expire n a)" "err_line (parse_command a)"
  using parse_set_loop_line [of a 3 Always Clear] parse_hello_loop_line [of a l 2 None None]
  by (auto simp: err_line_def parse_set_def parse_hello_def parse_client_def parse_increment_def parse_expire_def parse_command_def
      split: Option.bind_splits sum.splits option.splits if_splits prod.splits
      dest: integer_line client_name_line)
    (metis integer_line old.sum.exhaust map_sum.simps sum.distinct(1) id_apply sum.inject(1))

lemma parse_named_line: "err_line (parse_named n a l)"
  unfolding parse_named_def
  by (intro err_line_intros err_line_map parse_parts_line err_line_integer fixed_errors_line)
    (use parse_parts_line in \<open>metis err_line_map\<close>)+

lemma specs_line: "sp \<in> set SPECS \<Longrightarrow> one_line (spec_name sp) \<and> wf_reply (spec_reply sp)"
proof -
  have "list_all (\<lambda>sp. one_line (spec_name sp) \<and> wf_reply (spec_reply sp)) SPECS" by code_simp
  then show "sp \<in> set SPECS \<Longrightarrow> one_line (spec_name sp) \<and> wf_reply (spec_reply sp)" by (simp add: list_all_iff)
qed

lemma find_spec_in: "find_spec n = Some sp \<Longrightarrow> sp \<in> set SPECS"
  by (auto simp: find_spec_def find_Some_iff)

lemma parse_line: "parse a l = Some (Inl e) \<Longrightarrow> one_line e"
  by (auto simp: parse_def check_limits_def split: list.splits option.splits if_splits Option.bind_splits sum.splits Command.splits
      dest: parse_named_line [unfolded err_line_def, rule_format] specs_line [OF find_spec_in])

lemma metadata_wf: "wf_reply (metadata q)"
proof -
  have "wf_reply (metadata CountCommands)" by code_simp
  then show ?thesis
    by (cases q) (auto simp: metadata_def list_all_iff dest: specs_line [OF find_spec_in] specs_line split: option.splits)
qed

subsection \<open>The store\<close>

lemma count_in_i64: "int n \<le> i64_max \<Longrightarrow> in_i64 (int n)"
  by (simp add: in_i64_def i64_min_def)

lemma ttl_in_i64: "in_i64 (spec_ttl now (live now m) k ms)"
proof (cases "live now m k")
  case None
  then show ?thesis by (simp add: spec_ttl_def in_i64_def i64_min_def i64_max_def)
next
  case (Some e)
  show ?thesis
  proof (cases "e_expires e")
    case None
    then show ?thesis using Some by (simp add: spec_ttl_def in_i64_def i64_min_def i64_max_def)
  next
    case (Some d)
    have "now < d" using live_SomeD [OF \<open>live now m k = Some e\<close>] Some by (simp add: due_def)
    then show ?thesis
      using \<open>live now m k = Some e\<close> Some by (auto simp: spec_ttl_def Let_def in_i64_def i64_min_def i64_max_def min_def)
  qed
qed

lemma spec_op_wf:
  assumes "spec_op now (live now m) op = Inr (reply, m')" and "keys_fit op"
  shows "wf_reply reply"
proof (cases op)
  case (Delete ks)
  have "length (filter (\<lambda>k. live now m k \<noteq> None) (remdups ks)) \<le> length ks"
    by (meson length_filter_le length_remdups_leq order_trans)
  then show ?thesis using assms Delete by (auto simp: keys_fit_def intro!: count_in_i64)
next
  case (Exists ks)
  have "length (filter (\<lambda>k. live now m k \<noteq> None) ks) \<le> length ks" by (rule length_filter_le)
  then show ?thesis using assms Exists by (auto simp: keys_fit_def simp del: length_filter_le intro!: count_in_i64)
next
  case (Ttl k ms)
  then show ?thesis using assms(1) ttl_in_i64 by auto
qed (use assms(1) in \<open>auto simp: spec_bulk_def spec_set_def spec_increment_def spec_expire_def spec_persist_def Let_def
    list_all_iff in_i64_def [of 0] in_i64_def [of 1] i64_min_def i64_max_def split: Expiry.splits if_splits sum.splits option.splits\<close>)

lemma prepare_effects_line: "prepare_effects s op now = Inl e \<Longrightarrow> one_line e"
  by (cases op) (auto simp: prepare_set_def prepare_increment_def prepare_expire_def Let_def
      split: if_splits sum.splits option.splits prod.splits Expiry.splits dest: integer_line)

lemma preflight_line: "preflight s eff reply = Some (Inl e) \<Longrightarrow> one_line e"
  by (auto simp: preflight_def Let_def split: if_splits option.splits prod.splits)

lemma prepare_wf:
  assumes "shard_inv s" and "keys_fit op" and "prepare alloc s op now = Some r"
  shows "case r of Inl e \<Rightarrow> one_line e | Inr p \<Rightarrow> wf_reply (p_response p)"
proof (cases r)
  case (Inl e)
  then show ?thesis
    using assms(3) prepare_effects_line preflight_line by (fastforce simp: prepare_def split: if_splits sum.splits)
next
  case (Inr p)
  then show ?thesis using prepare_cases [OF assms(1,2), of alloc now] assms(3) spec_op_wf [OF _ assms(2)] by auto
qed

lemma execute_local_wf:
  assumes "shard_inv s" and "keys_fit (rq_operation rq)" and "execute_local alloc s rq now = Some (Answer rq reply, s')"
  shows "wf_reply reply"
proof -
  obtain r where r: "prepare alloc s (rq_operation rq) now = Some r"
    using assms(3) by (auto simp: execute_local_def execute_def split: Option.bind_splits)
  have "fst (the (Shard_apply s p)) = p_response p" if "Shard_apply s p \<noteq> None" for p
    using that by (auto simp: Shard_apply_def split: if_splits Option.bind_splits)
  then show ?thesis
    using prepare_wf [OF assms(1,2) r] assms(3) r
    by (auto simp: execute_local_def execute_def split: Option.bind_splits sum.splits) force
qed

subsection \<open>The coordinator\<close>

lemma place_wf: "place ps vs resp = Some resp' \<Longrightarrow> list_all wf_reply vs \<Longrightarrow> list_all wf_reply resp \<Longrightarrow> list_all wf_reply resp'"
proof (induction ps vs resp rule: place.induct)
  case (1 p ps v vs resp)
  have "list_all wf_reply (resp[p := v])" using 1 by (auto simp: list_all_iff dest: set_update_subset_insert [THEN subsetD])
  then show ?case using 1 by (auto split: if_splits)
qed auto

lemma combine_gets_wf:
  "combine_gets parts results resp = Some resp' \<Longrightarrow> list_all wf_reply results \<Longrightarrow> list_all wf_reply resp \<Longrightarrow> list_all wf_reply resp'"
proof (induction parts results resp rule: combine_gets.induct)
  case (1 part parts result results resp)
  then show ?case by (auto split: Reply.splits if_splits Option.bind_splits intro: place_wf)
qed auto

lemma sum_integers_wf: "sum_integers acc results = Some n \<Longrightarrow> in_i64 acc \<Longrightarrow> in_i64 n"
  by (induction acc results rule: sum_integers.induct) (auto simp: i64_checked_add_def split: if_splits)

lemma combine_wf:
  assumes "combine op parts results = Some reply" and "list_all wf_reply results"
  shows "wf_reply reply"
proof (cases op)
  case (MultiGet ks)
  then show ?thesis
    using assms combine_gets_wf [of parts results "replicate (length ks) (Bulk None)"] by (auto simp: list_all_iff)
qed (use assms sum_integers_wf [of 0 results] in \<open>auto simp: in_i64_def i64_min_def i64_max_def\<close>)

subsection \<open>The engine\<close>

fun wf_coord :: "Coordinator \<Rightarrow> bool" where
  "wf_coord (Preparing rq parts k now results) = list_all wf_reply results"
| "wf_coord (Applying rq parts k reply) = wf_reply reply"
| "wf_coord (Releasing rq parts k response) = wf_reply response"
| "wf_coord _ = True"

fun wf_completion :: "Completion \<Rightarrow> bool" where
  "wf_completion (PreparedReply (Inr reply)) = wf_reply reply"
| "wf_completion (PreparedReply (Inl e)) = one_line e"
| "wf_completion Done = True"

fun wf_event :: "OwnerEvent \<Rightarrow> bool" where
  "wf_event (Answer rq reply) = wf_reply reply"
| "wf_event (Complete x) = wf_completion x"
| "wf_event _ = True"

definition wf_engine :: "Engine \<Rightarrow> bool" where
  "wf_engine e \<longleftrightarrow> list_all (\<lambda>(rq, reply). wf_reply reply) (en_answered e) \<and> wf_coord (en_coord e) \<and>
     pred_option wf_completion (en_completion e)"

lemma wf_deliver: "wf_engine e \<Longrightarrow> list_all wf_event evs \<Longrightarrow> wf_engine (deliver i evs e)"
  by (induction i evs e rule: deliver.induct) (auto simp: wf_engine_def)

lemma coord_complete_wf: "coord_complete co y = Some co' \<Longrightarrow> wf_coord co \<Longrightarrow> wf_completion y \<Longrightarrow> wf_coord co'"
  by (induction co y rule: coord_complete.induct) auto

lemma coord_phase_wf: "coord_phase_end n now co = Some co' \<Longrightarrow> wf_coord co \<Longrightarrow> wf_coord co'"
  by (cases co) (auto split: Option.bind_splits if_splits dest: combine_wf)

lemma handle_control_wf:
  assumes inv: "owner_inv c hash co aw x tid i o1" and co: "coord_ok c hash co" and ctl: "o_controls o1 = msg # rest"
    and h: "handle_control alloc (o1\<lparr>o_controls := rest\<rparr>) msg = Some (evs, o2)"
  shows "list_all wf_event evs"
proof (cases msg)
  case (Prepare t op now)
  note aw = awaited_message [OF inv ctl]
  have part: "coord_message tid co = Some (i, msg)" using aw(3) Prepare by simp
  obtain rq parts k results where pr: "co = Preparing rq parts k now results" "op = pt_operation (parts ! k)" "k < length parts"
    using part Prepare by (cases co) (auto simp: coord_message_def split: if_splits)
  have "keys_fit op" using part_keys(1) [OF co coord_message_part(1) [OF part]] pr by simp
  moreover have "shard_inv (o_shard o1)" using inv shard_reach_inv by (auto simp: owner_inv_def owner_good_def)
  ultimately show ?thesis
    using h Prepare prepare_wf [of "o_shard o1" op alloc now] by (auto split: Option.bind_splits if_splits sum.splits)
qed (use h in \<open>auto split: Option.bind_splits if_splits\<close>)

lemma owner_execute_wf:
  assumes "owner_good c hash i o1" and "o_data o1 = rq # rest" and "execute_local alloc (o_shard o1) rq now = Some (ev, s')"
  shows "wf_event ev"
proof -
  have "shard_inv (o_shard o1)" "keys_fit (rq_operation rq)"
    using assms(1,2) shard_reach_inv by (auto simp: owner_good_def)
  then show ?thesis using owner_good_execute(2) [OF assms] execute_local_wf assms(3) by fastforce
qed

lemma owner_top_wf:
  assumes "owner_inv c hash co aw x tid i o1" and "owner_top alloc now o1 = Some (evs, o2)"
  shows "list_all wf_event evs"
  using assms(2) owner_execute_wf [of c hash i o1] assms(1)
  by (cases rule: owner_top_cases) (auto simp: owner_inv_def)

lemma owner_select_wf:
  assumes "owner_inv c hash co aw x tid i o1" and "coord_ok c hash co"
    and "owner_select alloc now batch tick False False o1 = Some (Continue evs o2)"
  shows "list_all wf_event evs"
  using assms(3)
proof (cases rule: owner_select_cases)
  case (control msg rest)
  then show ?thesis using handle_control_wf [OF assms(1,2)] by blast
next
  case (data rq rest ev s')
  then show ?thesis using owner_execute_wf [of c hash i o1] assms(1) by (simp add: owner_inv_def)
qed simp

lemma wf_engine_step:
  assumes inv: "engine_inv c hash e" and wf: "wf_engine e" and step: "engine_step c hash e e'"
  shows "wf_engine e'"
  using step
proof cases
  case (reject rq reply)
  then have "wf_reply reply" by (auto simp: admission_def Let_def split: if_splits list.splits)
  then show ?thesis using reject(1) wf by (simp add: wf_engine_def)
next
  case (send before rq target "after")
  then show ?thesis using wf by (cases target) (simp_all add: wf_engine_def enqueue_def)
next
  case (top i alloc now evs o1)
  have "list_all wf_event evs" using owner_top_wf [OF engine_invD(5) [OF inv top(2)] top(4)] .
  then show ?thesis unfolding top(1) by (intro wf_deliver) (use wf in \<open>simp_all add: wf_engine_def\<close>)
next
  case (select i alloc now tick_ready evs o1)
  have "list_all wf_event evs" using owner_select_wf [OF engine_invD(5) [OF inv select(2)] engine_invD(3) [OF inv] select(4)] .
  then show ?thesis unfolding select(1) by (intro wf_deliver) (use wf in \<open>simp_all add: wf_engine_def\<close>)
next
  case (coord_receive x c')
  then show ?thesis using wf coord_complete_wf [OF coord_receive(4)] by (simp add: wf_engine_def)
next
  case (coord_phase now c')
  then show ?thesis using wf coord_phase_wf [OF coord_phase(4)] by (simp add: wf_engine_def)
qed (use wf in \<open>simp_all add: wf_engine_def push_control_def\<close>)

lemma wf_engine_start:
  assumes "engine_init c e"
  shows "wf_engine e"
proof -
  obtain ss where "e = fresh_engine c ss" using assms engine_started unfolding engine_init_def by blast
  then show ?thesis by (simp add: wf_engine_def fresh_engine_def)
qed

interpretation replies: layered_invariant "engine_init c" "engine_step c hash" "engine_inv c hash" wf_engine for c hash
  by unfold_locales (use wf_engine_start wf_engine_step in blast)+

subsection \<open>Sessions and connections\<close>

lemma as_i64_in_i64: "n \<le> u64_max \<Longrightarrow> in_i64 (as_i64 n)"
  by (auto simp: as_i64_def in_i64_def i64_min_def i64_max_def u64_max_def)

lemma info_wf: "wf_reply (fst (info stats c m sec en))"
  by (simp add: info_def Let_def split: prod.splits)

lemma authenticate_wf: "authenticate ct_eq c u p = Inl reply \<Longrightarrow> wf_reply reply"
  by (auto simp: authenticate_def Let_def split: option.splits if_splits)

lemma hello_wf: "s_id s \<le> u64_max \<Longrightarrow> wf_reply (hello_reply s)"
  using as_i64_in_i64 [of "s_id s"] by (simp add: hello_reply_def in_i64_def [of 2] i64_min_def i64_max_def)

text \<open>
  What a session relies on: the engine it calls answers with well-formed replies, as long as it is in a \<open>good\<close>
  state, and stays in one.
\<close>

locale wf_service =
  fixes run :: "Operation \<Rightarrow> 'e \<Rightarrow> Reply \<times> 'e" and stats :: "'e \<Rightarrow> ShardStats list \<times> 'e" and good :: "'e \<Rightarrow> bool"
  assumes run_wf: "good en \<Longrightarrow> wf_reply (fst (run operation en)) \<and> good (snd (run operation en))"
    and stats_good: "good en \<Longrightarrow> good (snd (stats en))"
begin

lemma info_good: "good en \<Longrightarrow> good (snd (info stats c m sec en))"
  using stats_good [of en] by (auto simp: info_def Let_def split: prod.splits if_splits)

lemma session_command_wf:
  assumes good: "good en" and cmd: "session_command run stats c m s command en = Some (reply, close, s', en')"
  shows "wf_reply reply \<and> s_id s' = s_id s \<and> good en'"
proof (cases command)
  case (Data op)
  then show ?thesis using cmd run_wf [OF good, of op] by (auto simp: session_command_def split: prod.splits)
next
  case (Info sec)
  then show ?thesis
    using cmd info_wf [of stats c m sec en] info_good [OF good, of c m sec] by (auto simp: session_command_def split: prod.splits)
qed (use assms metadata_wf in \<open>auto simp: session_command_def split: option.splits ClientCommand.splits if_splits\<close>)

lemma Session_execute_wf:
  assumes good: "good en" and id: "s_id s \<le> u64_max"
    and ex: "Session_execute ct_eq run stats c m s command en = Some (reply, close, s', en')"
  shows "wf_reply reply \<and> s_id s' = s_id s \<and> good en'"
proof (cases "(\<exists>u p. command = Auth u p) \<or> (\<exists>v a n. command = Hello v a n)")
  case False
  then have gate: "Session_execute ct_eq run stats c m s command en =
      (if \<not> authenticated s then Some (noauth, False, s, en) else session_command run stats c m s command en)"
    by (cases command) (simp_all add: Session_execute_def)
  show ?thesis
    using ex [unfolded gate] session_command_wf [OF good] good by (cases "authenticated s") (auto simp: noauth_def)
next
  case True
  then show ?thesis
    using ex id hello_wf good
    by (auto simp: Session_execute_def Let_def noauth_def split: sum.splits option.splits if_splits prod.splits dest: authenticate_wf)
qed

lemma answer_request_wf:
  assumes good: "good en" and id: "s_id s \<le> u64_max"
    and ans: "answer_request ct_eq run stats c s m en args = Some (reply, close, s', m', en')"
  shows "wf_reply reply \<and> s_id s' = s_id s \<and> good en'"
  using ans Session_execute_wf [OF good id] parse_line good
  by (auto simp: answer_request_def Let_def split: Option.bind_splits sum.splits)

end

text \<open>An engine that is called through its handle is such a service.\<close>

lemma engine_wf: "engine_reach c hash e \<Longrightarrow> (rq, reply) \<in> set (en_answered e) \<Longrightarrow> wf_reply reply"
  using replies.both.reach_inv [of c hash e] by (auto simp: wf_engine_def list_all_iff)

sublocale engine_calls < service: wf_service run stats "engine_reach c hash"
proof
  fix en operation
  assume reach: "engine_reach c hash en"
  have reach': "engine_reach c hash (snd (run operation en))" using reach_steps [OF run_steps [OF reach] reach] .
  obtain rq where "(rq, fst (run operation en)) \<in> set (en_answered (snd (run operation en)))"
    using run_answer [OF reach] by blast
  then show "wf_reply (fst (run operation en)) \<and> engine_reach c hash (snd (run operation en))"
    using reach' engine_wf by blast
  show "engine_reach c hash (snd (stats en))" using reach_steps [OF stats_steps [OF reach] reach] .
qed

text \<open>The decoder's complaints fit a line.\<close>

lemma header_end_message: "header_end d input = Some (Inl e, d') \<Longrightarrow> one_line e"
proof (induction d input rule: header_end.induct)
  case (1 d input)
  then show ?case by (subst (asm) (2) header_end.simps) (auto split: if_splits)
qed

lemma length_digits_line: "length_digits n ds = Inl e \<Longrightarrow> one_line e"
  by (induction n ds rule: length_digits.induct) (auto split: if_splits option.splits)

lemma length_header_line: "length_header d input p c = Some (Inl e) \<Longrightarrow> one_line e"
  by (auto simp: length_header_def split: if_splits Option.bind_splits dest: length_digits_line)

lemma decode_stage_line:
  "decode_array_header d input = Some (Inl e, d') \<Longrightarrow> one_line e"
  "decode_bulk_header d input = Some (Inl e, d') \<Longrightarrow> one_line e"
  "decode_bulk_body d input = Some (Inl e, d') \<Longrightarrow> one_line e"
  by (auto simp: decode_array_header_def decode_bulk_header_def decode_bulk_body_def
      split: if_splits Option.bind_splits sum.splits option.splits dest: header_end_message length_header_line)

lemma decode_line: "decode d input = Some (Inl e, d', i') \<Longrightarrow> one_line e"
proof (induction d input rule: decode.induct)
  case (1 d input)
  consider (array) d1 dx where "decode_array_header d1 input = Some (Inl e, dx)"
    | (head) d1 dx where "decode_bulk_header d1 input = Some (Inl e, dx)"
    | (body) d1 dx where "decode_bulk_body d1 input = Some (Inl e, dx)"
    | (more) d1 d2 d3 where "decode_array_header d input = Some (Inr True, d1)" "decode_bulk_header d1 input = Some (Inr True, d2)"
      "decode_bulk_body d2 input = Some (Inr True, d3)" "Some (length (spans d3)) \<noteq> argument_count d3"
      "decode d3 input = Some (Inl e, d', i')"
    using 1(2) [unfolded decode.simps [of d input]] by (auto split: Option.bind_splits sum.splits bool.splits if_splits)
  then show ?case
  proof cases
    case more
    then show ?thesis using 1(1) by blast
  qed (blast dest: decode_stage_line)+
qed

lemma next_request_line: "next_request c d input evs = Some (ProtocolFailure e, d', i', evs') \<Longrightarrow> one_line e"
proof (induction c d input evs rule: next_request.induct)
  case (1 c d input evs)
  obtain r d1 i1 where dec: "decode d input = Some (r, d1, i1)"
    using 1(3) by (subst (asm) next_request.simps) (auto split: Option.bind_splits)
  consider (error) e' where "r = Inl e'" | (ready) req where "r = Inr (Some req)" | (waits) "r = Inr None"
    by (cases r) (auto simp: not_None_eq)
  then show ?case
  proof cases
    case error
    then show ?thesis using 1(3) dec decode_line by (auto simp: next_request_error)
  next
    case ready
    then show ?thesis using 1(3) dec by (simp add: next_request_ready)
  next
    case waits
    have i1: "i1 = input" using decode_keeps [OF dec] waits by simp
    note eq = 1(3) [unfolded next_request_waits [OF dec [unfolded waits]]]
    show ?thesis
    proof (cases evs)
      case Nil
      then show ?thesis using eq by (auto split: if_splits)
    next
      case (Cons ev rest)
      then show ?thesis
        using eq 1(1,2) dec waits i1 by (cases ev) (auto split: if_splits)
    qed
  qed
qed

lemma bounded_wf: "wf_reply reply \<Longrightarrow> wf_reply (bounded_reply c reply)"
  by (simp add: bounded_reply_def limit_error_def)

lemma write_reply_wire:
  "write_reply alloc c reply ws = Some (WriteOk out, ws') \<Longrightarrow> out = wire (bounded_reply c reply) \<and> set ws' \<subseteq> set ws"
  "write_reply alloc c reply ws = Some (WriteError deadline part, ws') \<Longrightarrow>
    (\<exists>n. part = take n (wire (bounded_reply c reply))) \<and> (set ws \<subseteq> {Written} \<longrightarrow> part = [])"
  by (auto simp: write_reply_def Let_def wire_def split: Option.bind_splits if_splits list.splits WriteEvent.splits)

text \<open>
  The bytes of whole replies, and of the beginning of one more if the connection ended in the middle of it.
\<close>

definition stream :: "bytes \<Rightarrow> Reply list \<Rightarrow> bytes \<Rightarrow> bool" where
  "stream out replies torn \<longleftrightarrow> list_all wf_reply replies \<and> out = concat (map (\<lambda>r. encode r []) replies) @ torn \<and>
     (torn \<noteq> [] \<longrightarrow> (\<exists>r. wf_reply r \<and> strict_prefix torn (encode r [])))"

lemma wire_eq: "wire = (\<lambda>r. encode r [])"
  by (rule ext) (simp add: wire_def)

lemma stream_wire:
  "stream out replies torn \<longleftrightarrow> list_all wf_reply replies \<and> out = concat (map wire replies) @ torn \<and>
     (torn \<noteq> [] \<longrightarrow> (\<exists>r. wf_reply r \<and> strict_prefix torn (wire r)))"
  by (simp add: stream_def wire_eq)

definition wrote :: "WriteEvent list \<Rightarrow> ConnResult \<Rightarrow> bytes \<Rightarrow> bytes \<Rightarrow> bool" where
  "wrote ws res output output' \<longleftrightarrow> (\<exists>replies torn. output' = output @ concat (map wire replies) @ torn \<and>
     stream (concat (map wire replies) @ torn) replies torn \<and> (torn \<noteq> [] \<longrightarrow> res \<noteq> Blocked \<and> \<not> set ws \<subseteq> {Written}))"

lemma wrote_none: "output' = output \<Longrightarrow> wrote ws res output output'"
  unfolding wrote_def stream_wire by (rule exI [of _ "[]"], rule exI [of _ "[]"]) simp

lemma wrote_more:
  assumes "wf_reply r" and "wrote ws' res (output @ wire r) output'" and "set ws' \<subseteq> set ws"
  shows "wrote ws res output output'"
proof -
  obtain replies torn where "output' = (output @ wire r) @ concat (map wire replies) @ torn"
    "stream (concat (map wire replies) @ torn) replies torn" "torn \<noteq> [] \<longrightarrow> res \<noteq> Blocked \<and> \<not> set ws' \<subseteq> {Written}"
    using assms(2) by (auto simp: wrote_def)
  then show ?thesis
    using assms(1,3) unfolding wrote_def
    by (intro exI [of _ "r # replies"] exI [of _ torn]) (auto simp: stream_wire)
qed

lemma wrote_one: "wf_reply r \<Longrightarrow> wrote ws res output (output @ wire r)"
  using wrote_more [OF _ wrote_none [OF refl]] by blast

lemma wrote_part:
  assumes "wf_reply r" and "part = take n (wire r)" and "part \<noteq> [] \<longrightarrow> \<not> set ws \<subseteq> {Written}" and "res \<noteq> Blocked"
  shows "wrote ws res output (output @ part)"
proof (cases "n < length (wire r)")
  case True
  then have "strict_prefix part (wire r)"
    using assms(2) take_is_prefix [of n "wire r"] by (auto simp: strict_prefix_def dest: arg_cong [where f = length])
  then show ?thesis
    using assms unfolding wrote_def by (intro exI [of _ "[]"] exI [of _ part]) (auto simp: stream_wire)
qed (use assms wrote_one in simp)

context wf_service
begin

lemma connection_wrote:
  assumes "good (cn_engine conn)" and "s_id (cn_session conn) \<le> u64_max"
    and "connection alloc ct_eq run stats c conn evs ws = Some (res, conn', evs', ws')"
  shows "wrote ws res (cn_output conn) (cn_output conn') \<and> good (cn_engine conn')"
  using assms
proof (induction "length (cn_input conn) + script_size evs" arbitrary: conn evs ws rule: less_induct)
  case less
  show ?case
  proof (cases "evs \<noteq> [] \<and> hd evs = Stopping")
    case True
    then show ?thesis using less.prems(1,3) by (subst (asm) connection.simps) (auto simp: wrote_none)
  next
    case go: False
    obtain f d1 i1 evs1 where nxt: "next_request c (cn_decoder conn) (cn_input conn) (flag_unset evs) = Some (f, d1, i1, evs1)"
      using less.prems(3) go by (subst (asm) connection.simps) (auto split: Option.bind_splits)
    note eq = less.prems(3) [unfolded connection.simps [of alloc ct_eq run stats c conn evs ws] nxt, simplified go Let_def, simplified]
    show ?thesis
    proof (cases f)
      case (GotRequest req)
      obtain reply close s m en r ws1 where ans: "answer_request ct_eq run stats c (cn_session conn) (cn_metrics conn) (cn_engine conn)
          (arguments req) = Some (reply, close, s, m, en)" and wr: "write_reply alloc c reply ws = Some (r, ws1)"
        using eq GotRequest by (auto split: Option.bind_splits)
      have wf: "wf_reply (bounded_reply c reply)" "s_id s \<le> u64_max" "good en"
        using answer_request_wf [OF less.prems(1,2) ans] less.prems(2) bounded_wf by auto
      note eq' = eq GotRequest ans wr
      show ?thesis
      proof (cases r)
        case (WriteOk out)
        note out = write_reply_wire(1) [OF wr [unfolded WriteOk]]
        let ?conn = "conn\<lparr>cn_decoder := d1, cn_input := i1, cn_session := s, cn_metrics := m, cn_engine := en,
            cn_output := cn_output conn @ out\<rparr>"
        show ?thesis
        proof (cases close)
          case True
          then show ?thesis using eq' WriteOk out wf wrote_one by auto
        next
          case False
          have lt: "length (cn_input ?conn) + script_size evs1 < length (cn_input conn) + script_size evs"
            using next_request_flag_consumes [OF nxt [unfolded GotRequest]] by simp
          have "wrote ws1 res (cn_output ?conn) (cn_output conn') \<and> good (cn_engine conn')"
            by (rule less.hyps [OF lt]) (use eq' WriteOk False wf in auto)
          then show ?thesis using wrote_more [OF wf(1), of ws1 res "cn_output conn" "cn_output conn'" ws] out by simp
        qed
      next
        case (WriteError deadline part)
        then show ?thesis
          using eq' write_reply_wire(2) [OF wr [unfolded WriteError]] wf by (auto intro!: wrote_part)
      qed (use eq' wf in \<open>auto intro!: wrote_none\<close>)
    next
      case (ProtocolFailure message)
      let ?reply = "Reply_error (''ERR Protocol error: '' @ message)"
      obtain r ws1 where wr: "write_reply alloc c ?reply ws = Some (r, ws1)"
        using eq ProtocolFailure by (auto split: Option.bind_splits)
      have wf: "wf_reply (bounded_reply c ?reply)" using next_request_line nxt ProtocolFailure by (intro bounded_wf) auto
      note eq' = eq ProtocolFailure wr
      show ?thesis
      proof (cases r)
        case (WriteOk out)
        then show ?thesis using eq' write_reply_wire(1) [OF wr [unfolded WriteOk]] wf less.prems(1) wrote_one by auto
      next
        case (WriteError deadline part)
        then show ?thesis
          using eq' write_reply_wire(2) [OF wr [unfolded WriteError]] wf less.prems(1) by (auto intro!: wrote_part)
      qed (use eq' less.prems(1) in \<open>auto intro!: wrote_none\<close>)
    qed (use eq less.prems(1) in \<open>auto intro!: wrote_none\<close>)
  qed
qed

end

context engine_calls
begin

lemma connection_bytes:
  assumes "engine_reach c hash (cn_engine conn)" and "s_id (cn_session conn) \<le> u64_max"
    and "connection alloc ct_eq run stats config conn evs ws = Some (res, conn', evs', ws')"
  shows "wrote ws res (cn_output conn) (cn_output conn') \<and> engine_reach c hash (cn_engine conn')"
  by (rule service.connection_wrote [OF assms])

end

subsection \<open>The properties\<close>

lemma wire_nonempty: "wire r \<noteq> []"
  by (cases r rule: encoded_len.cases) simp_all

lemma cut_not_whole:
  assumes "torn = wire r @ x" and "wf_reply r" and "wf_reply r'" and "strict_prefix torn (wire r')"
  shows False
proof -
  obtain z where z: "wire r' = torn @ z" "z \<noteq> []" using assms(4) by (auto simp: strict_prefix_def prefix_def)
  then have "r' = r \<and> [] = x @ z" using assms wf_line_safe by (intro wire_prefix_free) simp_all
  then show False using z(2) by simp
qed

text \<open>Whole replies and a beginning of one are read back in one way only.\<close>

lemma stream_inj: "stream out rs torn \<Longrightarrow> stream out rs' torn' \<Longrightarrow> rs = rs' \<and> torn = torn'"
proof (induction rs arbitrary: out rs')
  case Nil
  show ?case
  proof (cases rs')
    case (Cons r rest)
    then have "torn = wire r @ concat (map wire rest) @ torn'" "wf_reply r" "torn \<noteq> []"
      using Nil wire_nonempty [of r] by (auto simp: stream_wire)
    then show ?thesis using Nil(1) cut_not_whole by (auto simp: stream_wire)
  qed (use Nil in \<open>auto simp: stream_wire\<close>)
next
  case (Cons r rs)
  show ?case
  proof (cases rs')
    case Nil
    then have "torn' = wire r @ concat (map wire rs) @ torn" "wf_reply r" "torn' \<noteq> []"
      using Cons.prems wire_nonempty [of r] by (auto simp: stream_wire)
    then show ?thesis using Cons.prems(2) cut_not_whole by (auto simp: stream_wire)
  next
    case rs': (Cons r' rest)
    have "r = r' \<and> concat (map wire rs) @ torn = concat (map wire rest) @ torn'"
      using Cons.prems wf_line_safe by (intro wire_prefix_free) (auto simp: rs' stream_wire)
    then show ?thesis
      using Cons.IH [of "concat (map wire rs) @ torn" rest] Cons.prems by (auto simp: rs' stream_wire)
  qed
qed

text \<open>
  Claim C25. Every reply of the engine is a well-formed RESP2 value: in every reachable state, whatever
  commands ran on one owner or over several, the texts of all replies given are single lines and all
  their integers are 64-bit (the counts of \<open>DEL\<close> and \<open>EXISTS\<close> over all owners, the results of increments and
  the remaining times included), and the same holds for the replies that are on their way.
\<close>

theorem engine_replies_well_formed:
  assumes "engine_reach c hash e"
  shows "(\<forall>(rq, reply) \<in> set (en_answered e). wf_reply reply) \<and> (\<forall>(rq, reply) \<in> set (decided (en_coord e)). wf_reply reply)"
proof -
  have "wf_engine e" using replies.both.reach_inv [OF assms] by blast
  then show ?thesis by (cases "en_coord e") (auto simp: wf_engine_def list_all_iff)
qed

theorem engine_replies_well_formed_witness:
  "\<exists>rq reply. en_answered (demo_engine demo_full) = [(rq, reply)] \<and> wf_reply reply"
proof -
  have "map (\<lambda>_. ()) (en_answered (demo_engine demo_full)) = [()]" by code_simp
  then obtain rq reply where "en_answered (demo_engine demo_full) = [(rq, reply)]" by auto
  then show ?thesis using engine_replies_well_formed [OF demo_reach(2)] by auto
qed

text \<open>
  Claim C14. A connection speaks RESP2 whatever the client sends: whatever bytes arrive, in whatever pieces,
  with whatever failures of reads and writes, and whatever other clients and the threads of the engine do
  during its calls, the bytes a connection has written are the encodings of well-formed replies, followed by
  the beginning of one more only if a write failed or timed out, after which the connection has ended. These
  replies and the part that was cut off are the only ones with these bytes, so a client reads back exactly
  what the server meant.
\<close>

theorem connection_speaks_resp:
  assumes "engine_calls c hash run stats" and "engine_reach c hash (cn_engine conn)" and "s_id (cn_session conn) \<le> u64_max"
    and "connection alloc ct_eq run stats c conn evs ws = Some (res, conn', evs', ws')"
  shows "\<exists>replies torn. list_all wf_reply replies \<and>
    cn_output conn' = cn_output conn @ concat (map (\<lambda>r. encode r []) replies) @ torn \<and>
    (torn \<noteq> [] \<longrightarrow> res \<noteq> Blocked \<and> \<not> set ws \<subseteq> {Written} \<and> (\<exists>r. wf_reply r \<and> strict_prefix torn (encode r []))) \<and>
    (\<forall>replies' torn'. stream (concat (map (\<lambda>r. encode r []) replies) @ torn) replies' torn' \<longrightarrow>
       replies' = replies \<and> torn' = torn)"
proof -
  have "wrote ws res (cn_output conn) (cn_output conn')"
    using engine_calls.connection_bytes [OF assms] by blast
  then obtain replies torn where "cn_output conn' = cn_output conn @ concat (map wire replies) @ torn"
    "stream (concat (map wire replies) @ torn) replies torn" "torn \<noteq> [] \<longrightarrow> res \<noteq> Blocked \<and> \<not> set ws \<subseteq> {Written}"
    by (auto simp: wrote_def)
  then show ?thesis
    using stream_inj [of "concat (map wire replies) @ torn" _ _ replies torn]
    unfolding wire_eq by (intro exI [of _ replies] exI [of _ torn]) (auto simp: stream_def)
qed

definition ping_bytes :: bytes where
  "ping_bytes = ''*1'' @ crlf @ ''$4'' @ crlf @ ''PING'' @ crlf @ ''*9'' @ [CHR 0x0A] @ ''PING''"

theorem connection_speaks_resp_witness:
  "\<exists>conn' res evs' ws' replies torn.
     connection granting (=) (driven_call 8 demo_config demo_hash 0) (driven_stats demo_config demo_hash 0) demo_config
       (the (Conn_new demo_config 7 Metrics_default demo_start)) [Arrived ping_bytes] [Written, WriteTimedOut 6] =
       Some (res, conn', evs', ws') \<and>
     cn_output conn' = concat (map (\<lambda>r. encode r []) replies) @ torn \<and> res \<noteq> Blocked \<and>
     replies = [Simple ''PONG''] \<and> torn = ''-ERR P''"
proof -
  let ?run = "driven_call 8 demo_config demo_hash 0" and ?stats = "driven_stats demo_config demo_hash 0"
  let ?conn = "the (Conn_new demo_config 7 Metrics_default demo_start)"
  have 1: "map_option (\<lambda>(res, conn', evs', ws'). cn_output conn')
      (connection granting (=) ?run ?stats demo_config ?conn [Arrived ping_bytes] [Written, WriteTimedOut 6]) =
      Some (encode (Simple ''PONG'') [] @ ''-ERR P'')"
    by code_simp
  have 2: "cn_output ?conn = []" "s_id (cn_session ?conn) \<le> u64_max" "cn_engine ?conn = demo_start" by code_simp+
  have reach: "engine_reach demo_config demo_hash (cn_engine ?conn)"
    unfolding 2(3) by (rule reach.start [of "engine_init demo_config", OF demo_init])
  from 1 obtain res conn' evs' ws' where run: "connection granting (=) ?run ?stats demo_config ?conn
      [Arrived ping_bytes] [Written, WriteTimedOut 6] = Some (res, conn', evs', ws')"
    and out: "cn_output conn' = encode (Simple ''PONG'') [] @ ''-ERR P''"
    by (auto simp del: append_Cons append_Nil append_assoc encode.simps)
  from connection_speaks_resp [OF driven.engine_calls_axioms reach 2(2) run] obtain replies torn where
    o: "cn_output conn' = concat (map (\<lambda>r. encode r []) replies) @ torn" and "torn \<noteq> [] \<longrightarrow> res \<noteq> Blocked"
    and only: "\<And>replies' torn'. stream (concat (map (\<lambda>r. encode r []) replies) @ torn) replies' torn' \<Longrightarrow>
      replies' = replies \<and> torn' = torn"
    using 2(1) by auto
  moreover have "strict_prefix ''-ERR P'' (encode (Error ''ERR Pr'') [])" by code_simp
  then have "stream (encode (Simple ''PONG'') [] @ ''-ERR P'') [Simple ''PONG''] ''-ERR P''"
    by (auto simp: stream_def simp del: encode.simps intro!: exI [of _ "Error ''ERR Pr''"])
  then have "[Simple ''PONG''] = replies \<and> ''-ERR P'' = torn" using only o out by simp
  ultimately show ?thesis using run by blast
qed

end
