(* ===== verification/Engine_Workloads.thy ===== *)
theory Engine_Workloads
  imports Engine_Runs Command_Props
begin

section \<open>Workloads of concurrent clients (crates/recall-server/src/engine.rs, tests)\<close>

text \<open>
  Two tests of the engine run clients concurrently and look at what they see: counters that are
  incremented by several clients lose no update, and reads of several keys never observe half of a
  write. Here they are theorems about every run, every number of clients and every interleaving: both
  follow from linearizability, by induction on the serial run.
\<close>

lemma serial_outcomes:
  assumes "engine_reach c hash e"
  obtains h where "serial h (view c hash e)" and "mset h = mset (outcomes e)" and "set h = set (outcomes e)"
  using engine.reach_serial [OF assms] by (metis mset_eq_setD)

text \<open>A command changes only the keys it names.\<close>

lemma ran_elsewhere: "ran now op m reply m' \<Longrightarrow> k \<notin> set (Operation_keys op) \<Longrightarrow> m' k = m k"
  by (auto simp: ran_def after_op_def)

lemma ran_at: "ran now op m reply m' \<Longrightarrow> k \<in> set (Operation_keys op) \<Longrightarrow>
    \<exists>mm. spec_op now (live now m) op = Inr (reply, mm) \<and> m' k = mm k"
  by (auto simp: ran_def after_op_def)

lemma purged_permanent:
  assumes "purged now m m'" and "case m k of None \<Rightarrow> True | Some x \<Rightarrow> e_expires x = None"
  shows "m' k = m k"
proof -
  obtain R where R: "R \<subseteq> due_keys now m" "m' = m |` (- R)" using assms(1) by (auto simp: purged_def)
  have "m k = None \<or> k \<notin> R" using R(1) assms(2) by (auto simp: due_keys_def due_def subset_iff split: option.splits)
  then show ?thesis using R(2) by (auto simp: restrict_map_def)
qed

lemma live_permanent_at:
  "(case m k of None \<Rightarrow> True | Some x \<Rightarrow> e_expires x = None) \<Longrightarrow> live now m k = m k"
  by (auto simp: live_def due_def split: option.splits)

text \<open>A read changes nothing that cannot expire.\<close>

fun reads_only :: "Operation \<Rightarrow> bool" where
  "reads_only (Get _) = True"
| "reads_only (Exists _) = True"
| "reads_only (MultiGet _) = True"
| "reads_only (Ttl _ _) = True"
| "reads_only _ = False"

lemma ran_reads_only:
  assumes "ran now op m reply m'" and "reads_only op" and "case m k of None \<Rightarrow> True | Some x \<Rightarrow> e_expires x = None"
  shows "m' k = m k"
proof (cases "k \<in> set (Operation_keys op)")
  case True
  then obtain mm where "spec_op now (live now m) op = Inr (reply, mm)" "m' k = mm k" using ran_at [OF assms(1)] by blast
  then have "m' k = live now m k" using assms(2) by (cases op) auto
  then show ?thesis using live_permanent_at assms(3) by simp
qed (use ran_elsewhere [OF assms(1)] in blast)

subsection \<open>Counters\<close>

text \<open>Key \<open>k\<close> is only incremented, decremented and read.\<close>

definition counts_only :: "bytes \<Rightarrow> outcome list \<Rightarrow> bool" where
  "counts_only k h \<longleftrightarrow> list_all (\<lambda>(rq, reply). k \<in> set (Operation_keys (rq_operation rq)) \<longrightarrow>
     (case rq_operation rq of Increment k' n subtract \<Rightarrow> True | op \<Rightarrow> reads_only op)) h"

text \<open>What a client was told it added.\<close>

fun contribution :: "bytes \<Rightarrow> outcome \<Rightarrow> int list" where
  "contribution k (rq, Integer _) =
     (case rq_operation rq of Increment k' n subtract \<Rightarrow> if k' = k then [if subtract then - n else n] else [] | _ \<Rightarrow> [])"
| "contribution k _ = []"

definition contributions :: "bytes \<Rightarrow> outcome list \<Rightarrow> int list" where
  "contributions k h = concat (map (contribution k) h)"

definition counter :: "int list \<Rightarrow> Entry option" where
  "counter ns = (if ns = [] then None else Some \<lparr>e_value = i64_to_string (sum_list ns), e_expires = None\<rparr>)"

lemma contributions_simps [simp]:
  "contributions k [] = []" "contributions k (h @ g) = contributions k h @ contributions k g"
  "contributions k [x] = contribution k x"
  by (simp_all add: contributions_def)

lemma counter_permanent: "case counter ns of None \<Rightarrow> True | Some x \<Rightarrow> e_expires x = None"
  by (simp add: counter_def)

lemma integer_text: "in_i64 n \<Longrightarrow> integer (i64_to_string n) = Inr n"
  by (simp add: integer_Inr_iff)

lemma counter_ran:
  assumes ran: "ran now (rq_operation rq) m reply m'" and m: "m k = counter ns" and fit: "in_i64 (sum_list ns)"
    and inc: "rq_operation rq = Increment k n subtract"
  shows "m' k = counter (ns @ contribution k (rq, reply)) \<and> in_i64 (sum_list (ns @ contribution k (rq, reply)))"
proof -
  have live: "live now m k = counter ns" using live_permanent_at [of m k now] m counter_permanent [of ns] by simp
  obtain mm where mm: "spec_increment (live now m) k n subtract = Inr (reply, mm)" "m' k = mm k"
    using ran_at [OF ran, of k] inc by auto
  let ?new = "if subtract then sum_list ns - n else sum_list ns + n"
  have "(case live now m k of None \<Rightarrow> Inr 0 | Some x \<Rightarrow> integer (e_value x)) = Inr (sum_list ns)"
    using live fit by (auto simp: counter_def integer_text)
  then have "reply = Integer ?new" "in_i64 ?new"
    "mm = (live now m)(k \<mapsto> \<lparr>e_value = i64_to_string ?new, e_expires = Option.bind (live now m k) e_expires\<rparr>)"
    using mm(1) by (auto simp: spec_increment_def Let_def split: if_splits)
  moreover have "Option.bind (live now m k) e_expires = None" using live by (simp add: counter_def)
  ultimately show ?thesis using mm(2) inc by (simp add: counter_def split: if_splits)
qed

lemma serial_counter:
  assumes "serial h m" and "counts_only k h"
  shows "m k = counter (contributions k h) \<and> in_i64 (sum_list (contributions k h))"
  using assms
proof (induction rule: serial.induct)
  case empty
  then show ?case by (simp add: counter_def in_i64_def i64_min_def i64_max_def)
next
  case (extend h m g m')
  then have IH: "m k = counter (contributions k h)" "in_i64 (sum_list (contributions k h))" and g: "counts_only k g"
    by (simp_all add: counts_only_def)
  from extend(2) show ?case
  proof cases
    case (purge now)
    then show ?thesis using purged_permanent [OF purge(2), of k] IH counter_permanent [of "contributions k h"] by simp
  next
    case (run now rq reply)
    show ?thesis
    proof (cases "k \<in> set (Operation_keys (rq_operation rq))")
      case True
      then consider n subtract where "rq_operation rq = Increment k n subtract" | "reads_only (rq_operation rq)"
        using g run(1) by (cases "rq_operation rq") (auto simp: counts_only_def)
      then show ?thesis
      proof cases
        case 1
        then show ?thesis using counter_ran [OF run(2) IH] run(1) by simp
      next
        case 2
        then have "contribution k (rq, reply) = []" by (cases reply; cases "rq_operation rq") auto
        moreover have "m' k = m k"
          using ran_reads_only [OF run(2) 2, of k] IH(1) counter_permanent [of "contributions k h"] by simp
        ultimately show ?thesis using IH run(1) by simp
      qed
    next
      case False
      then have "contribution k (rq, reply) = []" by (cases reply; cases "rq_operation rq") auto
      then show ?thesis using ran_elsewhere [OF run(2) False] IH run(1) by simp
    qed
  qed (use IH in \<open>simp_all add: Reply_error_def\<close>)
qed

lemma contributions_mset:
  assumes "mset h = mset h'"
  shows "mset (contributions k h) = mset (contributions k h')"
proof -
  have "mset (contributions k h) = sum_mset (image_mset (mset \<circ> contribution k) (mset h))" for h
    by (induction h) (simp_all add: contributions_def)
  then show ?thesis using assms by simp
qed

text \<open>
  Claim C8. No update of a counter is lost or applied twice: in every reachable state of the engine, if the
  commands on a key are increments, decrements and reads, by any number of clients in any interleaving with
  anything else, then the key holds exactly the sum of the amounts of those that were answered with a
  number (and does not exist if there are none), and this sum never leaves the 64-bit range.
\<close>

theorem counter_updates_not_lost:
  assumes "engine_reach c hash e" and "counts_only k (outcomes e)"
  shows "view c hash e k =
      (if contributions k (outcomes e) = [] then None
       else Some \<lparr>e_value = i64_to_string (sum_list (contributions k (outcomes e))), e_expires = None\<rparr>) \<and>
    in_i64 (sum_list (contributions k (outcomes e)))"
proof -
  obtain h where h: "serial h (view c hash e)" "mset h = mset (outcomes e)" "set h = set (outcomes e)"
    using serial_outcomes [OF assms(1)] .
  have "counts_only k h" using assms(2) h(3) by (simp add: counts_only_def list_all_iff)
  note s = serial_counter [OF h(1) this]
  have eq: "mset (contributions k h) = mset (contributions k (outcomes e))" using contributions_mset [OF h(2)] .
  then have "sum_list (contributions k h) = sum_list (contributions k (outcomes e))"
    by (metis sum_mset_sum_list)
  moreover have "contributions k h = [] \<longleftrightarrow> contributions k (outcomes e) = []" using eq by (metis mset_zero_iff)
  ultimately show ?thesis using s by (simp add: counter_def)
qed

text \<open>Two clients add to one counter, a third subtracts from it.\<close>

definition count_request :: "nat \<Rightarrow> int \<Rightarrow> bool \<Rightarrow> DataRequest" where
  "count_request client n subtract =
     \<lparr>rq_client = client, rq_operation = Increment ''n'' n subtract, rq_credit = 385\<rparr>"

definition count_schedule :: "Action list" where
  "count_schedule = [Submit (count_request 1 5 False), Submit (count_request 2 7 False), Hand, Turn 1 0 False, Turn 1 0 False,
     Hand, Submit (count_request 3 2 True), Turn 1 0 False, Hand, Turn 1 0 False, Turn 1 0 False, Turn 1 0 False]"

lemma count_run: "run_schedule demo_config demo_hash count_schedule demo_start = Some (demo_engine count_schedule)"
  by code_simp

lemma count_reach: "engine_reach demo_config demo_hash (demo_engine count_schedule)"
  using run_schedule_reach [OF count_run] reach.start [of "engine_init demo_config", OF demo_init] by blast

theorem counter_updates_not_lost_witness:
  "view demo_config demo_hash (demo_engine count_schedule) ''n'' = Some \<lparr>e_value = i64_to_string 10, e_expires = None\<rparr>"
proof -
  have "counts_only ''n'' (outcomes (demo_engine count_schedule))"
    "contributions ''n'' (outcomes (demo_engine count_schedule)) = [5, 7, -2]"
    by code_simp+
  then show ?thesis using counter_updates_not_lost [OF count_reach] by simp
qed

subsection \<open>Writes and reads of several keys\<close>

text \<open>
  The keys of \<open>K\<close> are written together: a command that touches one of them writes all of them (\<open>MSET\<close>, each
  key with a value of its own), deletes all of them, or only reads. Writes may cover other keys too, and
  reads any part of \<open>K\<close>.
\<close>

fun writes_all :: "bytes set \<Rightarrow> Operation \<Rightarrow> bool" where
  "writes_all K (MultiSet kvs) = (K \<subseteq> fst ` set kvs)"
| "writes_all K (Delete ks) = (K \<subseteq> set ks)"
| "writes_all K _ = False"

definition writes_together :: "bytes set \<Rightarrow> outcome list \<Rightarrow> bool" where
  "writes_together K h \<longleftrightarrow> (\<forall>(rq, reply) \<in> set h. set (Operation_keys (rq_operation rq)) \<inter> K \<noteq> {} \<longrightarrow>
     writes_all K (rq_operation rq) \<or> reads_only (rq_operation rq))"

text \<open>
  One state of these keys: there is none of them, or all come from one acknowledged \<open>MSET\<close>, which gives a key
  that it names twice the last value.
\<close>

fun written :: "(bytes \<times> bytes) list option \<Rightarrow> bytes \<Rightarrow> bytes option" where
  "written None k = None"
| "written (Some kvs) k = map_of (rev kvs) k"

definition one_write :: "bytes set \<Rightarrow> outcome list \<Rightarrow> (bytes \<times> bytes) list option \<Rightarrow> bool" where
  "one_write K h w \<longleftrightarrow> (\<forall>kvs. w = Some kvs \<longrightarrow>
     K \<subseteq> fst ` set kvs \<and> (\<exists>rq. (rq, Reply_ok) \<in> set h \<and> rq_operation rq = MultiSet kvs))"

definition holds :: "bytes set \<Rightarrow> (bytes \<times> bytes) list option \<Rightarrow> keyspace \<Rightarrow> bool" where
  "holds K w m \<longleftrightarrow> (\<forall>k \<in> K. m k = map_option (\<lambda>v. \<lparr>e_value = v, e_expires = None\<rparr>) (written w k))"

definition shows_write :: "bytes set \<Rightarrow> (bytes \<times> bytes) list option \<Rightarrow> bytes list \<Rightarrow> Reply \<Rightarrow> bool" where
  "shows_write K w ks reply \<longleftrightarrow> (\<exists>rs. reply = Array rs \<and> length rs = length ks \<and>
     (\<forall>i < length ks. ks ! i \<in> K \<longrightarrow> rs ! i = Bulk (written w (ks ! i))))"

definition reads_one_write :: "bytes set \<Rightarrow> outcome list \<Rightarrow> bool" where
  "reads_one_write K h \<longleftrightarrow> (\<forall>rq reply ks. (rq, reply) \<in> set h \<longrightarrow> rq_operation rq = MultiGet ks \<longrightarrow>
     (\<exists>w. one_write K h w \<and> shows_write K w ks reply) \<or> (\<exists>msg. reply = Reply_error msg))"

lemma one_write_more: "one_write K h w \<Longrightarrow> one_write K (h @ g) w"
  by (auto simp: one_write_def)

lemma reads_one_write_more:
  "reads_one_write K h \<Longrightarrow>
    \<forall>rq reply ks. (rq, reply) \<in> set g \<longrightarrow> rq_operation rq = MultiGet ks \<longrightarrow>
      (\<exists>w. one_write K (h @ g) w \<and> shows_write K w ks reply) \<or> (\<exists>msg. reply = Reply_error msg) \<Longrightarrow>
    reads_one_write K (h @ g)"
  unfolding reads_one_write_def set_append Un_iff using one_write_more by metis

lemma holds_permanent: "holds K w m \<Longrightarrow> k \<in> K \<Longrightarrow> case m k of None \<Rightarrow> True | Some x \<Rightarrow> e_expires x = None"
  by (auto simp: holds_def split: option.splits)

lemma holds_same: "holds K w m \<Longrightarrow> (\<And>k. k \<in> K \<Longrightarrow> m' k = m k) \<Longrightarrow> holds K w m'"
  by (simp add: holds_def)

lemma holds_written:
  assumes ran: "ran now (MultiSet kvs) m reply m'" and K: "K \<subseteq> fst ` set kvs"
  shows "holds K (Some kvs) m' \<and> reply = Reply_ok"
proof -
  let ?e = "\<lambda>v. \<lparr>e_value = v, e_expires = None\<rparr>"
  have "m' k = map_option ?e (map_of (rev kvs) k)" if "k \<in> K" for k
  proof -
    have dom: "k \<in> fst ` set (rev kvs)" using K that by auto
    obtain mm where "m' k = mm k" "mm = live now m ++ map_of (rev (map (\<lambda>(k, v). (k, ?e v)) kvs))"
      using ran_at [OF ran, of k] dom by auto
    moreover have "map_of (rev (map (\<lambda>(k, v). (k, ?e v)) kvs)) = map_option ?e \<circ> map_of (rev kvs)"
      by (simp add: rev_map map_of_map)
    moreover have "map_of (rev kvs) k \<noteq> None" using dom by (simp add: map_of_eq_None_iff)
    ultimately show ?thesis by auto
  qed
  then show ?thesis using ran by (auto simp: holds_def ran_def)
qed

lemma holds_deleted: "ran now (Delete ks) m reply m' \<Longrightarrow> K \<subseteq> set ks \<Longrightarrow> holds K None m'"
  by (auto simp: holds_def ran_def after_op_def)

lemma holds_shown:
  assumes "ran now (MultiGet ks) m reply m'" and "holds K w m"
  shows "shows_write K w ks reply"
proof -
  have "spec_bulk (live now m) k = Bulk (written w k)" if "k \<in> K" for k
    using assms(2) live_permanent_at [of m k now, OF holds_permanent [OF assms(2) that]] that
    by (simp add: holds_def spec_bulk_def option.map_comp comp_def option.map_ident)
  then show ?thesis using assms(1) by (auto simp: shows_write_def ran_def)
qed

lemma serial_one_write:
  assumes "serial h m" and "writes_together K h"
  shows "(\<exists>w. one_write K h w \<and> holds K w m) \<and> reads_one_write K h"
  using assms
proof (induction rule: serial.induct)
  case empty
  then show ?case by (auto simp: one_write_def holds_def reads_one_write_def intro!: exI [of _ None])
next
  case (extend h m g m')
  then obtain w where w: "one_write K h w" "holds K w m" and IH: "reads_one_write K h" and g: "writes_together K g"
    by (auto simp: writes_together_def)
  note w' = one_write_more [OF w(1), of g]
  from extend(2) show ?case
  proof cases
    case (purge now)
    have "holds K w m'"
      by (rule holds_same [OF w(2)]) (rule purged_permanent [OF purge(2) holds_permanent [OF w(2)]])
    then show ?thesis using w(1) IH purge(1) by auto
  next
    case (run now rq reply)
    have "reads_one_write K (h @ g)"
      using w(2) w' run holds_shown by (intro reads_one_write_more [OF IH]) fastforce
    moreover consider "set (Operation_keys (rq_operation rq)) \<inter> K = {}" | "reads_only (rq_operation rq)"
      | "writes_all K (rq_operation rq)"
      using g run(1) by (auto simp: writes_together_def)
    then have "\<exists>w. one_write K (h @ g) w \<and> holds K w m'"
    proof cases
      case 1
      then show ?thesis using holds_same [OF w(2)] ran_elsewhere [OF run(2)] w' by blast
    next
      case 2
      then show ?thesis using holds_same [OF w(2)] ran_reads_only [OF run(2)] holds_permanent [OF w(2)] w' by blast
    next
      case 3
      then show ?thesis
      proof (cases rule: writes_all.cases [of "(K, rq_operation rq)"])
        case (1 K' kvs)
        then have "holds K (Some kvs) m' \<and> reply = Reply_ok" using 3 run(2) by (intro holds_written) auto
        then show ?thesis using 1 3 run(1) by (intro exI [of _ "Some kvs"]) (auto simp: one_write_def)
      next
        case (2 K' ks)
        then show ?thesis using 3 run(2) holds_deleted by (intro exI [of _ None]) (auto simp: one_write_def)
      qed auto
    qed
    ultimately show ?thesis by blast
  next
    case (refuse rq msg)
    then show ?thesis using w(2) w' reads_one_write_more [OF IH, of g] by auto
  qed (use w IH in auto)
qed

text \<open>
  Claim C7. Reads never observe half of a write: if some keys, on whatever owners they live, are only ever
  written together by \<open>MSET\<close> (each with its own value) or deleted together, and otherwise only read, then in
  every run, with any number of concurrent writers and readers, every \<open>MGET\<close> that is not refused answers one
  reply per key it names, and those for these keys are all taken from one and the same acknowledged \<open>MSET\<close>,
  each key with the value that \<open>MSET\<close> gave it, or all of them are missing.
\<close>

theorem no_partial_write_observed:
  assumes "engine_reach c hash e" and "writes_together K (outcomes e)"
    and "(rq, reply) \<in> set (outcomes e)" and "rq_operation rq = MultiGet ks"
  shows "(\<exists>msg. reply = Reply_error msg) \<or>
    (\<exists>rs w. reply = Array rs \<and> length rs = length ks \<and>
      (\<forall>kvs. w = Some kvs \<longrightarrow> K \<subseteq> fst ` set kvs \<and>
         (\<exists>rq'. (rq', Reply_ok) \<in> set (outcomes e) \<and> rq_operation rq' = MultiSet kvs)) \<and>
      (\<forall>i < length ks. ks ! i \<in> K \<longrightarrow> rs ! i = Bulk (written w (ks ! i))))"
proof -
  obtain h where h: "serial h (view c hash e)" "mset h = mset (outcomes e)" "set h = set (outcomes e)"
    using serial_outcomes [OF assms(1)] .
  have "writes_together K h" using assms(2) h(3) by (simp add: writes_together_def)
  then have "reads_one_write K h" using serial_one_write [OF h(1)] by blast
  then have "(\<exists>w. one_write K h w \<and> shows_write K w ks reply) \<or> (\<exists>msg. reply = Reply_error msg)"
    using assms(3,4) h(3) by (simp add: reads_one_write_def)
  then show ?thesis unfolding one_write_def shows_write_def h(3) by metis
qed

text \<open>Two keys on different owners are written together, with different values, and then read.\<close>

definition pair_read :: DataRequest where
  "pair_read = \<lparr>rq_client = 8, rq_operation = MultiGet [''a'', ''bb'', ''a''], rq_credit = 644\<rparr>"

definition pair_write :: DataRequest where
  "pair_write = \<lparr>rq_client = 7, rq_operation = MultiSet [(''a'', ''1''), (''bb'', ''2'')], rq_credit = 517\<rparr>"

definition pair_command :: "DataRequest \<Rightarrow> Action list" where
  "pair_command rq = [Submit rq, Hand, Coordinate 0] @ demo_exchange 0 @ demo_exchange 1 @ [Coordinate 100] @
     demo_exchange 0 @ demo_exchange 1 @ [Coordinate 0] @ demo_exchange 0 @ demo_exchange 1 @ [Coordinate 0] @
     demo_exchange 0 @ demo_exchange 1 @ [Coordinate 0]"

definition pair_schedule :: "Action list" where
  "pair_schedule = pair_command pair_write @ pair_command pair_read"

lemma pair_run: "run_schedule demo_config demo_hash pair_schedule demo_start = Some (demo_engine pair_schedule)"
  by code_simp

lemma pair_reach: "engine_reach demo_config demo_hash (demo_engine pair_schedule)"
  using run_schedule_reach [OF pair_run] reach.start [of "engine_init demo_config", OF demo_init] by blast

theorem no_partial_write_observed_witness:
  "\<exists>w. w = Some [(''a'', ''1''), (''bb'', ''2'')] \<and>
     (pair_read, Array [Bulk (written w ''a''), Bulk (written w ''bb''), Bulk (written w ''a'')])
       \<in> set (outcomes (demo_engine pair_schedule))"
proof -
  let ?h = "outcomes (demo_engine pair_schedule)" and ?r = "Array [Bulk (Some ''1''), Bulk (Some ''2''), Bulk (Some ''1'')]"
  have out: "?h = [(pair_write, Reply_ok), (pair_read, ?r)]" by code_simp
  have ops: "rq_operation pair_read = MultiGet [''a'', ''bb'', ''a'']"
    "rq_operation pair_write = MultiSet [(''a'', ''1''), (''bb'', ''2'')]"
    by (simp_all add: pair_read_def pair_write_def)
  have together: "writes_together {''a'', ''bb''} ?h" by (auto simp: out ops writes_together_def)
  have mem: "(pair_read, ?r) \<in> set ?h" by (simp add: out)
  have "\<not> (\<exists>msg. ?r = Reply_error msg)" by (simp add: Reply_error_def)
  with no_partial_write_observed [OF pair_reach _ mem ops(1), of "{''a'', ''bb''}"]
  obtain rs w where w: "?r = Array rs" "length rs = length [''a'', ''bb'', ''a'']"
    "\<forall>kvs. w = Some kvs \<longrightarrow> {''a'', ''bb''} \<subseteq> fst ` set kvs \<and>
       (\<exists>rq'. (rq', Reply_ok) \<in> set ?h \<and> rq_operation rq' = MultiSet kvs)"
    "\<forall>i < length [''a'', ''bb'', ''a'']. [''a'', ''bb'', ''a''] ! i \<in> {''a'', ''bb''} \<longrightarrow>
       rs ! i = Bulk (written w ([''a'', ''bb'', ''a''] ! i))"
    using together by blast
  have seen: "written w ''a'' = Some ''1''" "written w ''bb'' = Some ''2''"
    using w(1) spec [OF w(4), of 0] spec [OF w(4), of 1] by auto
  then obtain kvs where "w = Some kvs" by (cases w) auto
  then have "w = Some [(''a'', ''1''), (''bb'', ''2'')]" using w(3) ops by (auto simp: out Reply_ok_def)
  then show ?thesis using seen by (simp add: out)
qed

end
