(* ===== verification/Engine_Safety.thy ===== *)
theory Engine_Safety
  imports Engine_Runs
begin

section \<open>The engine never panics\<close>

text \<open>
  The \<open>assert!\<close>, \<open>expect\<close> and \<open>fatal\<close> branches of the owners and of the coordinator are unreachable, as
  long as the 64-bit revision counters do not run out.
\<close>

lemma handle_control_total:
  assumes inv: "owner_inv c hash co aw x tid i o1" and co: "coord_ok c hash co"
    and ctl: "o_controls o1 = msg # rest" and rev: "revision (o_shard o1) < u64_max"
  shows "handle_control alloc (o1\<lparr>o_controls := rest\<rparr>) msg \<noteq> None"
proof (cases "is_coord_msg msg")
  case False
  have "o_reservation o1 = None" if "msg = Stop"
    using inv ctl that by (auto simp: owner_inv_def rsv_ok_def)
  then show ?thesis using False by (cases msg) auto
next
  case True
  note aw = awaited_message [OF inv ctl True]
  note part = coord_message_part [OF aw(3)]
  have ps: "part_state co None tid (c_index co) (o_shard o1) (o_reservation o1)"
    using inv part aw(2) by (auto simp: owner_inv_def rsv_ok_def)
  have reach: "shard_reach (shard_limits c i) (o_shard o1)" using inv by (simp add: owner_inv_def owner_good_def)
  show ?thesis
  proof (cases co)
    case (Preparing rq parts k now results)
    obtain r where "prepare alloc (o_shard o1) (pt_operation (parts ! k)) now = Some r"
      using prepare_total [OF reach] part_keys(1) [OF co part(1)] Preparing by fastforce
    then show ?thesis
      using Preparing ps aw(3) by (auto simp: coord_message_def split: if_splits sum.splits)
  next
    case (Applying rq parts k reply)
    obtain p now where p: "o_reservation o1 = Some \<lparr>rv_id = tid, rv_prepared = Some p\<rparr>"
      "prepared_for (o_shard o1) (pt_operation (parts ! k)) now p"
      using ps Applying by auto
    obtain s' where "Shard_apply (o_shard o1) p = Some (p_response p, s')"
      using prepared_for_apply [OF reach p(2) rev] by blast
    then show ?thesis using Applying p(1) aw(3) by (auto simp: coord_message_def split: if_splits)
  qed (use ps aw(3) in \<open>auto simp: coord_message_def split: if_splits\<close>)
qed

lemma owner_execute_total:
  assumes "owner_good c hash i o1" and "o_data o1 = rq # rest" and "revision (o_shard o1) < u64_max"
  shows "\<exists>ev s'. execute_local alloc (o_shard o1) rq now = Some (ev, s')"
  using execute_local_total [of "shard_limits c i" "o_shard o1" rq alloc now] assms by (auto simp: owner_good_def)

lemma owner_top_total:
  assumes inv: "owner_inv c hash co aw x tid i o1" and rev: "revision (o_shard o1) < u64_max"
  shows "owner_top alloc now o1 \<noteq> None"
proof (cases "o_data o1")
  case (Cons rq rest)
  have "owner_good c hash i o1" using inv by (simp add: owner_inv_def)
  then obtain ev s' where "execute_local alloc (o_shard o1) rq now = Some (ev, s')"
    using owner_execute_total Cons rev by blast
  then show ?thesis using Cons by (simp add: owner_top_def)
qed (simp add: owner_top_def)

lemma owner_select_total:
  assumes inv: "owner_inv c hash co aw x tid i o1" and co: "coord_ok c hash co"
    and rev: "revision (o_shard o1) + batch \<le> u64_max" and batch: "0 < batch"
  shows "owner_select alloc now batch tick False data_closed o1 \<noteq> None"
proof -
  have lt: "revision (o_shard o1) < u64_max" using rev batch by simp
  have good: "owner_good c hash i o1" using inv by (simp add: owner_inv_def)
  obtain n s' where ex: "expire_due (o_shard o1) now batch = Some (n, s')"
    using expire_due_total [OF _ rev, of "shard_limits c i" now] good by (auto simp: owner_good_def)
  have ctl: "handle_control alloc (o1\<lparr>o_controls := tl (o_controls o1)\<rparr>) (hd (o_controls o1)) \<noteq> None"
    if "o_controls o1 \<noteq> []"
    using handle_control_total [OF inv co _ lt, of "hd (o_controls o1)" "tl (o_controls o1)" alloc] that by simp
  have data: "\<exists>ev s'. execute_local alloc (o_shard o1) rq now = Some (ev, s')" if "o_data o1 = rq # rest" for rq rest
    using owner_execute_total [OF good that lt] .
  show ?thesis
    using ex ctl data by (cases "o_data o1") (auto simp: owner_select_def)
qed

lemma phase_end_total:
  assumes inv: "engine_inv c hash e" and aw: "\<not> en_awaiting e"
    and k: "c_index (en_coord e) = length (c_parts (en_coord e))"
    and co: "\<forall>rq parts k response. en_coord e \<noteq> Releasing rq parts k response" "en_coord e \<noteq> Idle" "en_coord e \<noteq> Finished"
  shows "coord_phase_end n now (en_coord e) \<noteq> None"
proof (cases "en_coord e")
  case (Preparing rq parts k' now' results)
  then obtain reply where "combine (rq_operation rq) parts results = Some reply"
    using commit_ran [OF inv _ aw] k by auto
  then show ?thesis using Preparing by simp
qed (use co in auto)

lemma complete_total:
  assumes "wait_ok co aw (Some y)"
  shows "coord_complete co y \<noteq> None"
proof -
  have "phase_completion co y" and "c_index co < length (c_parts co)" using assms by (auto simp: wait_ok_def)
  then show ?thesis by (cases co) (auto simp: phase_completion_def split: sum.splits, metis not_None_eq sum.exhaust coord_complete.simps(2,3))
qed

lemma reach_valid: "engine_reach c hash e \<Longrightarrow> validate c = Inr ()"
  by (cases "validate c") (auto simp: engine_init_def with_clock_def dest: reach_init)

lemma valid_batch: "validate c = Inr () \<Longrightarrow> 0 < expiry_batch c"
  by (auto simp: validate_def split: if_splits)

text \<open>
  Claim C3. No owner thread ever panics: in every reachable state of the engine, whatever message,
  timer or command an owner takes next, none of the assertions on reservations and preparations fails
  and the shard operation it calls returns, provided the owner's 64-bit revision counter has room for
  one more expiration batch.
\<close>

theorem owners_never_panic:
  assumes "engine_reach c hash e" and "i < workers c"
    and "revision (o_shard (en_owners e ! i)) + expiry_batch c \<le> u64_max"
  shows "owner_top alloc now (en_owners e ! i) \<noteq> None \<and>
    owner_select alloc now (expiry_batch c) tick_ready False data_closed (en_owners e ! i) \<noteq> None"
proof -
  have inv: "engine_inv c hash e" using engine.reach_inv [OF assms(1)] .
  have batch: "0 < expiry_batch c" using valid_batch reach_valid [OF assms(1)] by blast
  then have "revision (o_shard (en_owners e ! i)) < u64_max" using assms(3) by simp
  then show ?thesis
    using owner_top_total [OF engine_invD(5) [OF inv assms(2)]]
      owner_select_total [OF engine_invD(5) [OF inv assms(2)] engine_invD(3) [OF inv] assms(3) batch] by blast
qed

theorem owners_never_panic_witness:
  "owner_top granting 5 (en_owners (demo_engine demo_half) ! 1) \<noteq> None \<and>
   owner_select granting 5 (expiry_batch demo_config) True False False (en_owners (demo_engine demo_half) ! 1) \<noteq> None"
proof (rule owners_never_panic [OF demo_reach(1)])
  show "1 < workers demo_config" by code_simp
  show "revision (o_shard (en_owners (demo_engine demo_half) ! 1)) + expiry_batch demo_config \<le> u64_max" by code_simp
qed

text \<open>
  Claim C4. The coordinator never hits one of its fatal branches: only commands that can be split reach
  it, every completion it receives belongs to the phase it is in, the replies of a fully prepared
  command combine, and the owner it sends a message to exists and has not stopped.
\<close>

theorem coordinator_never_fails:
  assumes "engine_reach c hash e"
  shows "(\<forall>rq. CrossExecute rq \<in> set (en_cross e) \<longrightarrow> split (rq_operation rq) hash (workers c) \<noteq> None) \<and>
    (\<forall>x. en_completion e = Some x \<longrightarrow> en_awaiting e \<and> coord_complete (en_coord e) x \<noteq> None) \<and>
    (\<not> en_awaiting e \<and> c_index (en_coord e) = length (c_parts (en_coord e)) \<and> c_request (en_coord e) \<noteq> [] \<and>
       (\<forall>rq parts k response. en_coord e \<noteq> Releasing rq parts k response) \<longrightarrow>
       coord_phase_end max_reply now (en_coord e) \<noteq> None) \<and>
    (\<forall>i msg. coord_message (en_next_id e) (en_coord e) = Some (i, msg) \<longrightarrow>
       i < workers c \<and> \<not> o_stopping (en_owners e ! i))"
proof -
  have inv: "engine_inv c hash e" using engine.reach_inv [OF assms] .
  have "coord_complete (en_coord e) x \<noteq> None" "en_awaiting e" if "en_completion e = Some x" for x
    using complete_total engine_invD(4) [OF inv] that by (auto simp: wait_ok_def)
  moreover have "coord_phase_end max_reply now (en_coord e) \<noteq> None"
    if "\<not> en_awaiting e" "c_index (en_coord e) = length (c_parts (en_coord e))" "c_request (en_coord e) \<noteq> []"
      "\<forall>rq parts k response. en_coord e \<noteq> Releasing rq parts k response"
    by (rule phase_end_total [OF inv that(1,2,4)]) (use that(3) in auto)
  moreover have "i < workers c" "\<not> o_stopping (en_owners e ! i)"
    if "coord_message (en_next_id e) (en_coord e) = Some (i, msg)" for i msg
  proof -
    note part = coord_message_part [OF that]
    show i: "i < workers c"
      using coord_ok_parts(2) [OF engine_invD(3) [OF inv] engine_invD(1) [OF inv]] part(1,2) by simp
    have "en_coord e \<noteq> Finished" using part(1) by auto
    then show "\<not> o_stopping (en_owners e ! i)" using engine_invD(5) [OF inv i] by (auto simp: owner_inv_def)
  qed
  moreover have "split (rq_operation rq) hash (workers c) \<noteq> None" if "CrossExecute rq \<in> set (en_cross e)" for rq
    using inv that by (auto simp: engine_inv_def splits_def)
  ultimately show ?thesis by blast
qed

theorem coordinator_never_fails_witness:
  "\<exists>e i msg. engine_reach demo_config demo_hash e \<and> coord_message (en_next_id e) (en_coord e) = Some (i, msg) \<and>
     i < workers demo_config \<and> \<not> o_stopping (en_owners e ! i)"
proof -
  have "coord_message (en_next_id (demo_engine demo_half)) (en_coord (demo_engine demo_half)) \<noteq> None" by code_simp
  then obtain i msg where "coord_message (en_next_id (demo_engine demo_half)) (en_coord (demo_engine demo_half)) = Some (i, msg)"
    by auto
  then show ?thesis using coordinator_never_fails [OF demo_reach(1)] demo_reach(1) by blast
qed

end
