(* ===== verification/Engine_Progress.thy ===== *)
theory Engine_Progress
  imports Engine_Accounting Engine_Safety
begin

section \<open>The engine never deadlocks and never runs in circles\<close>

text \<open>
  Steps of the engine are of two kinds. External steps come from outside: a command is submitted, a
  timer is due (the expiration timer of an owner, the admission deadline of a client), statistics are
  asked for, or the shutdown begins. Internal steps work off what is there. Every internal step lowers a rank, and a state
  with no internal step left has nothing to do: no queue holds a command and, once the shutdown has
  begun, the coordinator has finished and every owner leaves its loop.
\<close>

subsection \<open>Internal and external steps\<close>

inductive internal_step :: "Config \<Rightarrow> hasher \<Rightarrow> Engine \<Rightarrow> Engine \<Rightarrow> bool" for c hash where
  send: "en_sending e = before @ (rq, target) # after \<Longrightarrow> \<not> target_closed target e \<Longrightarrow> \<not> target_full c target e \<Longrightarrow>
    internal_step c hash e (enqueue target rq (e\<lparr>en_sending := before @ after\<rparr>))"
| send_closed: "en_sending e = before @ (rq, target) # after \<Longrightarrow> target_closed target e \<Longrightarrow>
    internal_step c hash e (answer rq (Reply_error ''BUSY Recall is shutting down'')
      (give_back target (rq_credit rq) (e\<lparr>en_sending := before @ after\<rparr>)))"
| top: "i < workers c \<Longrightarrow> en_top e ! i \<Longrightarrow> owner_top alloc now (en_owners e ! i) = Some (evs, o1) \<Longrightarrow>
    internal_step c hash e (deliver i evs (set_owner i o1 (e\<lparr>en_top := (en_top e)[i := False]\<rparr>)))"
| select: "i < workers c \<Longrightarrow> \<not> en_top e ! i \<Longrightarrow>
    owner_select alloc now (expiry_batch c) False False False (en_owners e ! i) = Some (Continue evs o1) \<Longrightarrow>
    internal_step c hash e (deliver i evs (set_owner i o1 (e\<lparr>en_top := (en_top e)[i := True]\<rparr>)))"
| coord_take: "en_coord e = Idle \<Longrightarrow> en_cross e = CrossExecute rq # rest \<Longrightarrow>
    u64_checked_add (en_next_id e) 1 = Some tid \<Longrightarrow> split (rq_operation rq) hash (workers c) = Some parts \<Longrightarrow>
    internal_step c hash e (e\<lparr>en_coord := Reserving rq parts 0, en_next_id := tid, en_cross := rest\<rparr>)"
| coord_stop: "en_coord e = Idle \<Longrightarrow> en_cross e = CrossStop # rest \<Longrightarrow>
    internal_step c hash e (e\<lparr>en_cross_closed := True, en_cross := rest\<rparr>)"
| coord_finish: "en_coord e = Idle \<Longrightarrow> en_cross e = [] \<Longrightarrow> en_cross_closed e \<Longrightarrow>
    internal_step c hash e (e\<lparr>en_coord := Finished\<rparr>)"
| coord_send: "\<not> en_awaiting e \<Longrightarrow> coord_message (en_next_id e) (en_coord e) = Some (i, msg) \<Longrightarrow>
    length (o_controls (en_owners e ! i)) < control_capacity \<Longrightarrow>
    internal_step c hash e ((push_control i msg e)\<lparr>en_awaiting := True\<rparr>)"
| coord_receive: "en_awaiting e \<Longrightarrow> en_completion e = Some x \<Longrightarrow> coord_complete (en_coord e) x = Some c' \<Longrightarrow>
    internal_step c hash e (e\<lparr>en_coord := c', en_awaiting := False, en_completion := None\<rparr>)"
| coord_phase: "\<not> en_awaiting e \<Longrightarrow> c_index (en_coord e) = length (c_parts (en_coord e)) \<Longrightarrow>
    coord_phase_end (cfg_max_reply_bytes c) now (en_coord e) = Some c' \<Longrightarrow>
    internal_step c hash e (e\<lparr>en_coord := c'\<rparr>)"
| coord_answer: "\<not> en_awaiting e \<Longrightarrow> en_coord e = Releasing rq parts (length parts) response \<Longrightarrow>
    internal_step c hash e (answer rq response (give_back None (rq_credit rq) (e\<lparr>en_coord := Idle\<rparr>)))"
| shutdown_cross: "en_closing e \<Longrightarrow> \<not> en_stop_sent e \<Longrightarrow> length (en_cross e) < queue_capacity c \<Longrightarrow>
    internal_step c hash e (e\<lparr>en_cross := en_cross e @ [CrossStop], en_stop_sent := True\<rparr>)"
| shutdown_owner: "en_coord e = Finished \<Longrightarrow> en_stopped e = i \<Longrightarrow> i < workers c \<Longrightarrow>
    length (o_controls (en_owners e ! i)) < control_capacity \<Longrightarrow>
    internal_step c hash e ((push_control i Stop e)\<lparr>en_stopped := i + 1\<rparr>)"

inductive external_step :: "Config \<Rightarrow> hasher \<Rightarrow> Engine \<Rightarrow> Engine \<Rightarrow> bool" for c hash where
  submits: "submission c hash rq e e' \<Longrightarrow> external_step c hash e e'"
| send_timeout: "en_sending e = before @ (rq, target) # after \<Longrightarrow>
    external_step c hash e (answer rq (Reply_error ''BUSY admission queue deadline exceeded'')
      (give_back target (rq_credit rq) (e\<lparr>en_sending := before @ after\<rparr>)))"
| tick: "i < workers c \<Longrightarrow> \<not> en_top e ! i \<Longrightarrow>
    owner_select alloc now (expiry_batch c) True False False (en_owners e ! i) = Some (Continue evs o1) \<Longrightarrow>
    external_step c hash e (deliver i evs (set_owner i o1 (e\<lparr>en_top := (en_top e)[i := True]\<rparr>)))"
| stats: "i < workers c \<Longrightarrow> length (o_controls (en_owners e ! i)) < control_capacity \<Longrightarrow>
    external_step c hash e (push_control i (Stats client) e)"
| shutdown: "external_step c hash e (e\<lparr>en_closing := True\<rparr>)"

lemma internal_step_engine: "internal_step c hash e e' \<Longrightarrow> engine_step c hash e e'"
  by (induction rule: internal_step.induct) (blast intro: engine_step.intros)+

lemma external_step_engine: "external_step c hash e e' \<Longrightarrow> engine_step c hash e e'"
  by (induction rule: external_step.induct) (blast intro: engine_step.intros submission_step)+

lemma engine_step_kinds: "engine_step c hash e e' \<longleftrightarrow> internal_step c hash e e' \<or> external_step c hash e e'"
proof
  assume "engine_step c hash e e'"
  then show "internal_step c hash e e' \<or> external_step c hash e e'"
  proof cases
    case (select i alloc now tick_ready evs o1)
    then show ?thesis by (cases tick_ready) (auto intro: internal_step.select external_step.tick)
  qed (blast intro: internal_step.intros external_step.intros submission.intros)+
qed (blast intro: internal_step_engine external_step_engine)

subsection \<open>The coordinator makes progress\<close>

text \<open>
  What is left to do for the command the coordinator works on: the messages of the phases to come, and
  the control messages that stand before the coordinator's own.
\<close>

fun units :: "Coordinator \<Rightarrow> nat" where
  "units (Reserving rq parts k) = (length parts - k + 1) + 3 * (length parts + 1)"
| "units (Preparing rq parts k now results) = (length parts - k + 1) + 2 * (length parts + 1)"
| "units (Applying rq parts k reply) = (length parts - k + 1) + (length parts + 1)"
| "units (Releasing rq parts k response) = length parts - k + 1"
| "units _ = 0"

definition load :: "Engine \<Rightarrow> nat \<Rightarrow> nat" where
  "load e i = 2 * length (o_controls (en_owners e ! i)) + (if en_top e ! i then 1 else 0)"

definition work_left :: "Config \<Rightarrow> Engine \<Rightarrow> nat" where
  "work_left c e = 4 * units (en_coord e) + (if en_awaiting e then 0 else 3) + (\<Sum>i < workers c. load e i)"

lemma sum_load_change:
  fixes n :: nat
  assumes "i < n" and "\<And>j. j < n \<Longrightarrow> j \<noteq> i \<Longrightarrow> f' j = f j"
  shows "(\<Sum>j < n. f' j) + f i = (\<Sum>j < n. f j) + (f' i :: nat)"
proof -
  have "(\<Sum>j < n. f j) = f i + (\<Sum>j \<in> {..<n} - {i}. f j)" "(\<Sum>j < n. f' j) = f' i + (\<Sum>j \<in> {..<n} - {i}. f' j)"
    using assms(1) sum.remove [of "{..<n}" i f] sum.remove [of "{..<n}" i f'] by simp_all
  moreover have "(\<Sum>j \<in> {..<n} - {i}. f' j) = (\<Sum>j \<in> {..<n} - {i}. f j)"
    using assms(2) by (intro sum.cong) auto
  ultimately show ?thesis by simp
qed

lemma complete_units:
  assumes "coord_complete co y = Some co'" and "c_index co < length (c_parts co)"
  shows "units co' < units co"
  using assms by (induction co y rule: coord_complete.induct) auto

lemma phase_units: "coord_phase_end n now co = Some co' \<Longrightarrow> units co' < units co"
  by (cases co) (auto split: Option.bind_splits if_splits)

text \<open>A turn of an owner, with the timer not due, changes its shard at most once.\<close>

lemma apply_effect_revision: "apply_effect k x s = Some s' \<Longrightarrow> revision s' = revision s"
  by (auto simp: apply_effect_def split: option.splits Option.bind_splits)

lemma apply_effects_revision: "apply_effects eff s = Some s' \<Longrightarrow> revision s' = revision s"
  by (induction eff s rule: apply_effects.induct) (auto simp: apply_effect_revision split: Option.bind_splits)

lemma Shard_apply_revision: "Shard_apply s p = Some (r, s') \<Longrightarrow> revision s' = Suc (revision s)"
  by (auto simp: Shard_apply_def u64_checked_add_def apply_effects_revision split: if_splits Option.bind_splits)

lemma execute_local_revision: "execute_local alloc s rq now = Some (ev, s') \<Longrightarrow> revision s' \<le> Suc (revision s)"
  by (auto simp: execute_local_def execute_def Shard_apply_revision split: Option.bind_splits sum.splits)

lemma handle_control_revision:
  "handle_control alloc o1 msg = Some (evs, o2) \<Longrightarrow>
   revision (o_shard o2) \<le> Suc (revision (o_shard o1)) \<and> o_controls o2 = o_controls o1"
  by (cases msg) (auto simp: Shard_apply_revision split: if_splits Option.bind_splits sum.splits)

lemma owner_top_revision:
  assumes "owner_top alloc now o1 = Some (evs, o2)"
  shows "revision (o_shard o2) \<le> Suc (revision (o_shard o1)) \<and> o_controls o2 = o_controls o1"
  using assms by (cases rule: owner_top_cases) (auto simp: execute_local_revision)

definition advanced :: "Config \<Rightarrow> hasher \<Rightarrow> Engine \<Rightarrow> Engine \<Rightarrow> bool" where
  "advanced c hash e e' \<longleftrightarrow> internal_step c hash e e' \<and> work_left c e' < work_left c e \<and>
     (\<forall>i < workers c. revision (o_shard (en_owners e' ! i)) \<le> Suc (revision (o_shard (en_owners e ! i)))) \<and>
     set (en_answered e) \<subseteq> set (en_answered e') \<and>
     (c_request (en_coord e') = c_request (en_coord e) \<or>
      c_request (en_coord e') = [] \<and> (\<forall>rq \<in> set (c_request (en_coord e)). \<exists>reply. (rq, reply) \<in> set (en_answered e')))"

lemma turn_advances:
  assumes inv: "engine_inv c hash e" and i: "i < workers c"
    and step: "internal_step c hash e (deliver i evs (set_owner i o2 (e\<lparr>en_top := (en_top e)[i := b]\<rparr>)))"
    and rev: "revision (o_shard o2) \<le> Suc (revision (o_shard (en_owners e ! i)))"
    and load: "2 * length (o_controls o2) + (if b then 1 else 0) < load e i"
  shows "advanced c hash e (deliver i evs (set_owner i o2 (e\<lparr>en_top := (en_top e)[i := b]\<rparr>)))" (is "advanced c hash e ?e'")
proof -
  have len: "length (en_owners e) = workers c" "length (en_top e) = workers c" using inv by (simp_all add: engine_inv_def)
  have "load ?e' j = load e j" if "j \<noteq> i" for j using that by (simp add: load_def)
  moreover have "load ?e' i < load e i" using load len i by (simp add: load_def)
  ultimately have "(\<Sum>j < workers c. load ?e' j) < (\<Sum>j < workers c. load e j)"
    using sum_load_change [OF i, of "load ?e'" "load e"] by simp
  then have "work_left c ?e' < work_left c e" by (simp add: work_left_def)
  then show ?thesis using step rev i len by (auto simp: advanced_def nth_list_update)
qed

lemma owner_advances:
  assumes inv: "engine_inv c hash e" and i: "i < workers c" and ctl: "o_controls (en_owners e ! i) \<noteq> []"
    and busy: "c_request (en_coord e) \<noteq> []" and rev: "revision (o_shard (en_owners e ! i)) < u64_max"
  shows "\<exists>e'. advanced c hash e e'"
proof (cases "en_top e ! i")
  case True
  obtain evs o2 where top: "owner_top granting 0 (en_owners e ! i) = Some (evs, o2)"
    using owner_top_total [OF engine_invD(5) [OF inv i] rev] by fastforce
  show ?thesis
    using turn_advances [OF inv i internal_step.top [OF i True top]] owner_top_revision [OF top] True
    by (auto simp: load_def)
next
  case False
  obtain msg rest where mr: "o_controls (en_owners e ! i) = msg # rest" using ctl by (cases "o_controls (en_owners e ! i)") auto
  obtain evs o2 where h: "handle_control granting ((en_owners e ! i)\<lparr>o_controls := rest\<rparr>) msg = Some (evs, o2)"
    using handle_control_total [OF engine_invD(5) [OF inv i] engine_invD(3) [OF inv] mr rev] by fastforce
  have "\<not> o_stopping (en_owners e ! i)"
    using engine_invD(5) [OF inv i] busy by (auto simp: owner_inv_def)
  then have "owner_select granting 0 (expiry_batch c) False False False (en_owners e ! i) = Some (Continue evs o2)"
    using mr h by (simp add: owner_select_def)
  from turn_advances [OF inv i internal_step.select [OF i False this]] handle_control_revision [OF h] mr
  show ?thesis by (auto simp: load_def)
qed

lemma coordinator_advances:
  assumes "internal_step c hash e e'" and "en_owners e' = en_owners e" and "en_top e' = en_top e"
    and "4 * units (en_coord e') + (if en_awaiting e' then 0 else 3) < 4 * units (en_coord e) + (if en_awaiting e then 0 else 3)"
    and "set (en_answered e) \<subseteq> set (en_answered e')"
    and "c_request (en_coord e') = c_request (en_coord e) \<or>
      c_request (en_coord e') = [] \<and> (\<forall>rq \<in> set (c_request (en_coord e)). \<exists>reply. (rq, reply) \<in> set (en_answered e'))"
  shows "advanced c hash e e'"
  using assms by (simp add: advanced_def work_left_def load_def)

lemma coordinator_progress:
  assumes inv: "engine_inv c hash e" and busy: "c_request (en_coord e) \<noteq> []"
    and rev: "\<And>i. i < workers c \<Longrightarrow> revision (o_shard (en_owners e ! i)) < u64_max"
  shows "\<exists>e'. advanced c hash e e'"
proof (cases "c_index (en_coord e) < length (c_parts (en_coord e))")
  case True
  obtain i msg where msg: "coord_message (en_next_id e) (en_coord e) = Some (i, msg)"
    using coord_message_Some [OF True] by blast
  have i: "i < workers c"
    using coord_ok_parts(2) [OF engine_invD(3) [OF inv] engine_invD(1) [OF inv]] coord_message_part(1,2) [OF msg] by simp
  have len: "length (en_owners e) = workers c" using engine_invD(2) [OF inv] .
  consider (receive) x where "en_awaiting e" "en_completion e = Some x"
    | (wait) "en_awaiting e" "en_completion e = None"
    | (full) "\<not> en_awaiting e" "control_capacity \<le> length (o_controls (en_owners e ! i))"
    | (send) "\<not> en_awaiting e" "length (o_controls (en_owners e ! i)) < control_capacity"
    by fastforce
  then show ?thesis
  proof cases
    case receive
    obtain co' where co': "coord_complete (en_coord e) x = Some co'"
      using complete_total engine_invD(4) [OF inv] receive by fastforce
    have "4 * units co' + 3 < 4 * units (en_coord e)" using complete_units [OF co' True] by simp
    then show ?thesis
      using coordinator_advances [OF internal_step.coord_receive [OF receive co']] receive complete_fields(2) [OF co'] by auto
  next
    case wait
    have "filter is_coord_msg (o_controls (en_owners e ! i)) = [msg]"
      using engine_invD(5) [OF inv i] wait msg by (simp add: owner_inv_def in_flight_def)
    then have "o_controls (en_owners e ! i) \<noteq> []" by auto
    then show ?thesis using owner_advances [OF inv i _ busy rev [OF i]] by blast
  next
    case full
    then have "o_controls (en_owners e ! i) \<noteq> []" by (auto simp: control_capacity_def)
    then show ?thesis using owner_advances [OF inv i _ busy rev [OF i]] by blast
  next
    case send
    let ?e' = "(push_control i msg e)\<lparr>en_awaiting := True\<rparr>"
    have loads: "load ?e' i = load e i + 2" "\<And>j. j \<noteq> i \<Longrightarrow> load ?e' j = load e j"
      using i len by (simp_all add: load_def push_control_def)
    have "(\<Sum>j < workers c. load ?e' j) = (\<Sum>j < workers c. load e j) + 2"
      using sum_load_change [OF i, of "load ?e'" "load e"] loads by simp
    then have "work_left c ?e' < work_left c e" using send(1) by (simp add: work_left_def push_control_def)
    moreover have "o_shard (en_owners ?e' ! j) = o_shard (en_owners e ! j)" for j
      by (simp add: push_control_def nth_list_update_if)
    ultimately have "advanced c hash e ?e'"
      using internal_step.coord_send [OF send(1) msg send(2)] by (simp add: advanced_def push_control_def)
    then show ?thesis by blast
  qed
next
  case False
  have k: "c_index (en_coord e) = length (c_parts (en_coord e))"
    using False engine_invD(3) [OF inv] by (simp add: coord_ok_def)
  have aw: "\<not> en_awaiting e" using False engine_invD(4) [OF inv] by (auto simp: wait_ok_def)
  show ?thesis
  proof (cases "\<exists>rq parts response. en_coord e = Releasing rq parts (length parts) response")
    case True
    then obtain rq parts response where co: "en_coord e = Releasing rq parts (length parts) response" by blast
    have "advanced c hash e (answer rq response (give_back None (rq_credit rq) (e\<lparr>en_coord := Idle\<rparr>)))"
      by (rule coordinator_advances [OF internal_step.coord_answer [OF aw co]]) (use aw co in auto)
    then show ?thesis by blast
  next
    case False
    then have "\<forall>rq parts k response. en_coord e \<noteq> Releasing rq parts k response" using k by (metis c_index.simps(4) c_parts.simps(4))
    then obtain co' where co': "coord_phase_end (cfg_max_reply_bytes c) 0 (en_coord e) = Some co'"
      using phase_end_total [OF inv aw k] busy by fastforce
    have "advanced c hash e (e\<lparr>en_coord := co'\<rparr>)"
      by (rule coordinator_advances [OF internal_step.coord_phase [OF aw k co']])
        (use phase_units [OF co'] phase_fields(2) [OF co'] in auto)
    then show ?thesis by blast
  qed
qed

lemma coordinator_finishes:
  assumes "engine_inv c hash e" and "c_request (en_coord e) = [rq]"
    and "\<And>i. i < workers c \<Longrightarrow> revision (o_shard (en_owners e ! i)) + work_left c e \<le> u64_max"
  shows "\<exists>e' reply. (engine_step c hash)\<^sup>*\<^sup>* e e' \<and> (rq, reply) \<in> set (en_answered e') \<and> c_request (en_coord e') = []"
  using assms
proof (induction "work_left c e" arbitrary: e rule: less_induct)
  case less
  have "0 < units (en_coord e)" using less.prems(2) by (cases "en_coord e") auto
  then have "0 < work_left c e" by (simp add: work_left_def)
  then have "revision (o_shard (en_owners e ! i)) < u64_max" if "i < workers c" for i
    using less.prems(3) [OF that] by simp
  then obtain e1 where adv: "advanced c hash e e1"
    using coordinator_progress [OF less.prems(1)] less.prems(2) by auto
  then have step: "engine_step c hash e e1" and lt: "work_left c e1 < work_left c e"
    and rev: "\<And>i. i < workers c \<Longrightarrow> revision (o_shard (en_owners e1 ! i)) \<le> Suc (revision (o_shard (en_owners e ! i)))"
    and cont: "c_request (en_coord e1) = [rq] \<or> c_request (en_coord e1) = [] \<and> (\<exists>reply. (rq, reply) \<in> set (en_answered e1))"
    using less.prems(2) internal_step_engine by (auto simp: advanced_def)
  show ?case
  proof (cases "c_request (en_coord e1) = [rq]")
    case True
    have "revision (o_shard (en_owners e1 ! i)) + work_left c e1 \<le> u64_max" if "i < workers c" for i
      using rev [OF that] lt less.prems(3) [OF that] by linarith
    then obtain e' reply where "(engine_step c hash)\<^sup>*\<^sup>* e1 e'" "(rq, reply) \<in> set (en_answered e')" "c_request (en_coord e') = []"
      using less.hyps [OF lt engine_inv_step [OF step less.prems(1)] True] by blast
    then show ?thesis using step by (meson converse_rtranclp_into_rtranclp)
  next
    case False
    then show ?thesis using cont step by blast
  qed
qed

text \<open>
  The coordinator cannot deadlock: from every reachable state in which it works on a command,
  steps of the coordinator and of the owners involved lead to the reply of that command and to an
  idle coordinator, however many other messages stand in the control queues, provided the revision
  counters have room for the bounded amount of work that is left.
\<close>

theorem coordinated_command_answered:
  assumes "engine_reach c hash e" and "c_request (en_coord e) = [rq]"
    and "\<forall>i < workers c. revision (o_shard (en_owners e ! i)) + work_left c e \<le> u64_max"
  shows "\<exists>e' reply. (engine_step c hash)\<^sup>*\<^sup>* e e' \<and> (rq, reply) \<in> set (en_answered e') \<and> c_request (en_coord e') = []"
  using coordinator_finishes [OF engine.reach_inv [OF assms(1)] assms(2)] assms(3) by blast

theorem coordinated_command_answered_witness:
  "\<exists>e' reply. (engine_step demo_config demo_hash)\<^sup>*\<^sup>* (demo_engine demo_half) e' \<and>
     (demo_request, reply) \<in> set (en_answered e') \<and> c_request (en_coord e') = []"
proof (rule coordinated_command_answered [OF demo_reach(1)])
  show "c_request (en_coord (demo_engine demo_half)) = [demo_request]" by code_simp
  have "list_all (\<lambda>i. revision (o_shard (en_owners (demo_engine demo_half) ! i)) + work_left demo_config (demo_engine demo_half) \<le> u64_max)
      [0..<workers demo_config]"
    by code_simp
  then show "\<forall>i < workers demo_config. revision (o_shard (en_owners (demo_engine demo_half) ! i)) +
      work_left demo_config (demo_engine demo_half) \<le> u64_max"
    by (simp add: list_all_iff)
qed

end
