(* ===== verification/Engine_Drain.thy ===== *)
theory Engine_Drain
  imports Engine_Progress
begin

section \<open>The engine drains its queues and shuts down\<close>

text \<open>
  The rank of a state of the engine, the bound it gives on the work any run can do, and what a state
  looks like in which all work is done.
\<close>

subsection \<open>The rank\<close>

fun executes :: "CrossRequest list \<Rightarrow> nat" where
  "executes [] = 0"
| "executes (CrossExecute rq # rest) = Suc (executes rest)"
| "executes (CrossStop # rest) = executes rest"

text \<open>One command over several owners takes four phases of at most one message per worker.\<close>

definition cross_cost :: "Config \<Rightarrow> nat" where
  "cross_cost c = 16 * (workers c + 1)"

definition burden :: "Engine \<Rightarrow> nat \<Rightarrow> nat" where
  "burden e i = 2 * (length (o_controls (en_owners e ! i)) + length (o_data (en_owners e ! i))) +
     (if en_top e ! i then 1 else 0)"

definition coord_cost :: "Coordinator \<Rightarrow> bool \<Rightarrow> nat" where
  "coord_cost co aw = 4 * units co + (if aw then 0 else 3) + (if co = Finished then 0 else 1)"

definition queue_cost :: "Config \<Rightarrow> Engine \<Rightarrow> nat" where
  "queue_cost c e = (cross_cost c + 2) * length (en_sending e) + cross_cost c * executes (en_cross e) + length (en_cross e)"

definition stop_cost :: "Config \<Rightarrow> Engine \<Rightarrow> nat" where
  "stop_cost c e = (if en_stop_sent e then 0 else 2) + 3 * (workers c - en_stopped e)"

definition rank :: "Config \<Rightarrow> Engine \<Rightarrow> nat" where
  "rank c e = coord_cost (en_coord e) (en_awaiting e) + queue_cost c e + stop_cost c e + (\<Sum>i < workers c. burden e i)"

lemma executes_append [simp]: "executes (xs @ ys) = executes xs + executes ys"
  by (induction xs rule: executes.induct) simp_all

lemma executes_le: "executes xs \<le> length xs"
  by (induction xs rule: executes.induct) simp_all

lemma parts_le_workers:
  assumes "coord_ok c hash co" and "0 < workers c"
  shows "length (c_parts co) \<le> workers c"
proof -
  have "set (map pt_owner (c_parts co)) \<subseteq> {..<workers c}" using coord_ok_parts(2) [OF assms] by auto
  then have "card (set (map pt_owner (c_parts co))) \<le> card {..<workers c}" by (rule card_mono [OF finite_lessThan])
  then have "length (map pt_owner (c_parts co)) \<le> workers c"
    unfolding distinct_card [OF coord_ok_parts(1) [OF assms]] by simp
  then show ?thesis by simp
qed

subsection \<open>What a step does to the rank\<close>

lemma burden_change:
  assumes i: "i < workers c" and others: "\<And>j. j < workers c \<Longrightarrow> j \<noteq> i \<Longrightarrow> burden e' j = burden e j"
  shows "(\<Sum>j < workers c. burden e' j) + burden e i = (\<Sum>j < workers c. burden e j) + burden e' i"
  by (rule sum_load_change [OF i others])

lemma rank_owner:
  assumes "i < workers c" and "\<And>j. j < workers c \<Longrightarrow> j \<noteq> i \<Longrightarrow> burden e' j = burden e j"
    and "en_coord e' = en_coord e" and "en_awaiting e' = en_awaiting e" and "queue_cost c e' = queue_cost c e"
    and "stop_cost c e' = stop_cost c e"
  shows "rank c e' + burden e i = rank c e + burden e' i"
  using burden_change [OF assms(1,2)] assms(3-6) by (simp add: rank_def)

lemma rank_turn:
  assumes inv: "engine_inv c hash e" and i: "i < workers c"
  shows "rank c (deliver i evs (set_owner i o2 (e\<lparr>en_top := (en_top e)[i := b]\<rparr>))) + burden e i =
    rank c e + (2 * (length (o_controls o2) + length (o_data o2)) + (if b then 1 else 0))" (is "rank c ?e' + _ = _")
proof -
  have len: "length (en_owners e) = workers c" "length (en_top e) = workers c" using inv by (simp_all add: engine_inv_def)
  have "rank c ?e' + burden e i = rank c e + burden ?e' i"
    by (rule rank_owner [OF i]) (simp_all add: burden_def queue_cost_def stop_cost_def)
  then show ?thesis using len i by (simp add: burden_def)
qed

lemma rank_push:
  assumes inv: "engine_inv c hash e" and i: "i < workers c"
  shows "(\<Sum>j < workers c. burden (push_control i msg e) j) = (\<Sum>j < workers c. burden e j) + 2"
proof -
  have "length (en_owners e) = workers c" using engine_invD(2) [OF inv] .
  then show ?thesis
    using burden_change [OF i, of "push_control i msg e" e] i by (simp add: burden_def push_control_def)
qed

lemma turn_queues_data: "turn_queues o1 evs o2 \<Longrightarrow> length (o_data o2) \<le> length (o_data o1)"
  by (simp add: turn_queues_def)

lemma owner_top_burden:
  assumes "owner_top alloc now o1 = Some (evs, o2)"
  shows "o_controls o2 = o_controls o1" and "length (o_data o2) \<le> length (o_data o1)"
  using owner_top_revision [OF assms] turn_queues_data [OF owner_top_queues [OF assms]] by simp_all

lemma owner_select_burden:
  assumes "owner_select alloc now batch tick False False o1 = Some (Continue evs o2)"
  shows "length (o_controls o2) + length (o_data o2) \<le> length (o_controls o1) + length (o_data o1)"
    and "\<not> tick \<Longrightarrow> length (o_controls o2) + length (o_data o2) < length (o_controls o1) + length (o_data o1)"
proof -
  show "length (o_controls o2) + length (o_data o2) \<le> length (o_controls o1) + length (o_data o1)"
    using owner_select_queues [OF assms] by (simp add: turn_queues_def)
  show "length (o_controls o2) + length (o_data o2) < length (o_controls o1) + length (o_data o1)" if "\<not> tick"
    using assms that
    by (auto simp: owner_select_def neq_Nil_conv dest!: handle_control_queues split: if_splits Option.bind_splits list.splits)
qed

lemma rank_send:
  assumes inv: "engine_inv c hash e" and s: "en_sending e = before @ (rq, target) # after"
  shows "rank c (enqueue target rq (e\<lparr>en_sending := before @ after\<rparr>)) < rank c e" (is "rank c ?e' < _")
proof (cases target)
  case None
  then show ?thesis
    using s by (simp add: enqueue_def rank_def queue_cost_def stop_cost_def burden_def)
next
  case (Some i)
  have i: "i < workers c" using sending_target [OF inv s] Some by (simp add: valid_target_def)
  have "(\<Sum>j < workers c. burden ?e' j) + burden e i = (\<Sum>j < workers c. burden e j) + burden ?e' i"
    by (rule burden_change [OF i]) (simp add: Some enqueue_def burden_def)
  moreover have "burden ?e' i = burden e i + 2"
    using Some i engine_invD(2) [OF inv] by (simp add: enqueue_def burden_def)
  ultimately show ?thesis
    using s Some by (simp add: enqueue_def rank_def queue_cost_def stop_cost_def cross_cost_def)
qed

lemma rank_drop:
  assumes "en_sending e = before @ (rq, target) # after"
  shows "rank c (answer rq reply (give_back target n (e\<lparr>en_sending := before @ after\<rparr>))) < rank c e"
  using assms by (simp add: rank_def queue_cost_def stop_cost_def burden_def)

lemma rank_coord:
  assumes "coord_cost co aw < coord_cost (en_coord e) (en_awaiting e)"
  shows "rank c (e\<lparr>en_coord := co, en_awaiting := aw, en_completion := x\<rparr>) < rank c e"
  using assms by (simp add: rank_def queue_cost_def stop_cost_def burden_def)

lemma not_waiting:
  assumes "engine_inv c hash e" and "c_parts (en_coord e) = []"
  shows "\<not> en_awaiting e" and "en_completion e = None"
  using engine_invD(4) [OF assms(1)] assms(2) by (auto simp: wait_ok_def)

lemma rank_take:
  assumes inv: "engine_inv c hash e" and co: "en_coord e = Idle" and q: "en_cross e = CrossExecute rq # rest"
    and split: "split (rq_operation rq) hash (workers c) = Some parts"
  shows "rank c (e\<lparr>en_coord := Reserving rq parts 0, en_next_id := tid, en_cross := rest\<rparr>) < rank c e"
proof -
  have "coord_ok c hash (Reserving rq parts 0)"
    using inv q split by (auto simp: engine_inv_def coord_ok_def splits_def)
  then have "length parts \<le> workers c" using parts_le_workers engine_invD(1) [OF inv] by fastforce
  then show ?thesis
    using not_waiting [OF inv] co q by (simp add: rank_def coord_cost_def queue_cost_def stop_cost_def burden_def cross_cost_def)
qed

lemma internal_rank:
  assumes inv: "engine_inv c hash e" and step: "internal_step c hash e e'"
  shows "rank c e' < rank c e"
  using step
proof cases
  case (send before rq target "after")
  then show ?thesis using rank_send [OF inv send(2)] by simp
next
  case (send_closed before rq target "after")
  then show ?thesis using rank_drop [OF send_closed(2)] by simp
next
  case (top i alloc now evs o1)
  then show ?thesis
    using rank_turn [OF inv top(2), of evs o1 False] owner_top_burden [OF top(4)] by (simp add: burden_def)
next
  case (select i alloc now evs o1)
  then show ?thesis
    using rank_turn [OF inv select(2), of evs o1 True] owner_select_burden(2) [OF select(4)] by (simp add: burden_def)
next
  case (coord_take rq rest tid parts)
  then show ?thesis using rank_take [OF inv] by simp
next
  case (coord_stop rest)
  then show ?thesis by (simp add: rank_def queue_cost_def stop_cost_def burden_def)
next
  case coord_finish
  then show ?thesis by (simp add: rank_def queue_cost_def stop_cost_def burden_def coord_cost_def)
next
  case (coord_send i msg)
  have i: "i < workers c"
    using coord_ok_parts(2) [OF engine_invD(3) [OF inv] engine_invD(1) [OF inv]] coord_message_part(1,2) [OF coord_send(3)] by simp
  have "burden e' j = burden (push_control i msg e) j" for j using coord_send(1) by (simp add: burden_def)
  then show ?thesis
    using coord_send(1,2) rank_push [OF inv i, of msg] by (simp add: rank_def coord_cost_def queue_cost_def stop_cost_def)
next
  case (coord_receive x c')
  have "c_index (en_coord e) < length (c_parts (en_coord e))" using engine_invD(4) [OF inv] coord_receive(2) by (simp add: wait_ok_def)
  then have "units c' < units (en_coord e)" using complete_units [OF coord_receive(4)] by simp
  then have "coord_cost c' False < coord_cost (en_coord e) (en_awaiting e)" using coord_receive(2) by (auto simp: coord_cost_def)
  then show ?thesis using rank_coord coord_receive(1) by simp
next
  case (coord_phase now c')
  then have "units c' < units (en_coord e)" using phase_units by blast
  then show ?thesis
    using coord_phase(1,2) by (auto simp: coord_cost_def rank_def queue_cost_def stop_cost_def burden_def)
next
  case (coord_answer rq parts response)
  then show ?thesis by (simp add: coord_cost_def rank_def queue_cost_def stop_cost_def burden_def)
next
  case shutdown_cross
  then show ?thesis by (simp add: rank_def queue_cost_def stop_cost_def burden_def)
next
  case (shutdown_owner i)
  have "burden e' j = burden (push_control i Stop e) j" for j using shutdown_owner(1) by (simp add: burden_def)
  then show ?thesis
    using shutdown_owner rank_push [OF inv shutdown_owner(4), of Stop] by (simp add: rank_def queue_cost_def stop_cost_def)
qed

lemma external_rank:
  assumes inv: "engine_inv c hash e" and step: "external_step c hash e e'"
  shows "rank c e' \<le> rank c e + (cross_cost c + 2)"
  using step
proof cases
  case (submits rq)
  then show ?thesis by cases (simp_all add: rank_def queue_cost_def stop_cost_def burden_def)
next
  case (send_timeout before rq target "after")
  have "rank c e' < rank c e" unfolding send_timeout(1) by (rule rank_drop [OF send_timeout(2)])
  then show ?thesis by simp
next
  case (tick i alloc now evs o1)
  then show ?thesis
    using rank_turn [OF inv tick(2), of evs o1 True] owner_select_burden(1) [OF tick(4)] by (simp add: burden_def)
next
  case (stats i client)
  then show ?thesis using rank_push [OF inv stats(2), of "Stats client"] by (simp add: rank_def queue_cost_def stop_cost_def)
next
  case shutdown
  then show ?thesis by (simp add: rank_def queue_cost_def stop_cost_def burden_def)
qed

subsection \<open>A bound on the work of any run\<close>

text \<open>A run from \<open>e0\<close> to \<open>e\<close> with so many internal and so many external steps.\<close>

inductive work_run :: "Config \<Rightarrow> hasher \<Rightarrow> Engine \<Rightarrow> nat \<Rightarrow> nat \<Rightarrow> Engine \<Rightarrow> bool" for c hash e0 where
  begins: "work_run c hash e0 0 0 e0"
| internal: "work_run c hash e0 n m e \<Longrightarrow> internal_step c hash e e' \<Longrightarrow> work_run c hash e0 (Suc n) m e'"
| external: "work_run c hash e0 n m e \<Longrightarrow> external_step c hash e e' \<Longrightarrow> work_run c hash e0 n (Suc m) e'"

lemma work_run_rank:
  assumes "work_run c hash e0 n m e" and "engine_inv c hash e0"
  shows "engine_inv c hash e \<and> n + rank c e \<le> rank c e0 + (cross_cost c + 2) * m"
  using assms
proof (induction rule: work_run.induct)
  case (internal n m e e')
  then show ?case using internal_rank [of c hash e e'] engine_inv_step [OF internal_step_engine] by fastforce
next
  case (external n m e e')
  then show ?case using external_rank [of c hash e e'] engine_inv_step [OF external_step_engine] by fastforce
qed simp

lemma rank_initial:
  assumes "engine_init c e"
  shows "rank c e = 4 * workers c + 6"
proof -
  obtain ss where "e = fresh_engine c ss" "length ss = workers c"
    using assms engine_started unfolding engine_init_def by blast
  then show ?thesis
    by (simp add: rank_def coord_cost_def queue_cost_def stop_cost_def burden_def fresh_engine_def)
qed

lemma steps_work_run: "(engine_step c hash)\<^sup>*\<^sup>* e0 e \<Longrightarrow> \<exists>n m. work_run c hash e0 n m e"
proof (induction rule: rtranclp_induct)
  case (step e1 e2)
  then show ?case unfolding engine_step_kinds by (blast intro: work_run.intros)
qed (blast intro: work_run.begins)

subsection \<open>The order of the shutdown\<close>

text \<open>
  The coordinator's queue is closed by the one \<open>Stop\<close> sent to it; the coordinator finishes with an empty
  queue; then exactly the owners that were sent a \<open>Stop\<close> have one in their queue or are stopping.
\<close>

definition stops :: "OwnerState \<Rightarrow> bool" where
  "stops o1 \<longleftrightarrow> Stop \<in> set (o_controls o1) \<or> o_stopping o1"

definition stop_inv :: "Config \<Rightarrow> Engine \<Rightarrow> bool" where
  "stop_inv c e \<longleftrightarrow> (en_stop_sent e \<longleftrightarrow> en_cross_closed e \<or> CrossStop \<in> set (en_cross e)) \<and>
     (en_coord e = Finished \<longrightarrow> en_cross_closed e \<and> en_cross e = []) \<and>
     (0 < en_stopped e \<longrightarrow> en_coord e = Finished) \<and> en_stopped e \<le> workers c \<and>
     (\<forall>i < workers c. stops (en_owners e ! i) \<longleftrightarrow> i < en_stopped e)"

lemma stop_inv_frame:
  assumes "stop_inv c e" and "en_stop_sent e' = en_stop_sent e" and "en_cross_closed e' = en_cross_closed e"
    and "en_cross e' = en_cross e" and "en_coord e' = Finished \<longleftrightarrow> en_coord e = Finished" and "en_stopped e' = en_stopped e"
    and "\<And>i. i < workers c \<Longrightarrow> stops (en_owners e' ! i) = stops (en_owners e ! i)"
  shows "stop_inv c e'"
  using assms by (simp add: stop_inv_def)

lemma stops_cong: "o_controls o2 = o_controls o1 \<Longrightarrow> o_stopping o2 = o_stopping o1 \<Longrightarrow> stops o2 = stops o1"
  by (simp add: stops_def)

lemma owner_top_stops: "owner_top alloc now o1 = Some (evs, o2) \<Longrightarrow> stops o2 = stops o1"
  by (erule owner_top_cases) (simp_all add: stops_def)

lemma handle_control_stops:
  "handle_control alloc (o1\<lparr>o_controls := rest\<rparr>) msg = Some (evs, o2) \<Longrightarrow> o_controls o1 = msg # rest \<Longrightarrow> stops o2 = stops o1"
  by (cases msg) (auto simp: stops_def split: if_splits Option.bind_splits sum.splits)

lemma owner_select_stops:
  "owner_select alloc now batch tick False False o1 = Some (Continue evs o2) \<Longrightarrow> stops o2 = stops o1"
  by (erule owner_select_cases) (auto simp: handle_control_stops intro!: stops_cong)

lemma stop_inv_turn:
  assumes inv: "engine_inv c hash e" and st: "stop_inv c e" and o2: "stops o2 = stops (en_owners e ! i)"
  shows "stop_inv c (deliver i evs (set_owner i o2 (e\<lparr>en_top := b\<rparr>)))"
  using o2 by (intro stop_inv_frame [OF st]) (simp_all add: nth_list_update_if)

lemma stops_push: "stops (o1\<lparr>o_controls := o_controls o1 @ [msg]\<rparr>) \<longleftrightarrow> stops o1 \<or> msg = Stop"
  by (auto simp: stops_def)

lemma stop_inv_push:
  assumes st: "stop_inv c e" and "msg \<noteq> Stop"
  shows "stop_inv c (push_control i msg e)"
  using assms(2) by (intro stop_inv_frame [OF st]) (simp_all add: push_control_def nth_list_update_if stops_push)

lemma complete_unfinished: "coord_complete co y = Some co' \<Longrightarrow> co \<noteq> Finished \<and> co' \<noteq> Finished"
  by (induction co y rule: coord_complete.induct) auto

lemma phase_unfinished: "coord_phase_end n now co = Some co' \<Longrightarrow> co \<noteq> Finished \<and> co' \<noteq> Finished"
  by (cases co) (auto split: Option.bind_splits if_splits)

lemma stop_inv_step:
  assumes inv: "engine_inv c hash e" and st: "stop_inv c e" and step: "engine_step c hash e e'"
  shows "stop_inv c e'"
  using step
proof cases
  case (send before rq target "after")
  show ?thesis
  proof (cases target)
    case None
    then show ?thesis using send st by (auto simp: stop_inv_def enqueue_def target_closed_def)
  next
    case (Some i)
    then show ?thesis
      using send(1) by (intro stop_inv_frame [OF st]) (simp_all add: enqueue_def nth_list_update_if stops_def)
  qed
next
  case (top i alloc now evs o1)
  then show ?thesis using stop_inv_turn [OF inv st owner_top_stops [OF top(4)]] by simp
next
  case (select i alloc now tick_ready evs o1)
  then show ?thesis using stop_inv_turn [OF inv st owner_select_stops [OF select(4)]] by simp
next
  case (coord_take rq rest tid parts)
  then show ?thesis using st by (auto simp: stop_inv_def)
next
  case (coord_stop rest)
  then show ?thesis using st by (auto simp: stop_inv_def)
next
  case coord_finish
  then show ?thesis using st by (auto simp: stop_inv_def)
next
  case (coord_send i msg)
  have "msg \<noteq> Stop" using coord_message_part(3) [OF coord_send(3)] by auto
  then have "stop_inv c (push_control i msg e)" using stop_inv_push [OF st] by blast
  then show ?thesis unfolding coord_send(1) by (rule stop_inv_frame) simp_all
next
  case (coord_receive x c')
  then show ?thesis using complete_unfinished [OF coord_receive(4)] coord_receive(1) by (intro stop_inv_frame [OF st]) simp_all
next
  case (coord_phase now c')
  then show ?thesis using phase_unfinished [OF coord_phase(4)] coord_phase(1) by (intro stop_inv_frame [OF st]) simp_all
next
  case (stats i client)
  then show ?thesis using stop_inv_push [OF st] by simp
next
  case shutdown_cross
  then show ?thesis using st by (auto simp: stop_inv_def)
next
  case (shutdown_owner i)
  then show ?thesis
    using st engine_invD(2) [OF inv]
    by (auto simp: stop_inv_def push_control_def nth_list_update_if stops_push less_Suc_eq)
qed (auto intro: stop_inv_frame [OF st])

lemma stop_inv_start:
  assumes "engine_init c e"
  shows "stop_inv c e"
proof -
  obtain ss where "e = fresh_engine c ss" "length ss = workers c"
    using assms engine_started unfolding engine_init_def by blast
  then show ?thesis by (simp add: stop_inv_def fresh_engine_def stops_def)
qed

interpretation stopping: layered_invariant "engine_init c" "engine_step c hash" "engine_inv c hash" "stop_inv c" for c hash
  by unfold_locales (use stop_inv_start stop_inv_step in blast)+

subsection \<open>A state with no internal step left\<close>

text \<open>
  The counters have room for the work that is left: each internal step raises the revision of an owner
  and the number of coordinated commands by at most one.
\<close>

definition roomy :: "Config \<Rightarrow> Engine \<Rightarrow> bool" where
  "roomy c e \<longleftrightarrow> en_next_id e + rank c e \<le> u64_max \<and>
     (\<forall>i < workers c. revision (o_shard (en_owners e ! i)) + rank c e \<le> u64_max)"

definition settled :: "Config \<Rightarrow> hasher \<Rightarrow> Engine \<Rightarrow> bool" where
  "settled c hash e \<longleftrightarrow> (\<nexists>e'. internal_step c hash e e')"

lemma owner_select_revision:
  assumes "owner_select alloc now batch False False False o1 = Some (Continue evs o2)"
  shows "revision (o_shard o2) \<le> Suc (revision (o_shard o1))"
  using assms
  by (auto simp: owner_select_def execute_local_revision dest!: handle_control_revision split: if_splits Option.bind_splits list.splits)

lemma internal_counters:
  assumes "internal_step c hash e e'"
  shows "en_next_id e' \<le> Suc (en_next_id e)"
    and "revision (o_shard (en_owners e' ! i)) \<le> Suc (revision (o_shard (en_owners e ! i)))"
proof -
  show "en_next_id e' \<le> Suc (en_next_id e)"
    using assms by cases (auto simp: u64_checked_add_def enqueue_def split: if_splits option.splits)
  show "revision (o_shard (en_owners e' ! i)) \<le> Suc (revision (o_shard (en_owners e ! i)))"
    using assms
  proof cases
    case (top j alloc now evs o1)
    then show ?thesis using owner_top_revision [OF top(4)] by (auto simp: nth_list_update_if)
  next
    case (select j alloc now evs o1)
    then show ?thesis using owner_select_revision [OF select(4)] by (auto simp: nth_list_update_if)
  qed (simp_all add: enqueue_def push_control_def nth_list_update_if split: option.splits)
qed

lemma roomy_internal:
  assumes "engine_inv c hash e" and "roomy c e" and "internal_step c hash e e'"
  shows "roomy c e'"
proof -
  have lt: "rank c e' < rank c e" using internal_rank [OF assms(1,3)] .
  have "revision (o_shard (en_owners e' ! i)) + rank c e' \<le> u64_max" if "i < workers c" for i
    using internal_counters(2) [OF assms(3), of i] lt assms(2) that unfolding roomy_def by fastforce
  then show ?thesis using internal_counters(1) [OF assms(3)] lt assms(2) unfolding roomy_def by fastforce
qed

definition working :: "Config \<Rightarrow> hasher \<Rightarrow> Engine \<Rightarrow> bool" where
  "working c hash e \<longleftrightarrow> engine_inv c hash e \<and> stop_inv c e \<and> roomy c e"

interpretation drain: ranked_system "working c hash" "internal_step c hash" "rank c" for c hash
  by unfold_locales
    (auto simp: working_def internal_rank roomy_internal intro: engine_inv_step stop_inv_step internal_step_engine)

lemma rank_pos:
  assumes "engine_inv c hash e"
  shows "0 < rank c e"
proof (cases "en_awaiting e")
  case True
  then have "c_parts (en_coord e) \<noteq> []" using engine_invD(4) [OF assms] by (auto simp: wait_ok_def)
  then have "0 < units (en_coord e)" by (cases "en_coord e") auto
  then show ?thesis by (simp add: rank_def coord_cost_def)
qed (simp add: rank_def coord_cost_def)

lemma roomy_lt:
  assumes "engine_inv c hash e" and "roomy c e"
  shows "en_next_id e < u64_max" and "i < workers c \<Longrightarrow> revision (o_shard (en_owners e ! i)) < u64_max"
proof -
  show "en_next_id e < u64_max" using assms(2) rank_pos [OF assms(1)] unfolding roomy_def by linarith
  show "revision (o_shard (en_owners e ! i)) < u64_max" if "i < workers c"
    using assms(2) rank_pos [OF assms(1)] that unfolding roomy_def by fastforce
qed

lemma settled_coordinator:
  assumes "working c hash e" and "settled c hash e"
  shows "c_request (en_coord e) = []"
proof (rule ccontr)
  assume "c_request (en_coord e) \<noteq> []"
  then have "\<exists>e'. advanced c hash e e'"
    using coordinator_progress roomy_lt(2) assms(1) unfolding working_def by blast
  then show False using assms(2) by (auto simp: settled_def advanced_def)
qed

lemma settled_owner:
  assumes w: "working c hash e" and s: "settled c hash e" and i: "i < workers c"
  shows "o_reservation (en_owners e ! i) = None" and "\<not> en_top e ! i"
    and "o_stopping (en_owners e ! i) \<or> o_controls (en_owners e ! i) = []" and "o_data (en_owners e ! i) = []"
proof -
  let ?o = "en_owners e ! i"
  have inv: "engine_inv c hash e" and rev: "revision (o_shard ?o) < u64_max"
    using w roomy_lt(2) [OF _ _ i] by (auto simp: working_def)
  note oi = engine_invD(5) [OF inv i]
  have "c_parts (en_coord e) = []" using settled_coordinator [OF w s] by (cases "en_coord e") auto
  then show rsv: "o_reservation ?o = None" using oi by (simp add: owner_inv_def rsv_ok_def)
  have no_select: "owner_select granting 0 (expiry_batch c) False False False ?o \<noteq> Some (Continue evs o2)"
    if "\<not> en_top e ! i" for evs o2
    using internal_step.select [OF i that] s unfolding settled_def by blast
  show top: "\<not> en_top e ! i"
    using owner_top_total [OF oi rev, of granting 0] internal_step.top [OF i] s unfolding settled_def by fastforce
  show ctl: "o_stopping ?o \<or> o_controls ?o = []"
  proof (rule ccontr)
    assume *: "\<not> (o_stopping ?o \<or> o_controls ?o = [])"
    then obtain msg rest where mr: "o_controls ?o = msg # rest" by (auto simp: neq_Nil_conv)
    obtain evs o2 where "handle_control granting (?o\<lparr>o_controls := rest\<rparr>) msg = Some (evs, o2)"
      using handle_control_total [OF oi engine_invD(3) [OF inv] mr rev] by fastforce
    then show False using * mr no_select [OF top, of evs o2] by (simp add: owner_select_def)
  qed
  show "o_data ?o = []"
  proof (rule ccontr)
    assume "o_data ?o \<noteq> []"
    then obtain rq rest where d: "o_data ?o = rq # rest" by (auto simp: neq_Nil_conv)
    have "owner_good c hash i ?o" using oi by (simp add: owner_inv_def)
    then obtain ev s' where "execute_local granting (o_shard ?o) rq 0 = Some (ev, s')"
      using owner_execute_total [OF _ d rev] by blast
    then show False
      using rsv d ctl no_select [OF top, of "[ev]" "?o\<lparr>o_data := rest, o_shard := s'\<rparr>"] by (auto simp: owner_select_def)
  qed
qed

lemma settled_cross:
  assumes w: "working c hash e" and s: "settled c hash e"
  shows "en_cross e = []"
proof (cases "en_coord e = Finished")
  case True
  then show ?thesis using w by (simp add: working_def stop_inv_def)
next
  case False
  then have idle: "en_coord e = Idle" using settled_coordinator [OF w s] by (cases "en_coord e") auto
  have inv: "engine_inv c hash e" using w by (simp add: working_def)
  show ?thesis
  proof (cases "en_cross e")
    case (Cons x rest)
    show ?thesis
    proof (cases x)
      case (CrossExecute rq)
      obtain parts where "split (rq_operation rq) hash (workers c) = Some parts"
        using inv Cons CrossExecute by (auto simp: engine_inv_def splits_def)
      moreover have "u64_checked_add (en_next_id e) 1 = Some (en_next_id e + 1)"
        using roomy_lt(1) [OF inv] w by (simp add: working_def u64_checked_add_def)
      ultimately show ?thesis
        using internal_step.coord_take [OF idle] Cons CrossExecute s unfolding settled_def by blast
    next
      case CrossStop
      then show ?thesis using internal_step.coord_stop [OF idle] Cons s unfolding settled_def by blast
    qed
  qed
qed

lemma settled_sending:
  assumes w: "working c hash e" and s: "settled c hash e" and cap: "0 < queue_capacity c"
  shows "en_sending e = []"
proof (cases "en_sending e")
  case (Cons p rest)
  obtain rq target where p: "en_sending e = [] @ (rq, target) # rest" using Cons by (cases p) simp
  have "valid_target c target" using sending_target [OF _ p] w unfolding working_def by blast
  then have "\<not> target_full c target e"
    using settled_owner(4) [OF w s] settled_cross [OF w s] cap
    by (auto simp: target_full_def valid_target_def split: option.splits)
  then show ?thesis
    using internal_step.send [OF p] internal_step.send_closed [OF p] s unfolding settled_def by blast
qed

lemma settled_held:
  assumes w: "working c hash e" and s: "settled c hash e" and cap: "0 < queue_capacity c"
  shows "held e = {#}"
proof -
  have "concat (map o_data (en_owners e)) = []"
    using settled_owner(4) [OF w s] w by (auto simp: working_def engine_inv_def in_set_conv_nth)
  then show ?thesis
    using settled_coordinator [OF w s] settled_cross [OF w s] settled_sending [OF assms] unfolding held_def
    by (simp del: concat_eq_Nil_conv)
qed


subsection \<open>The properties\<close>

lemma submission_rank: "submission c hash rq e e' \<Longrightarrow> rank c e \<le> rank c e'"
  by (induction rule: submission.induct) (simp_all add: rank_def queue_cost_def stop_cost_def burden_def)

lemma internal_account:
  assumes "engine_inv c hash e" and "internal_step c hash e e'"
  shows "account e' = account e"
  using account_step [OF assms(1) internal_step_engine [OF assms(2)]] internal_rank [OF assms] submission_rank [of c hash _ e e']
  by (meson leD)

lemma internal_run_account:
  assumes "(internal_step c hash)\<^sup>*\<^sup>* e e'" and "working c hash e"
  shows "account e' = account e"
  using assms
proof (induction rule: rtranclp_induct)
  case (step e1 e2)
  then show ?case using drain.works_inv internal_account unfolding working_def by metis
qed simp



lemma reach_working:
  assumes "engine_reach c hash e" and "roomy c e"
  shows "working c hash e"
  using stopping.both.reach_inv [OF assms(1)] assms(2) by (simp add: working_def)

lemma reach_capacity: "engine_reach c hash e \<Longrightarrow> 0 < queue_capacity c"
  using reach_valid [of c hash e] by (auto simp: validate_def split: if_splits)

lemma settled_answered:
  assumes w: "working c hash e" and cap: "0 < queue_capacity c"
    and run: "(internal_step c hash)\<^sup>*\<^sup>* e e'" and s: "settled c hash e'"
  shows "mset (map fst (en_answered e')) = mset (map fst (en_answered e)) + held e"
  using internal_run_account [OF run w] settled_held [OF drain.works_inv [OF run w] s cap]
  by (simp add: account_def answered_def ac_simps)

text \<open>
  Claim C31. The engine never runs in circles: whatever the interleaving, an engine with \<open>w\<close> workers that
  has seen \<open>m\<close> events from outside (submissions, timers, deadlines, requests for statistics, the call of
  \<open>shutdown\<close>) has taken at most \<open>4w + 6 + (16(w + 1) + 2)m\<close> steps of its owners, its coordinator and its
  clients' sends in all. So no message between coordinator and owners is ever retried or passed around for ever.
\<close>

theorem engine_work_bounded:
  assumes "engine_init c e0" and "work_run c hash e0 n m e"
  shows "n \<le> 4 * workers c + 6 + (16 * (workers c + 1) + 2) * m"
  using work_run_rank [OF assms(2) engine.inv_init [OF assms(1)]] rank_initial [OF assms(1)] by (simp add: cross_cost_def)

theorem engine_work_bounded_witness:
  "\<exists>n m. work_run demo_config demo_hash demo_start n m (demo_engine demo_full) \<and> n \<le> 14 + 50 * m"
proof -
  obtain n m where run: "work_run demo_config demo_hash demo_start n m (demo_engine demo_full)"
    using steps_work_run [OF run_schedule_steps [OF demo_runs(2)]] by blast
  have "workers demo_config = 2" by code_simp
  then show ?thesis using engine_work_bounded [OF demo_init run] run by auto
qed

text \<open>
  Claim C5. The engine drains: from every reachable state whose 64-bit counters have room for the
  work that is left, however the owners, the coordinator and the senders are scheduled, their steps come to an end
  within the rank of the state, and then every command that was held, in whatever queue or phase of the
  coordinator, has been answered exactly once, without any of them waiting for its deadline. So no
  reservation, full queue or lost wake-up can block a command for ever.
\<close>

theorem engine_drains:
  assumes "engine_reach c hash e" and "roomy c e"
  shows "(\<forall>n e'. (internal_step c hash ^^ n) e e' \<longrightarrow> n \<le> rank c e) \<and>
    (\<exists>e'. (internal_step c hash)\<^sup>*\<^sup>* e e' \<and> settled c hash e') \<and>
    (\<forall>e'. (internal_step c hash)\<^sup>*\<^sup>* e e' \<and> settled c hash e' \<longrightarrow>
       held e' = {#} \<and> mset (map fst (en_answered e')) = mset (map fst (en_answered e)) + held e)"
proof -
  have w: "working c hash e" using reach_working [OF assms] .
  have cap: "0 < queue_capacity c" using reach_capacity [OF assms(1)] .
  have "n \<le> rank c e" if "(internal_step c hash ^^ n) e e'" for n e' using drain.work_bound [OF that w] by simp
  moreover have "\<exists>e'. (internal_step c hash)\<^sup>*\<^sup>* e e' \<and> settled c hash e'" using drain.work_settles [OF w] by (simp add: settled_def)
  ultimately show ?thesis using settled_held [OF drain.works_inv [OF _ w] _ cap] settled_answered [OF w cap] by blast
qed

lemma demo_roomy: "roomy demo_config (demo_engine demo_half)"
proof -
  have "en_next_id (demo_engine demo_half) + rank demo_config (demo_engine demo_half) \<le> u64_max" by code_simp
  moreover have "list_all (\<lambda>i. revision (o_shard (en_owners (demo_engine demo_half) ! i)) + rank demo_config (demo_engine demo_half) \<le> u64_max)
      [0..<workers demo_config]"
    by code_simp
  ultimately show ?thesis by (simp add: roomy_def list_all_iff)
qed

lemma demo_held: "held (demo_engine demo_half) = {#demo_request#}" "map fst (en_answered (demo_engine demo_half)) = []"
proof -
  have "en_sending (demo_engine demo_half) = []" "concat (map o_data (en_owners (demo_engine demo_half))) = []"
    "cross_requests (en_cross (demo_engine demo_half)) = []" "c_request (en_coord (demo_engine demo_half)) = [demo_request]"
    by code_simp+
  then show "held (demo_engine demo_half) = {#demo_request#}" unfolding held_def by (simp del: concat_eq_Nil_conv)
  show "map fst (en_answered (demo_engine demo_half)) = []" by code_simp
qed

theorem engine_drains_witness:
  "\<exists>e'. (internal_step demo_config demo_hash)\<^sup>*\<^sup>* (demo_engine demo_half) e' \<and> settled demo_config demo_hash e' \<and>
     mset (map fst (en_answered e')) = {#demo_request#}"
  using engine_drains [OF demo_reach(1) demo_roomy] demo_held by auto



end
