(* ===== verification/Store_Over_Wire.thy ===== *)
theory Store_Over_Wire
  imports Net_Connection Engine_Calls Engine_Workloads
begin

section \<open>From the wire to the store and back\<close>

text \<open>
  The layers together: bytes of a client, connection, session, engine handle, queues, owners and shards. A
  session calls the engine as \<open>engine_calls\<close> says: during a call the engine with all its threads and all its other
  clients takes any steps. What a client then reads follows from the serial run that the engine's outcomes form.
\<close>

subsection \<open>A key that one value is written to\<close>

text \<open>Among these outcomes, key \<open>k\<close> is only read and set to \<open>v\<close>.\<close>

definition only_set :: "bytes \<Rightarrow> bytes \<Rightarrow> outcome \<Rightarrow> bool" where
  "only_set k v = (\<lambda>(rq, reply). k \<in> set (Operation_keys (rq_operation rq)) \<longrightarrow>
     rq_operation rq = Set k v Always Clear \<or> reads_only (rq_operation rq))"

text \<open>Nobody gave key \<open>k\<close> another value, a deadline or removed it while the engine went from \<open>e\<close> to \<open>e'\<close>.\<close>

definition undisturbed :: "bytes \<Rightarrow> bytes \<Rightarrow> Engine \<Rightarrow> Engine \<Rightarrow> bool" where
  "undisturbed k v e e' \<longleftrightarrow> (\<forall>x \<in># mset (outcomes e') - mset (outcomes e). only_set k v x)"

definition was_set :: "bytes \<Rightarrow> bytes \<Rightarrow> outcome list \<Rightarrow> bool" where
  "was_set k v g \<longleftrightarrow> (\<exists>rq. (rq, Reply_ok) \<in> set g \<and> rq_operation rq = Set k v Always Clear)"

abbreviation lasting_entry :: "bytes \<Rightarrow> Entry" where
  "lasting_entry v \<equiv> \<lparr>e_value = v, e_expires = None\<rparr>"

lemma ran_set: "ran now (Set k v Always Clear) m reply m' \<Longrightarrow> reply = Reply_ok \<and> m' k = Some (lasting_entry v)"
  by (auto simp: ran_def spec_set_def after_op_def Let_def split: if_splits)

lemma ran_get:
  assumes "ran now (Get k) m reply m'" and "m k = Some (lasting_entry v)"
  shows "reply = Bulk (Some v)"
  using assms live_permanent_at [of m k now] by (auto simp: ran_def spec_bulk_def)

lemma ran_kept:
  assumes "ran now (rq_operation rq) m reply m'" and "only_set k v (rq, reply)" and "m k = Some (lasting_entry v)"
  shows "m' k = Some (lasting_entry v)"
proof (cases "k \<in> set (Operation_keys (rq_operation rq))")
  case True
  then consider "rq_operation rq = Set k v Always Clear" | "reads_only (rq_operation rq)"
    using assms(2) by (auto simp: only_set_def)
  then show ?thesis
  proof cases
    case 1
    then show ?thesis using ran_set assms(1) by simp
  next
    case 2
    then show ?thesis using ran_reads_only [OF assms(1) 2, of k] assms(3) by simp
  qed
qed (use ran_elsewhere [OF assms(1)] assms(3) in simp)

text \<open>Once the value was set it stays, and every later read of the serial run gives it.\<close>

lemma serial_set_get:
  assumes "serial hh m" and "hh = h @ g" and "list_all (only_set k v) g"
  shows "(was_set k v g \<longrightarrow> m k = Some (lasting_entry v)) \<and>
    (\<forall>g1 rq reply g2. g = g1 @ (rq, reply) # g2 \<longrightarrow> was_set k v g1 \<longrightarrow> rq_operation rq = Get k \<longrightarrow>
       reply = Bulk (Some v) \<or> (\<exists>msg. reply = Reply_error msg))"
  using assms
proof (induction arbitrary: g rule: serial.induct)
  case empty
  then show ?case by (simp add: was_set_def)
next
  case (extend h0 m step m')
  show ?case
  proof (cases "step = []")
    case True
    have IH: "was_set k v g \<longrightarrow> m k = Some (lasting_entry v)"
      "\<forall>g1 rq reply g2. g = g1 @ (rq, reply) # g2 \<longrightarrow> was_set k v g1 \<longrightarrow> rq_operation rq = Get k \<longrightarrow>
         reply = Bulk (Some v) \<or> (\<exists>msg. reply = Reply_error msg)"
      using extend.IH [of g] extend.prems True by auto
    have "m k = Some (lasting_entry v) \<Longrightarrow> m' k = m k"
      using extend.hyps(2) True purged_permanent [of _ m m' k] by (auto elim!: atomic_step.cases)
    then show ?thesis using IH by auto
  next
    case False
    then obtain rq reply where one: "step = [(rq, reply)]"
      using extend.hyps(2) by (auto elim!: atomic_step.cases)
    show ?thesis
    proof (cases g rule: rev_cases)
      case Nil
      then show ?thesis by (simp add: was_set_def)
    next
      case (snoc g0 x)
      then have g0: "h0 = h @ g0" "x = (rq, reply)" "list_all (only_set k v) g0" "only_set k v (rq, reply)"
        using extend.prems one by auto
      note IH = extend.IH [OF g0(1,3)]
      have effect: "(\<exists>now. ran now (rq_operation rq) m reply m') \<or> (\<exists>msg. reply = Reply_error msg) \<and> m' = m"
        using extend.hyps(2) one by (auto elim!: atomic_step.cases)
      have kept: "m' k = Some (lasting_entry v)" if "was_set k v g"
      proof (cases "rq_operation rq = Set k v Always Clear \<and> reply = Reply_ok")
        case True
        moreover have "Reply_ok \<noteq> Reply_error msg" for msg by (simp add: Reply_ok_def Reply_error_def)
        ultimately obtain now where "ran now (Set k v Always Clear) m Reply_ok m'" using effect by auto
        then show ?thesis using ran_set by blast
      next
        case False
        then have "m k = Some (lasting_entry v)" using that IH snoc g0(2) by (auto simp: was_set_def)
        then show ?thesis using effect ran_kept g0(4) by blast
      qed
      have "reply = Bulk (Some v) \<or> (\<exists>msg. reply = Reply_error msg)" if "was_set k v g0" "rq_operation rq = Get k"
        using effect ran_get [of _ k m reply m' v] conjunct1 [OF IH] that by auto
      then have "reply' = Bulk (Some v) \<or> (\<exists>msg. reply' = Reply_error msg)"
        if "g = g1 @ (rq', reply') # g2" "was_set k v g1" "rq_operation rq' = Get k" for g1 rq' reply' g2
        using that IH snoc g0(2) by (cases g2 rule: rev_cases) auto
      then show ?thesis using kept by blast
    qed
  qed
qed

lemma serial_set_reply:
  assumes "serial h m" and "(rq, reply) \<in> set h" and "rq_operation rq = Set k v Always Clear"
  shows "reply = Reply_ok \<or> (\<exists>msg. reply = Reply_error msg)"
  using assms by (induction rule: serial.induct) (auto elim!: atomic_step.cases dest: ran_set)

subsection \<open>A client reads what it wrote\<close>

lemma outcome_accounted: "(rq, reply) \<in> set (outcomes e) \<Longrightarrow> rq \<in># account e"
  by (cases "en_coord e") (force simp: outcomes_def account_def held_def answered_def)+

lemma answered_outcome: "x \<in> set (en_answered e) \<Longrightarrow> x \<in> set (outcomes e)"
  by (simp add: outcomes_def)

context engine_calls
begin

text \<open>The outcome of a call is among those the serial run is extended by during the call.\<close>

lemma run_serial:
  assumes "engine_reach c hash e" and "serial h (view c hash e)"
  obtains rq g where "rq_operation rq = operation" and "(rq, fst (run operation e)) \<in> set g"
    and "serial (h @ g) (view c hash (snd (run operation e)))"
    and "mset (outcomes (snd (run operation e))) = mset (outcomes e) + mset g"
    and "engine_reach c hash (snd (run operation e))"
proof -
  let ?e = "snd (run operation e)"
  obtain rq where rq: "rq_operation rq = operation" "rq \<notin># account e" "(rq, fst (run operation e)) \<in> set (en_answered ?e)"
    using run_answer [OF assms(1)] .
  obtain g where g: "serial (h @ g) (view c hash ?e)" "mset (outcomes ?e) = mset (outcomes e) + mset g"
    using engine.steps_serial [OF run_steps [OF assms(1)] engine.reach_inv [OF assms(1)] assms(2)] by blast
  have "(rq, fst (run operation e)) \<in># mset (outcomes ?e)" using answered_outcome [OF rq(3)] by simp
  then have "(rq, fst (run operation e)) \<in> set g" using g(2) outcome_accounted rq(2) by (auto simp: in_multiset_in_set)
  then show ?thesis using that rq(1) g reach_steps [OF run_steps [OF assms(1)] assms(1)] by blast
qed

lemma set_answer:
  assumes "engine_reach c hash e"
  shows "fst (run (Set k v Always Clear) e) = Reply_ok \<or> (\<exists>msg. fst (run (Set k v Always Clear) e) = Reply_error msg)"
proof -
  obtain h where h: "serial h (view c hash e)" using serial_outcomes [OF assms] .
  obtain rq g where "rq_operation rq = Set k v Always Clear" "(rq, fst (run (Set k v Always Clear) e)) \<in> set g"
    "serial (h @ g) (view c hash (snd (run (Set k v Always Clear) e)))"
    using run_serial [OF assms h] .
  then show ?thesis using serial_set_reply by (metis Un_iff set_append)
qed

lemma read_own_write:
  assumes reach: "engine_reach c hash e" and set: "run (Set k v Always Clear) e = (Reply_ok, e1)"
    and get: "run (Get k) e1 = (reply, e2)" and quiet: "undisturbed k v e e2"
  shows "reply = Bulk (Some v) \<or> (\<exists>msg. reply = Reply_error msg)"
proof -
  obtain h where h: "serial h (view c hash e)" using serial_outcomes [OF reach] .
  obtain rq1 g1 where g1: "rq_operation rq1 = Set k v Always Clear" "(rq1, Reply_ok) \<in> set g1"
    "serial (h @ g1) (view c hash e1)" "mset (outcomes e1) = mset (outcomes e) + mset g1" "engine_reach c hash e1"
    using run_serial [OF reach h, of "Set k v Always Clear", unfolded set fst_conv snd_conv] by blast
  obtain rq2 g2 where g2: "rq_operation rq2 = Get k" "(rq2, reply) \<in> set g2"
    "serial ((h @ g1) @ g2) (view c hash e2)" "mset (outcomes e2) = mset (outcomes e1) + mset g2"
    using run_serial [OF g1(5,3), of "Get k", unfolded get fst_conv snd_conv] by blast
  have "mset (outcomes e2) - mset (outcomes e) = mset (g1 @ g2)" using g1(4) g2(4) by simp
  then have "list_all (only_set k v) (g1 @ g2)" using quiet by (auto simp: undisturbed_def list_all_iff)
  moreover obtain g3 g4 where "g2 = g3 @ (rq2, reply) # g4" using g2(2) split_list by fastforce
  moreover have "was_set k v (g1 @ g3)" for g3 using g1(1,2) by (auto simp: was_set_def)
  ultimately show ?thesis using serial_set_get [OF g2(3), of h "g1 @ g2" k v] g2(1) by (metis append_assoc)
qed

text \<open>What the session answers to \<open>SET\<close> and then \<open>GET\<close>.\<close>

lemma serve_set_get:
  assumes "authenticated s"
    and parse_set: "parse [''SET'', k, v] (commands config) = Some (Inr (Data (Set k v Always Clear)))"
    and parse_get: "parse [''GET'', k] (commands config) = Some (Inr (Data (Get k)))"
    and "run (Set k v Always Clear) e = (r1, e1)" and "run (Get k) e1 = (r2, e2)"
  shows "\<exists>s' m'. serve ct_eq run stats config s m e [[''SET'', k, v], [''GET'', k]] =
    Some ([bounded_reply config r1, bounded_reply config r2], False, s', m', e2)"
  using assms by (simp add: answer_request_def Session_execute_def session_command_def)

end

subsection \<open>Requests on the wire\<close>

lemma find_spec_set: "find_spec ''SET'' = Some (spec ''set'' (-3) True 1 1 1)"
  by code_simp

lemma find_spec_get: "find_spec ''GET'' = Some (spec ''get'' 2 False 1 1 1)"
  by code_simp

lemma parse_set_get:
  assumes "length k \<le> max_key_bytes l" and "length v \<le> max_value_bytes l"
  shows "parse [''SET'', k, v] l = Some (Inr (Data (Set k v Always Clear)))"
    and "parse [''GET'', k] l = Some (Inr (Data (Get k)))"
  using assms find_spec_set find_spec_get
  by (simp_all add: parse_def spec_def wrong_arity_def as_i64_def parse_named_def parse_set_def parse_set_loop.simps idx_def
      check_limits_def value_too_large_def Let_def)

definition fits_wire :: "Config \<Rightarrow> bytes \<Rightarrow> bytes \<Rightarrow> bool" where
  "fits_wire c k v \<longleftrightarrow> length k \<le> max_key_bytes (commands c) \<and> length v \<le> max_value_bytes (commands c) \<and>
     3 \<le> max_arguments (protocol c) \<and> 3 \<le> max_bulk_bytes (protocol c) \<and> 23 \<le> max_header_bytes (protocol c) \<and>
     length (request_wire [''SET'', k, v]) \<le> max_frame_bytes (protocol c) \<and>
     length (request_wire [''GET'', k]) \<le> max_frame_bytes (protocol c)"

lemma wire_frames:
  assumes "validate c = Inr ()" and "fits_wire c k v"
  shows "resp_frame (protocol c) [''SET'', k, v] (request_wire [''SET'', k, v])"
    and "resp_frame (protocol c) [''GET'', k] (request_wire [''GET'', k])"
proof -
  note val = validate_facts [OF assms(1)]
  have "max_key_bytes (commands c) \<le> max_bulk_bytes (protocol c)"
    using assms(1) by (auto simp: validate_def split: if_splits sum.splits)
  then show "resp_frame (protocol c) [''SET'', k, v] (request_wire [''SET'', k, v])"
    and "resp_frame (protocol c) [''GET'', k] (request_wire [''GET'', k])"
    using assms(2) val(10,11,14) by (auto intro!: request_wire_frame simp: fits_wire_def usize_max_def)
qed

lemma replies_within_limits:
  assumes "validate c = Inr ()" and "length v \<le> max_value_bytes (commands c)"
  shows "bounded_reply c Reply_ok = Reply_ok" and "bounded_reply c (Bulk (Some v)) = Bulk (Some v)"
proof -
  note val = validate_facts [OF assms(1)]
  have "encoded_len Reply_ok = Some 5" by code_simp
  then show "bounded_reply c Reply_ok = Reply_ok" using val(12) by (simp add: bounded_reply_def)
  show "bounded_reply c (Bulk (Some v)) = Bulk (Some v)"
    using value_reply_fits [OF assms] val(13) encoded_len_wire [of "Bulk (Some v)"]
    by (simp add: bounded_reply_def encode_wire usize_max_def del: encode.simps split: if_splits)
qed

lemma bounded_error: "\<exists>msg'. bounded_reply c (Reply_error msg) = Reply_error msg'"
  by (auto simp: bounded_reply_def limit_error_def)

text \<open>
  Claim C12. A client reads what it wrote, through all layers: take a valid configuration without a password, any
  number of owners, and an engine in any state it can reach, with any other clients. For any bytes \<open>k\<close> and \<open>v\<close>
  within the configured limits, a client that sends \<open>SET k v\<close> and \<open>GET k\<close>, in whatever pieces the bytes arrive, and
  whose replies can be built and written, receives two replies. The first is \<open>+OK\<close> or an error; if it is \<open>+OK\<close>
  and nobody set \<open>k\<close> otherwise, changed its deadline or removed it during the two calls, the second is \<open>v\<close> as a bulk
  string or an error (the command was refused), never an older value or none.
\<close>

theorem set_get_over_the_wire:
  assumes "validate c = Inr ()" and "password c = None" and "reserves alloc"
    and "engine_calls c hash run stats" and "engine_reach c hash e"
    and "Conn_new c client m e = Some conn" and "fits_wire c k v"
    and "concat chunks = request_wire [''SET'', k, v] @ request_wire [''GET'', k]" and "\<forall>b \<in> set chunks. b \<noteq> []"
  shows "\<exists>conn' evs ws r1 r2.
    connection alloc ct_eq run stats c conn (map Arrived chunks) [Written, Written] = Some (Blocked, conn', evs, ws) \<and>
    cn_output conn' = encode r1 [] @ encode r2 [] \<and>
    (r1 = Reply_ok \<or> (\<exists>msg. r1 = Reply_error msg)) \<and>
    (r1 = Reply_ok \<and> undisturbed k v e (cn_engine conn') \<longrightarrow> r2 = Bulk (Some v) \<or> (\<exists>msg. r2 = Reply_error msg))"
proof -
  have conn: "conn = \<lparr>cn_decoder = fresh (protocol c), cn_input = [], cn_session = Session_new client c,
      cn_metrics = m, cn_engine = e, cn_output = []\<rparr>"
    using assms(6) Conn_new_valid [OF assms(1), of client m e] by simp
  have fit: "length k \<le> max_key_bytes (commands c)" "length v \<le> max_value_bytes (commands c)"
    using assms(7) by (simp_all add: fits_wire_def)
  have auth: "authenticated (Session_new client c)" using assms(2) by (simp add: Session_new_def)
  obtain q1 e1 q2 e2 where q: "run (Set k v Always Clear) e = (q1, e1)" "run (Get k) e1 = (q2, e2)" by (meson surj_pair)
  obtain s' m' where served: "serve ct_eq run stats c (Session_new client c) m e [[''SET'', k, v], [''GET'', k]] =
      Some ([bounded_reply c q1, bounded_reply c q2], False, s', m', e2)"
    using engine_calls.serve_set_get [OF assms(4) auth parse_set_get [OF fit] q, of ct_eq m] by blast
  have frames: "list_all2 (resp_frame (protocol c)) [[''SET'', k, v], [''GET'', k]]
      [request_wire [''SET'', k, v], request_wire [''GET'', k]]"
    using wire_frames [OF assms(1,7)] by simp
  have "conn_at conn (protocol c) []" by (simp add: conn conn_at_def)
  from connection_serves [OF assms(1,3) frames this _ assms(9), of ct_eq run stats]
  obtain conn' evs ws where run: "connection alloc ct_eq run stats c conn (arriving chunks) [Written, Written] = Some (Blocked, conn', evs, ws)"
    and out: "cn_output conn' = encode (bounded_reply c q1) [] @ encode (bounded_reply c q2) []" "cn_engine conn' = e2"
    using assms(8) served by (auto simp: conn numeral_2_eq_2)
  have first: "q1 = Reply_ok \<or> (\<exists>msg. q1 = Reply_error msg)"
    using engine_calls.set_answer [OF assms(4,5), of k v] q(1) by simp
  have second: "q2 = Bulk (Some v) \<or> (\<exists>msg. q2 = Reply_error msg)" if "q1 = Reply_ok" "undisturbed k v e e2"
    using engine_calls.read_own_write [OF assms(4,5) _ q(2)] q(1) that by simp
  note bounded = replies_within_limits [OF assms(1) fit(2)]
  have "bounded_reply c q1 = Reply_ok \<Longrightarrow> q1 = Reply_ok"
    using first bounded_error [of c] by (metis Reply.distinct(1) Reply_error_def Reply_ok_def)
  then show ?thesis
    using run out first second bounded bounded_error [of c]
    by (intro exI [of _ conn'] exI [of _ evs] exI [of _ ws] exI [of _ "bounded_reply c q1"] exI [of _ "bounded_reply c q2"])
      (auto simp: arriving_def)
qed

definition wire_chunks :: "bytes list" where
  "wire_chunks = [request_wire [''SET'', ''key'', ''va''], request_wire [''GET'', ''key'']]"

definition wire_conn :: "Engine Conn" where
  "wire_conn = the (Conn_new demo_config 1 Metrics_default demo_start)"

theorem set_get_over_the_wire_witness:
  "\<exists>conn' evs ws. connection granting (=) (driven_call 8 demo_config demo_hash 0) (driven_stats demo_config demo_hash 0)
      demo_config wire_conn (map Arrived wire_chunks) [Written, Written] = Some (Blocked, conn', evs, ws) \<and>
    undisturbed ''key'' ''va'' demo_start (cn_engine conn') \<and>
    cn_output conn' = encode Reply_ok [] @ encode (Bulk (Some ''va'')) []"
proof -
  let ?run = "driven_call 8 demo_config demo_hash 0" and ?stats = "driven_stats demo_config demo_hash 0"
  have c: "validate demo_config = Inr ()" "password demo_config = None" by code_simp+
  have reach: "engine_reach demo_config demo_hash demo_start" by (rule reach.start [of "engine_init demo_config", OF demo_init])
  have conn: "Conn_new demo_config 1 Metrics_default demo_start = Some wire_conn"
    by (simp add: wire_conn_def Conn_new_valid [OF c(1)])
  have w: "fits_wire demo_config ''key'' ''va''"
    "concat wire_chunks = request_wire [''SET'', ''key'', ''va''] @ request_wire [''GET'', ''key'']"
    "\<forall>b \<in> set wire_chunks. b \<noteq> []"
    by code_simp+
  have res: "reserves granting" by (simp add: reserves_def granting_def)
  from set_get_over_the_wire [OF c res driven.engine_calls_axioms reach conn w, of "(=)" 8 0]
  obtain conn' evs ws r1 r2 where run: "connection granting (=) ?run ?stats demo_config wire_conn (map Arrived wire_chunks)
      [Written, Written] = Some (Blocked, conn', evs, ws)" and out: "cn_output conn' = encode r1 [] @ encode r2 []"
    and r1: "r1 = Reply_ok \<or> (\<exists>msg. r1 = Reply_error msg)"
    and r2: "r1 = Reply_ok \<and> undisturbed ''key'' ''va'' demo_start (cn_engine conn') \<longrightarrow>
      r2 = Bulk (Some ''va'') \<or> (\<exists>msg. r2 = Reply_error msg)"
    by blast
  have "map_option (\<lambda>(res, conn', evs, ws). (cn_output conn' ! 0, cn_output conn' ! 5, map (rq_operation \<circ> fst) (outcomes (cn_engine conn'))))
      (connection granting (=) ?run ?stats demo_config wire_conn (map Arrived wire_chunks) [Written, Written]) =
      Some (CHR ''+'', CHR ''$'', [Set ''key'' ''va'' Always Clear, Get ''key''])"
    by code_simp
  then have seen: "(encode r1 [] @ encode r2 []) ! 0 = CHR ''+''" "(encode r1 [] @ encode r2 []) ! 5 = CHR ''$''"
    "map (rq_operation \<circ> fst) (outcomes (cn_engine conn')) = [Set ''key'' ''va'' Always Clear, Get ''key'']"
    using run out by simp_all
  have "rq_operation (fst x) \<in> set (map (rq_operation \<circ> fst) (outcomes (cn_engine conn')))"
    if "x \<in> set (outcomes (cn_engine conn'))" for x using that by simp
  then have "undisturbed ''key'' ''va'' demo_start (cn_engine conn')"
    unfolding seen(3) by (fastforce simp: undisturbed_def only_set_def dest: in_diffD)
  moreover have "r1 = Reply_ok" using r1 seen(1) by (auto simp: Reply_error_def)
  moreover have "length (encode Reply_ok []) = 5" by code_simp
  ultimately show ?thesis using run out r2 seen(2) by (auto simp: Reply_error_def nth_append)
qed

end
