(* ===== verification/Rust_Text.thy ===== *)
theory Rust_Text
  imports Server_Config "HOL-Library.List_Lexorder"
begin

section \<open>Text and addresses\<close>

text \<open>
  What \<open>settings.rs\<close> uses of the standard library for text: UTF-8, the operations of \<open>str\<close>, ordered
  maps from strings, and the textual form of socket addresses. A \<open>str\<close> is the list of its characters
  (Unicode scalar values); lengths and passwords are those of its UTF-8 bytes.
\<close>

subsection \<open>UTF-8\<close>

type_synonym str = "nat list"

definition ascii :: "string \<Rightarrow> str" where
  "ascii s = map byte_of s"

definition scalar :: "nat \<Rightarrow> bool" where
  "scalar n \<longleftrightarrow> n < 0xD800 \<or> 0xE000 \<le> n \<and> n \<le> 0x10FFFF"

definition utf8_char :: "nat \<Rightarrow> nat list" where
  "utf8_char n =
     (if n < 0x80 then [n]
      else if n < 0x800 then [0xC0 + n div 64, 0x80 + n mod 64]
      else if n < 0x10000 then [0xE0 + n div 4096, 0x80 + n div 64 mod 64, 0x80 + n mod 64]
      else [0xF0 + n div 262144, 0x80 + n div 4096 mod 64, 0x80 + n div 64 mod 64, 0x80 + n mod 64])"

definition as_bytes :: "str \<Rightarrow> bytes" where
  "as_bytes s = map char_of (concat (map utf8_char s))"

text \<open>\<open>str::from_utf8\<close>: continuation bytes are counted from the first byte; only shortest forms of scalar values pass.\<close>

definition utf8_width :: "nat \<Rightarrow> nat" where
  "utf8_width b = (if b < 0x80 then 1 else if b < 0xE0 then 2 else if b < 0xF0 then 3 else 4)"

fun utf8_value :: "nat list \<Rightarrow> nat" where
  "utf8_value [b] = b"
| "utf8_value [b, c] = (b - 0xC0) * 64 + (c - 0x80)"
| "utf8_value [b, c, d] = (b - 0xE0) * 4096 + (c - 0x80) * 64 + (d - 0x80)"
| "utf8_value [b, c, d, e] = (b - 0xF0) * 262144 + (c - 0x80) * 4096 + (d - 0x80) * 64 + (e - 0x80)"
| "utf8_value _ = 0"

definition utf8_next :: "nat list \<Rightarrow> (nat \<times> nat list) option" where
  "utf8_next bs =
     (let width = utf8_width (hd bs); n = utf8_value (take width bs) in
      if scalar n \<and> utf8_char n = take width bs then Some (n, drop width bs) else None)"

lemma utf8_width_pos: "0 < utf8_width b"
  by (simp add: utf8_width_def)

lemma utf8_next_shorter: "utf8_next bs = Some (n, rest) \<Longrightarrow> bs \<noteq> [] \<Longrightarrow> length rest < length bs"
  using utf8_width_pos [of "hd bs"] by (auto simp: utf8_next_def Let_def split: if_splits)

function utf8_chars :: "nat list \<Rightarrow> str option" where
  "utf8_chars bs =
     (if bs = [] then Some []
      else case utf8_next bs of
        None \<Rightarrow> None
      | Some (n, rest) \<Rightarrow> map_option ((#) n) (utf8_chars rest))"
  by pat_completeness auto
termination
  by (relation "measure length") (auto dest: utf8_next_shorter)

declare utf8_chars.simps [simp del]

definition from_utf8 :: "bytes \<Rightarrow> str option" where
  "from_utf8 bs = utf8_chars (map byte_of bs)"

lemma utf8_char_nonempty [simp]: "utf8_char n \<noteq> []"
  by (simp add: utf8_char_def)

lemma utf8_char_form:
  assumes "scalar n"
  shows "utf8_width (hd (utf8_char n)) = length (utf8_char n)" and "utf8_value (utf8_char n) = n"
    and "\<forall>b \<in> set (utf8_char n). b < 256"
proof -
  have n: "n < 0x110000" using assms by (auto simp: scalar_def)
  have d: "n div 4096 = n div 64 div 64" "n div 262144 = n div 64 div 64 div 64" by (simp_all add: div_mult2_eq [symmetric])
  have split: "n div 64 * 64 + n mod 64 = n" "n div 4096 * 4096 + n div 64 mod 64 * 64 + n mod 64 = n"
    "n div 262144 * 262144 + n div 4096 mod 64 * 4096 + n div 64 mod 64 * 64 + n mod 64 = n"
    unfolding d using div_mult_mod_eq [of n 64] div_mult_mod_eq [of "n div 64" 64] div_mult_mod_eq [of "n div 64 div 64" 64]
    by linarith+
  have wide: "n div 64 < 32" if "n < 0x800" using that by (simp add: less_mult_imp_div_less)
  have wider: "n div 4096 < 16" if "n < 0x10000" using that by (simp add: less_mult_imp_div_less)
  have widest: "n div 262144 < 5" using n by (simp add: less_mult_imp_div_less)
  show "utf8_width (hd (utf8_char n)) = length (utf8_char n)"
    using wide wider widest by (auto simp: utf8_char_def utf8_width_def)
  show "utf8_value (utf8_char n) = n" using split by (auto simp: utf8_char_def)
  have small: "k mod 64 < 64" for k :: nat by simp
  show "\<forall>b \<in> set (utf8_char n). b < 256"
    using wide wider widest small [of n] small [of "n div 64"] small [of "n div 4096"]
    by (auto simp: utf8_char_def)
qed

text \<open>Decoding is the exact inverse of encoding.\<close>

lemma utf8_next_encoded: "scalar n \<Longrightarrow> utf8_next (utf8_char n @ rest) = Some (n, rest)"
  using utf8_char_form [of n] by (simp add: utf8_next_def hd_append)

lemma utf8_chars_encoded:
  "list_all scalar s \<Longrightarrow> utf8_chars (concat (map utf8_char s)) = Some s"
proof (induction s)
  case (Cons n s)
  then show ?case by (subst utf8_chars.simps) (simp add: utf8_next_encoded)
qed (simp add: utf8_chars.simps)

lemma utf8_next_sound:
  "utf8_next bs = Some (n, rest) \<Longrightarrow> scalar n \<and> bs = utf8_char n @ rest"
  by (auto simp: utf8_next_def Let_def split: if_splits)

lemma utf8_chars_sound:
  "utf8_chars bs = Some s \<Longrightarrow> list_all scalar s \<and> bs = concat (map utf8_char s)"
proof (induction bs arbitrary: s rule: utf8_chars.induct)
  case (1 bs)
  show ?case
  proof (cases "bs = []")
    case True
    then show ?thesis using 1(2) by (simp add: utf8_chars.simps)
  next
    case False
    then obtain n rest s' where "utf8_next bs = Some (n, rest)" "utf8_chars rest = Some s'" "s = n # s'"
      using 1(2) by (subst (asm) (2) utf8_chars.simps) (auto split: option.splits)
    then show ?thesis using 1(1) [OF False] utf8_next_sound by auto
  qed
qed

lemma from_utf8_iff: "from_utf8 bs = Some s \<longleftrightarrow> list_all scalar s \<and> bs = as_bytes s"
proof
  assume "from_utf8 bs = Some s"
  then have "list_all scalar s \<and> map byte_of bs = concat (map utf8_char s)"
    unfolding from_utf8_def by (rule utf8_chars_sound)
  moreover have "map char_of (map byte_of bs) = bs" by (simp add: byte_of_def o_def)
  ultimately show "list_all scalar s \<and> bs = as_bytes s" unfolding as_bytes_def by metis
next
  assume s: "list_all scalar s \<and> bs = as_bytes s"
  have "\<forall>b \<in> set (concat (map utf8_char s)). b < 256"
    using s utf8_char_form(3) by (auto simp: list_all_iff)
  then have "map byte_of bs = concat (map utf8_char s)"
    using s by (auto simp: as_bytes_def byte_of_def intro!: map_idI)
  then show "from_utf8 bs = Some s" using s utf8_chars_encoded by (simp add: from_utf8_def)
qed

lemma as_bytes_append [simp]: "as_bytes (a @ b) = as_bytes a @ as_bytes b"
  by (simp add: as_bytes_def)

lemma as_bytes_ascii [simp]: "list_all (\<lambda>c. byte_of c < 128) s \<Longrightarrow> as_bytes (ascii s) = s"
  by (induction s) (auto simp: as_bytes_def ascii_def utf8_char_def byte_of_def)

subsection \<open>Operations of str\<close>

text \<open>\<open>char::is_whitespace\<close>: the Unicode property \<open>White_Space\<close>.\<close>

definition is_whitespace :: "nat \<Rightarrow> bool" where
  "is_whitespace c \<longleftrightarrow> 9 \<le> c \<and> c \<le> 13 \<or> c = 0x20 \<or> c = 0x85 \<or> c = 0xA0 \<or> c = 0x1680 \<or>
     0x2000 \<le> c \<and> c \<le> 0x200A \<or> c = 0x2028 \<or> c = 0x2029 \<or> c = 0x202F \<or> c = 0x205F \<or> c = 0x3000"

definition trim :: "str \<Rightarrow> str" where
  "trim s = rev (dropWhile is_whitespace (rev (dropWhile is_whitespace s)))"

text \<open>\<open>str::lines\<close>: the pieces end with a newline, except perhaps the last; the newline and a
  carriage return before it are taken off.\<close>

fun split_inclusive :: "str \<Rightarrow> str list" where
  "split_inclusive [] = []"
| "split_inclusive (c # cs) =
     (if c = 10 then [10] # split_inclusive cs
      else case split_inclusive cs of [] \<Rightarrow> [[c]] | l # ls \<Rightarrow> (c # l) # ls)"

definition strip_suffix :: "nat \<Rightarrow> str \<Rightarrow> str option" where
  "strip_suffix c s = (if s \<noteq> [] \<and> last s = c then Some (butlast s) else None)"

definition line_content :: "str \<Rightarrow> str" where
  "line_content l =
     (case strip_suffix 10 l of
        None \<Rightarrow> l
      | Some l1 \<Rightarrow> (case strip_suffix 13 l1 of None \<Rightarrow> l1 | Some l2 \<Rightarrow> l2))"

definition str_lines :: "str \<Rightarrow> str list" where
  "str_lines s = map line_content (split_inclusive s)"

fun split_once :: "nat \<Rightarrow> str \<Rightarrow> (str \<times> str) option" where
  "split_once d [] = None"
| "split_once d (c # cs) =
     (if c = d then Some ([], cs) else map_option (\<lambda>(a, b). (c # a, b)) (split_once d cs))"

lemma dropWhile_keeps: "xs = [] \<or> \<not> P (hd xs) \<Longrightarrow> dropWhile P xs = xs"
  by (cases xs) auto

lemma trim_id: "s = [] \<or> \<not> is_whitespace (hd s) \<and> \<not> is_whitespace (last s) \<Longrightarrow> trim s = s"
  by (auto simp: trim_def dropWhile_keeps hd_rev)

lemma split_inclusive_line: "10 \<notin> set l \<Longrightarrow> split_inclusive (l @ 10 # rest) = (l @ [10]) # split_inclusive rest"
  by (induction l) auto

lemma line_content_newline: "l = [] \<or> last l \<noteq> 13 \<Longrightarrow> line_content (l @ [10]) = l"
  by (auto simp: line_content_def strip_suffix_def)

lemma split_once_first: "d \<notin> set a \<Longrightarrow> split_once d (a @ d # b) = Some (a, b)"
  by (induction a) auto

subsection \<open>Ordered maps from strings\<close>

text \<open>\<open>BTreeMap<String, String>\<close>: an association list in ascending order of the keys.\<close>

type_synonym 'v bt_map = "(str \<times> 'v) list"

fun bt_insert :: "str \<Rightarrow> 'v \<Rightarrow> 'v bt_map \<Rightarrow> 'v bt_map" where
  "bt_insert k v [] = [(k, v)]"
| "bt_insert k v ((k', v') # m) =
     (if k = k' then (k, v) # m
      else if k < k' then (k, v) # (k', v') # m
      else (k', v') # bt_insert k v m)"

fun bt_extend :: "'v bt_map \<Rightarrow> 'v bt_map \<Rightarrow> 'v bt_map" where
  "bt_extend m [] = m"
| "bt_extend m ((k, v) # kvs) = bt_extend (bt_insert k v m) kvs"

definition bt_ordered :: "'v bt_map \<Rightarrow> bool" where
  "bt_ordered m \<longleftrightarrow> sorted_wrt (<) (map fst m)"

lemma bt_insert_keys: "fst ` set (bt_insert k v m) = insert k (fst ` set m)"
  by (induction k v m rule: bt_insert.induct) auto

lemma bt_insert_ordered: "bt_ordered m \<Longrightarrow> bt_ordered (bt_insert k v m)"
proof (induction k v m rule: bt_insert.induct)
  case (2 k v k' v' m)
  then show ?case
    using bt_insert_keys [of k v m] less_trans [of k k'] by (fastforce simp: bt_ordered_def image_iff)
qed (simp add: bt_ordered_def)

lemma map_of_bt_insert: "map_of (bt_insert k v m) = (map_of m)(k \<mapsto> v)"
  by (induction k v m rule: bt_insert.induct) (auto simp: fun_eq_iff)

lemma bt_extend_ordered: "bt_ordered m \<Longrightarrow> bt_ordered (bt_extend m kvs)"
  by (induction m kvs rule: bt_extend.induct) (simp_all add: bt_insert_ordered)

lemma bt_ordered_distinct: "bt_ordered m \<Longrightarrow> distinct (map fst m)"
  unfolding bt_ordered_def by (rule strict_sorted_iff [THEN iffD1, THEN conjunct2])

lemma map_of_bt_extend: "distinct (map fst kvs) \<Longrightarrow> map_of (bt_extend m kvs) = map_of m ++ map_of kvs"
proof (induction m kvs rule: bt_extend.induct)
  case (2 m k v kvs)
  have "k \<notin> dom (map_of kvs)" using 2(2) by (auto simp: dom_map_of_conv_image_fst)
  then show ?case using 2 by (auto simp: map_of_bt_insert fun_eq_iff map_add_def split: option.splits)
qed simp

lemma bt_insert_last: "\<forall>k' \<in> fst ` set m. k' < k \<Longrightarrow> bt_insert k v m = m @ [(k, v)]"
  by (induction k v m rule: bt_insert.induct) (auto dest: less_not_sym)

subsection \<open>Socket addresses\<close>

text \<open>
  \<open>SocketAddr::from_str\<close>: a reader takes a prefix of the text; \<open>None\<close> leaves the text untouched, as
  \<open>read_atomically\<close> does. The scope of an IPv6 address is read and dropped.
\<close>

definition to_digit :: "nat \<Rightarrow> nat \<Rightarrow> nat option" where
  "to_digit radix c =
     (let d = (if 48 \<le> c \<and> c \<le> 57 then c - 48 else if 97 \<le> c \<and> c \<le> 122 then c - 87
               else if 65 \<le> c \<and> c \<le> 90 then c - 55 else radix)
      in if d < radix then Some d else None)"

fun read_digits :: "nat \<Rightarrow> nat \<Rightarrow> nat option \<Rightarrow> nat \<Rightarrow> nat \<Rightarrow> str \<Rightarrow> (nat \<times> nat \<times> str) option" where
  "read_digits radix bound max_digits result digit_count [] = Some (result, digit_count, [])"
| "read_digits radix bound max_digits result digit_count (c # cs) =
     (case to_digit radix c of
        None \<Rightarrow> Some (result, digit_count, c # cs)
      | Some d \<Rightarrow>
          if result * radix + d > bound then None
          else if (case max_digits of None \<Rightarrow> False | Some m \<Rightarrow> digit_count + 1 > m) then None
          else read_digits radix bound max_digits (result * radix + d) (digit_count + 1) cs)"

definition read_number :: "nat \<Rightarrow> nat \<Rightarrow> nat option \<Rightarrow> bool \<Rightarrow> str \<Rightarrow> (nat \<times> str) option" where
  "read_number radix bound max_digits allow_zero_prefix s = do {
     (result, digit_count, rest) \<leftarrow> read_digits radix bound max_digits 0 0 s;
     if digit_count = 0 then None
     else if \<not> allow_zero_prefix \<and> hd s = 48 \<and> digit_count > 1 then None
     else Some (result, rest)
   }"

definition read_given_char :: "nat \<Rightarrow> str \<Rightarrow> str option" where
  "read_given_char c s = (if s \<noteq> [] \<and> hd s = c then Some (tl s) else None)"

text \<open>\<open>read_separator\<close>: a separator before every item but the first.\<close>

definition read_separator :: "nat \<Rightarrow> nat \<Rightarrow> (str \<Rightarrow> ('a \<times> str) option) \<Rightarrow> str \<Rightarrow> ('a \<times> str) option" where
  "read_separator sep index inner s = Option.bind (if index > 0 then read_given_char sep s else Some s) inner"

definition read_octet :: "nat \<Rightarrow> str \<Rightarrow> (nat \<times> str) option" where
  "read_octet index = read_separator 46 index (read_number 10 255 (Some 3) False)"

definition read_ipv4_addr :: "str \<Rightarrow> ((nat \<times> nat \<times> nat \<times> nat) \<times> str) option" where
  "read_ipv4_addr s = do {
     (a, s1) \<leftarrow> read_octet 0 s;
     (b, s2) \<leftarrow> read_octet 1 s1;
     (c, s3) \<leftarrow> read_octet 2 s2;
     (d, s4) \<leftarrow> read_octet 3 s3;
     Some ((a, b, c, d), s4)
   }"

text \<open>Up to \<open>limit\<close> groups of an IPv6 address, and whether the last two came from an IPv4 address.\<close>

function read_groups :: "nat \<Rightarrow> nat \<Rightarrow> str \<Rightarrow> nat list \<times> bool \<times> str" where
  "read_groups limit i s =
     (if i \<ge> limit then ([], False, s)
      else case (if i < limit - 1 then read_separator 58 i read_ipv4_addr s else None) of
        Some ((a, b, c, d), rest) \<Rightarrow> ([a * 256 + b, c * 256 + d], True, rest)
      | None \<Rightarrow>
          (case read_separator 58 i (read_number 16 65535 (Some 4) True) s of
             None \<Rightarrow> ([], False, s)
           | Some (g, rest) \<Rightarrow> let (gs, v4, rest') = read_groups limit (i + 1) rest in (g # gs, v4, rest')))"
  by pat_completeness auto
termination
  by (relation "measure (\<lambda>(limit, i, s). limit - i)") auto

declare read_groups.simps [simp del]

definition read_ipv6_addr :: "str \<Rightarrow> (nat list \<times> str) option" where
  "read_ipv6_addr s =
     (let (head, head_ipv4, s1) = read_groups 8 0 s in
      if length head = 8 then Some (head, s1)
      else if head_ipv4 then None
      else do {
        s2 \<leftarrow> read_given_char 58 s1;
        s3 \<leftarrow> read_given_char 58 s2;
        let (tail, _, s4) = read_groups (8 - (length head + 1)) 0 s3;
        Some (head @ replicate (8 - length head - length tail) 0 @ tail, s4)
      })"

definition read_port :: "str \<Rightarrow> (nat \<times> str) option" where
  "read_port s = Option.bind (read_given_char 58 s) (read_number 10 65535 None True)"

definition read_socket_addr_v4 :: "str \<Rightarrow> (SocketAddr \<times> str) option" where
  "read_socket_addr_v4 s = do {
     ((a, b, c, d), s1) \<leftarrow> read_ipv4_addr s;
     (p, s2) \<leftarrow> read_port s1;
     Some (\<lparr>ip = V4 a b c d, port = p\<rparr>, s2)
   }"

definition read_scope_id :: "str \<Rightarrow> str" where
  "read_scope_id s =
     (case Option.bind (read_given_char 37 s) (read_number 10 4294967295 None True) of
        None \<Rightarrow> s
      | Some (_, rest) \<Rightarrow> rest)"

definition read_socket_addr_v6 :: "str \<Rightarrow> (SocketAddr \<times> str) option" where
  "read_socket_addr_v6 s = do {
     s1 \<leftarrow> read_given_char 91 s;
     (segments, s2) \<leftarrow> read_ipv6_addr s1;
     s3 \<leftarrow> read_given_char 93 (read_scope_id s2);
     (p, s4) \<leftarrow> read_port s3;
     Some (\<lparr>ip = V6 segments, port = p\<rparr>, s4)
   }"

definition parse_socket_addr :: "str \<Rightarrow> SocketAddr option" where
  "parse_socket_addr s =
     (case (case read_socket_addr_v4 s of Some r \<Rightarrow> Some r | None \<Rightarrow> read_socket_addr_v6 s) of
        Some (a, []) \<Rightarrow> Some a
      | _ \<Rightarrow> None)"

lemma parse_socket_addr_examples:
  "parse_socket_addr (ascii ''127.0.0.1:6379'') = Some \<lparr>ip = V4 127 0 0 1, port = 6379\<rparr>"
  "parse_socket_addr (ascii ''[::1]:80'') = Some \<lparr>ip = V6 [0, 0, 0, 0, 0, 0, 0, 1], port = 80\<rparr>"
  "parse_socket_addr (ascii ''[::ffff:10.0.0.1%7]:80'') = Some \<lparr>ip = V6 [0, 0, 0, 0, 0, 65535, 2560, 1], port = 80\<rparr>"
  "parse_socket_addr (ascii ''127.0.0.01:6379'') = None"
  "parse_socket_addr (ascii ''127.0.0.1'') = None"
  "parse_socket_addr (ascii ''127.0.0.1:65536'') = None"
  by code_simp+

text \<open>The text of an IPv4 socket address is read back as that address.\<close>

definition number_text :: "nat \<Rightarrow> str" where
  "number_text n = ascii (nat_to_string n)"

definition v4_text :: "nat \<Rightarrow> nat \<Rightarrow> nat \<Rightarrow> nat \<Rightarrow> nat \<Rightarrow> str" where
  "v4_text a b c d p =
     number_text a @ 46 # number_text b @ 46 # number_text c @ 46 # number_text d @ 58 # number_text p"

lemma to_digit_ascii: "is_ascii_digit c \<Longrightarrow> to_digit 10 (byte_of c) = Some (byte_of c - 48)"
  by (auto simp: to_digit_def is_ascii_digit_def Let_def)

lemma digits_value_ge: "digits_value acc ds = Some n \<Longrightarrow> acc \<le> n"
  by (induction acc ds rule: digits_value.induct) (auto split: if_splits)

lemma nat_to_string_no_zero_prefix: "0 < n \<Longrightarrow> hd (nat_to_string n) \<noteq> CHR ''0''"
proof (induction n rule: nat_to_string.induct)
  case (1 n)
  show ?case
  proof (cases "n < 10")
    case True
    then have "byte_of (digit_char n) \<noteq> byte_of (CHR ''0'')" using 1(2) byte_of_digit [of n] by (simp add: byte_of_def)
    then show ?thesis using True by (subst nat_to_string.simps) auto
  next
    case False
    then show ?thesis using 1(1) by (subst nat_to_string.simps) (simp add: hd_append)
  qed
qed

lemma read_digits_text:
  assumes "digits_value acc ds = Some n" and "n \<le> bound" and "rest = [] \<or> to_digit 10 (hd rest) = None"
    and "case max_digits of None \<Rightarrow> True | Some m \<Rightarrow> k + length ds \<le> m"
  shows "read_digits 10 bound max_digits acc k (ascii ds @ rest) = Some (n, k + length ds, rest)"
  using assms(1,4)
proof (induction acc ds arbitrary: k rule: digits_value.induct)
  case (1 acc)
  then show ?case using assms(3) by (cases rest) (auto simp: ascii_def)
next
  case (2 acc c cs)
  have digit: "is_ascii_digit c" and val: "digits_value (acc * 10 + (byte_of c - 48)) cs = Some n"
    using 2(2) by (auto split: if_splits)
  have "acc * 10 + (byte_of c - 48) \<le> bound" using digits_value_ge [OF val] assms(2) by simp
  then show ?case
    using 2(1) [OF digit val, of "k + 1"] 2(3) digit by (auto simp: ascii_def to_digit_ascii split: option.splits)
qed

lemma byte_of_zero: "byte_of c = 48 \<longleftrightarrow> c = CHR ''0''"
proof
  assume "byte_of c = 48"
  then have "char_of (byte_of c) = (char_of (48::nat) :: char)" by simp
  moreover have "(char_of (48::nat) :: char) = CHR ''0''" by code_simp
  ultimately show "c = CHR ''0''" by (simp add: byte_of_def)
qed (simp add: byte_of_def)

lemma read_number_text:
  assumes "n \<le> bound" and "rest = [] \<or> to_digit 10 (hd rest) = None"
    and "case max_digits of None \<Rightarrow> True | Some m \<Rightarrow> 0 < m \<and> n < 10 ^ m"
  shows "read_number 10 bound max_digits allow (number_text n @ rest) = Some (n, rest)"
proof -
  have len: "case max_digits of None \<Rightarrow> True | Some m \<Rightarrow> 0 + length (nat_to_string n) \<le> m"
    using assms(3) length_nat_to_string_le by (auto split: option.splits)
  have zero: "\<not> (hd (number_text n @ rest) = 48 \<and> length (nat_to_string n) > 1)"
  proof (cases "n = 0")
    case True
    then show ?thesis by (simp add: nat_to_string.simps)
  next
    case False
    then show ?thesis
      using nat_to_string_no_zero_prefix [of n] byte_of_zero by (cases "nat_to_string n") (auto simp: number_text_def ascii_def)
  qed
  show ?thesis
    using read_digits_text [OF digits_value_nat_to_string assms(1,2) len] zero
    by (simp add: read_number_def number_text_def)
qed

lemma read_v4_text:
  assumes "a < 256" "b < 256" "c < 256" "d < 256" "p < 65536"
  shows "parse_socket_addr (v4_text a b c d p) = Some \<lparr>ip = V4 a b c d, port = p\<rparr>"
proof -
  have sep: "to_digit 10 46 = None" "to_digit 10 58 = None" by code_simp+
  have octet: "read_number 10 255 (Some 3) False (number_text n @ rest) = Some (n, rest)"
    if "n < 256" "to_digit 10 (hd rest) = None" for n rest
    using that by (intro read_number_text) auto
  have port: "read_number 10 65535 None True (number_text p) = Some (p, [])"
    using read_number_text [of p 65535 "[]" None True] assms(5) by simp
  show ?thesis
    using assms sep port octet
    by (simp add: parse_socket_addr_def read_socket_addr_v4_def read_ipv4_addr_def read_octet_def read_separator_def
        read_given_char_def read_port_def v4_text_def)
qed

end
