(* ===== verification/Env_Settings.thy ===== *)
theory Env_Settings
  imports Rust_Text
begin

section \<open>Settings (crates/recall-server/src/settings.rs)\<close>

text \<open>
  Startup settings from four sources: command-line arguments, process environment, an environment
  file and the defaults, in this order of precedence. What the operating system provides is data: the
  environment is the list of its variables as bytes, and opening a path gives one of the outcomes
  below. Error messages are bytes.
\<close>

subsection \<open>Definitions\<close>

definition MAX_ENV_BYTES :: nat where "MAX_ENV_BYTES = 16 * 1024"

definition MAX_ENV_LINE_BYTES :: nat where "MAX_ENV_LINE_BYTES = 2048"

definition ENV_NAMES :: "str list" where
  "ENV_NAMES =
     [ascii ''RECALL_BIND'', ascii ''RECALL_WORKERS'', ascii ''RECALL_IO_THREADS'', ascii ''RECALL_MAX_MEMORY_MIB'',
      ascii ''RECALL_KEYS_PER_WORKER'', ascii ''RECALL_MAX_CONNECTIONS'', ascii ''RECALL_QUEUE_BYTES_MIB'',
      ascii ''RECALL_PASSWORD'']"

type_synonym Values = "str bt_map"

record Options =
  env_file :: "str option"
  explicit_file :: bool
  opt_values :: Values

definition validate_name :: "str \<Rightarrow> bytes + unit" where
  "validate_name key =
     (if key \<in> set ENV_NAMES then Inr () else Inl ''unknown Recall environment setting'')"

text \<open>\<open>parse_options\<close>: the name each option sets, and the loop over the arguments.\<close>

definition option_name :: "str \<Rightarrow> str option" where
  "option_name opt =
     map_of [(ascii ''--bind'', ascii ''RECALL_BIND''), (ascii ''--workers'', ascii ''RECALL_WORKERS''),
       (ascii ''--io-threads'', ascii ''RECALL_IO_THREADS''), (ascii ''--max-memory-mib'', ascii ''RECALL_MAX_MEMORY_MIB''),
       (ascii ''--keys-per-worker'', ascii ''RECALL_KEYS_PER_WORKER''),
       (ascii ''--max-connections'', ascii ''RECALL_MAX_CONNECTIONS''),
       (ascii ''--queue-bytes-mib'', ascii ''RECALL_QUEUE_BYTES_MIB'')] opt"

definition missing_value :: "str \<Rightarrow> bytes" where
  "missing_value opt = ''missing value for '' @ as_bytes opt"

definition duplicate_option :: "str \<Rightarrow> bytes" where
  "duplicate_option opt = ''duplicate option '' @ as_bytes opt"

function parse_options_loop :: "bool \<Rightarrow> Options \<Rightarrow> str list \<Rightarrow> bytes + Options" where
  "parse_options_loop file_option_seen options args =
     (case args of
        [] \<Rightarrow> Inr options
      | opt # rest \<Rightarrow>
          if opt = ascii ''--no-env-file'' then
            if file_option_seen then Inl ''choose only one environment-file option''
            else parse_options_loop True (options\<lparr>env_file := None\<rparr>) rest
          else if opt = ascii ''--env-file'' then
            if file_option_seen then Inl ''choose only one environment-file option''
            else case rest of
              [] \<Rightarrow> Inl ''--env-file requires a path''
            | path # rest' \<Rightarrow>
                if path = [] then Inl ''--env-file requires a nonempty path''
                else parse_options_loop True (options\<lparr>explicit_file := True, env_file := Some path\<rparr>) rest'
          else case option_name opt of
            None \<Rightarrow> Inl ''unknown option; use --help''
          | Some name \<Rightarrow>
              (case rest of
                 [] \<Rightarrow> Inl (missing_value opt)
               | value # rest' \<Rightarrow>
                   if map_of (opt_values options) name \<noteq> None then Inl (duplicate_option opt)
                   else parse_options_loop file_option_seen
                     (options\<lparr>opt_values := bt_insert name value (opt_values options)\<rparr>) rest'))"
  by pat_completeness auto
termination
  by (relation "measure (\<lambda>(seen, options, args). length args)") auto

declare parse_options_loop.simps [simp del]

definition parse_options :: "str list \<Rightarrow> bytes + Options" where
  "parse_options args =
     parse_options_loop False \<lparr>env_file = Some (ascii ''.env''), explicit_file = False, opt_values = []\<rparr> args"

text \<open>\<open>parse_values\<close>: the value of one assignment, and the loop over the lines.\<close>

definition unquote :: "str \<Rightarrow> str option" where
  "unquote raw =
     (if raw \<noteq> [] \<and> (hd raw = 39 \<or> hd raw = 34) then
        (let bytes = as_bytes raw in
         if length bytes < 2 \<or> last bytes \<noteq> hd bytes then None else Some (butlast (tl raw)))
      else Some raw)"

definition invalid_line :: "nat \<Rightarrow> bytes" where
  "invalid_line index = ''invalid environment assignment at line '' @ nat_to_string (index + 1)"

definition duplicate_line :: "nat \<Rightarrow> bytes" where
  "duplicate_line index = ''duplicate environment assignment at line '' @ nat_to_string (index + 1)"

fun parse_values_loop :: "nat \<Rightarrow> Values \<Rightarrow> str list \<Rightarrow> bytes + Values" where
  "parse_values_loop index vals [] = Inr vals"
| "parse_values_loop index vals (l # rest) =
     (if length (as_bytes l) > MAX_ENV_LINE_BYTES \<or> 0 \<in> set l then Inl (invalid_line index)
      else let trimmed = trim l in
        if trimmed = [] \<or> hd trimmed = 35 then parse_values_loop (index + 1) vals rest
        else case split_once 61 trimmed of
          None \<Rightarrow> Inl (invalid_line index)
        | Some (key, raw_value) \<Rightarrow>
            (case validate_name (trim key) of
               Inl _ \<Rightarrow> Inl (invalid_line index)
             | Inr _ \<Rightarrow>
                 (case unquote (trim raw_value) of
                    None \<Rightarrow> Inl (invalid_line index)
                  | Some value \<Rightarrow>
                      if map_of vals (trim key) \<noteq> None then Inl (duplicate_line index)
                      else parse_values_loop (index + 1) (bt_insert (trim key) value vals) rest)))"

definition parse_values :: "str \<Rightarrow> bytes + Values" where
  "parse_values text = parse_values_loop 0 [] (str_lines (dropWhile (\<lambda>c. c = 0xFEFF) text))"

text \<open>What opening, inspecting and reading a path gives.\<close>

datatype FileOutcome = NotFound | OpenFailed bytes | CannotInspect | NotRegular | ReadFails | Content bytes

definition read_values :: "bytes \<Rightarrow> bytes + Values" where
  "read_values content =
     (let input = take (MAX_ENV_BYTES + 1) content in
      if length input > MAX_ENV_BYTES then Inl ''environment file exceeds 16 KiB''
      else case from_utf8 input of
        None \<Rightarrow> Inl ''environment file must be UTF-8''
      | Some text \<Rightarrow> parse_values text)"

definition number :: "str \<Rightarrow> str \<Rightarrow> bytes + nat" where
  "number key value =
     (if value = [] \<or> \<not> list_all is_ascii_digit (as_bytes value)
      then Inl (as_bytes key @ '' requires a nonnegative decimal integer'')
      else case parse_usize (as_bytes value) of
        None \<Rightarrow> Inl (as_bytes key @ '' is out of range'')
      | Some n \<Rightarrow> Inr n)"

definition mib :: "str \<Rightarrow> str \<Rightarrow> bytes + nat" where
  "mib key value =
     (case number key value of
        Inl e \<Rightarrow> Inl e
      | Inr n \<Rightarrow>
          (case usize_checked_mul n (1024 * 1024) of
             None \<Rightarrow> Inl (as_bytes key @ '' is out of range'')
           | Some b \<Rightarrow> Inr b))"

text \<open>\<open>from_sources\<close>: one setting, all settings in the order of their names, and the whole.\<close>

definition apply_setting :: "str \<Rightarrow> str \<Rightarrow> Config \<Rightarrow> bytes + Config" where
  "apply_setting key value config =
     (if key = ascii ''RECALL_BIND'' then
        (case parse_socket_addr value of
           None \<Rightarrow> Inl ''RECALL_BIND requires an IP:port''
         | Some a \<Rightarrow> Inr (config\<lparr>bind_addr := a\<rparr>))
      else if key = ascii ''RECALL_WORKERS'' then map_sum id (\<lambda>n. config\<lparr>workers := n\<rparr>) (number key value)
      else if key = ascii ''RECALL_IO_THREADS'' then map_sum id (\<lambda>n. config\<lparr>io_threads := n\<rparr>) (number key value)
      else if key = ascii ''RECALL_MAX_MEMORY_MIB'' then map_sum id (\<lambda>n. config\<lparr>cfg_max_payload_bytes := n\<rparr>) (mib key value)
      else if key = ascii ''RECALL_KEYS_PER_WORKER'' then map_sum id (\<lambda>n. config\<lparr>keys_per_worker := n\<rparr>) (number key value)
      else if key = ascii ''RECALL_MAX_CONNECTIONS'' then map_sum id (\<lambda>n. config\<lparr>max_connections := n\<rparr>) (number key value)
      else if key = ascii ''RECALL_QUEUE_BYTES_MIB'' then map_sum id (\<lambda>n. config\<lparr>queue_bytes := n\<rparr>) (mib key value)
      else if key = ascii ''RECALL_PASSWORD'' then Inr (config\<lparr>password := Some (as_bytes value)\<rparr>)
      else Inl ''unknown Recall environment setting'')"

fun apply_settings :: "Values \<Rightarrow> Config \<Rightarrow> bytes + Config" where
  "apply_settings [] config = Inr config"
| "apply_settings ((key, value) # rest) config =
     (case apply_setting key value config of Inl e \<Rightarrow> Inl e | Inr config' \<Rightarrow> apply_settings rest config')"

definition from_sources :: "nat option \<Rightarrow> Values \<Rightarrow> Values \<Rightarrow> Values \<Rightarrow> bytes + Config" where
  "from_sources available_parallelism file process args =
     (case apply_settings (bt_extend (bt_extend file process) args) (Config_default available_parallelism) of
        Inl e \<Rightarrow> Inl e
      | Inr config \<Rightarrow> (case validate config of Inl e \<Rightarrow> Inl e | Inr _ \<Rightarrow> Inr config))"

text \<open>\<open>load\<close>: the variables whose names start with \<open>RECALL_\<close>, the environment file, and the sources together.\<close>

fun process_values :: "Values \<Rightarrow> (bytes \<times> bytes) list \<Rightarrow> bytes + Values" where
  "process_values process [] = Inr process"
| "process_values process ((k, v) # vars) =
     (case from_utf8 k of
        None \<Rightarrow> process_values process vars
      | Some key \<Rightarrow>
          if take 7 key \<noteq> ascii ''RECALL_'' then process_values process vars
          else case validate_name key of
            Inl e \<Rightarrow> Inl e
          | Inr _ \<Rightarrow>
              (case from_utf8 v of
                 None \<Rightarrow> Inl (as_bytes key @ '' must be valid UTF-8'')
               | Some value \<Rightarrow>
                   if length (as_bytes value) > MAX_ENV_LINE_BYTES
                   then Inl (as_bytes key @ '' exceeds the configuration value limit'')
                   else process_values (bt_insert key value process) vars))"

definition file_values :: "(str \<Rightarrow> FileOutcome) \<Rightarrow> Options \<Rightarrow> bytes + Values" where
  "file_values files options =
     (case env_file options of
        None \<Rightarrow> Inr []
      | Some path \<Rightarrow>
          (case files path of
             Content content \<Rightarrow> read_values content
           | ReadFails \<Rightarrow> Inl ''cannot read environment file''
           | CannotInspect \<Rightarrow> Inl ''cannot inspect environment file''
           | NotRegular \<Rightarrow> Inl ''environment path must be a regular file''
           | NotFound \<Rightarrow>
               if \<not> explicit_file options then Inr []
               else Inl ''cannot read environment file: entity not found''
           | OpenFailed kind \<Rightarrow> Inl (''cannot read environment file: '' @ kind)))"

definition load :: "nat option \<Rightarrow> (bytes \<times> bytes) list \<Rightarrow> (str \<Rightarrow> FileOutcome) \<Rightarrow> str list \<Rightarrow> bytes + Config" where
  "load available_parallelism vars files args =
     (case parse_options args of
        Inl e \<Rightarrow> Inl e
      | Inr options \<Rightarrow>
          (case process_values [] vars of
             Inl e \<Rightarrow> Inl e
           | Inr process \<Rightarrow>
               (case file_values files options of
                  Inl e \<Rightarrow> Inl e
                | Inr file \<Rightarrow> from_sources available_parallelism file process (opt_values options))))"

subsection \<open>Precedence\<close>

text \<open>The number a decimal text denotes, if it is a \<open>usize\<close>, and the same as a number of MiB.\<close>

definition decimal :: "str \<Rightarrow> nat option" where
  "decimal v = (if v = [] then None
     else case digits_value 0 (as_bytes v) of None \<Rightarrow> None | Some n \<Rightarrow> if n \<le> usize_max then Some n else None)"

definition mebibytes :: "str \<Rightarrow> nat option" where
  "mebibytes v = (case decimal v of None \<Rightarrow> None
     | Some n \<Rightarrow> if n * 1048576 \<le> usize_max then Some (n * 1048576) else None)"

definition setting :: "(str \<Rightarrow> 'a option) \<Rightarrow> 'a \<Rightarrow> str option \<Rightarrow> 'a option" where
  "setting f d v = (case v of None \<Rightarrow> Some d | Some x \<Rightarrow> f x)"

lemma setting_simps [simp]: "setting f d None = Some d" "setting f d (Some x) = f x"
  by (simp_all add: setting_def)

text \<open>The configuration that a map of settings asks for, on top of a configuration of defaults.\<close>

definition configured :: "(str \<rightharpoonup> str) \<Rightarrow> Config \<Rightarrow> Config option" where
  "configured m d = do {
     addr \<leftarrow> setting parse_socket_addr (bind_addr d) (m (ascii ''RECALL_BIND''));
     owners \<leftarrow> setting decimal (workers d) (m (ascii ''RECALL_WORKERS''));
     threads \<leftarrow> setting decimal (io_threads d) (m (ascii ''RECALL_IO_THREADS''));
     memory \<leftarrow> setting mebibytes (cfg_max_payload_bytes d) (m (ascii ''RECALL_MAX_MEMORY_MIB''));
     keys \<leftarrow> setting decimal (keys_per_worker d) (m (ascii ''RECALL_KEYS_PER_WORKER''));
     clients \<leftarrow> setting decimal (max_connections d) (m (ascii ''RECALL_MAX_CONNECTIONS''));
     queue \<leftarrow> setting mebibytes (queue_bytes d) (m (ascii ''RECALL_QUEUE_BYTES_MIB''));
     pw \<leftarrow> setting (\<lambda>v. Some (Some (as_bytes v))) (password d) (m (ascii ''RECALL_PASSWORD''));
     Some (d\<lparr>bind_addr := addr, workers := owners, io_threads := threads, cfg_max_payload_bytes := memory,
       keys_per_worker := keys, max_connections := clients, queue_bytes := queue, password := pw\<rparr>)
   }"

lemma ascii_eq [simp]: "ascii a = ascii b \<longleftrightarrow> a = b"
  by (auto simp: ascii_def byte_of_def inj_on_def intro: map_injective)

lemma digits_value_all: "digits_value acc bs \<noteq> None \<longleftrightarrow> list_all is_ascii_digit bs"
  by (induction acc bs rule: digits_value.induct) auto

lemma plus_not_digit: "\<not> is_ascii_digit (CHR ''+'')"
  by (simp add: is_ascii_digit_def byte_of_def)

lemma as_bytes_nil [simp]: "as_bytes s = [] \<longleftrightarrow> s = []"
  by (cases s) (auto simp: as_bytes_def)

lemma number_decimal: "(\<exists>e. number key v = Inl e) \<and> decimal v = None \<or> (\<exists>n. number key v = Inr n \<and> decimal v = Some n)"
proof (cases "v = [] \<or> \<not> list_all is_ascii_digit (as_bytes v)")
  case True
  then show ?thesis using digits_value_all [of 0 "as_bytes v"] by (auto simp: number_def decimal_def)
next
  case False
  then obtain n where n: "digits_value 0 (as_bytes v) = Some n" using digits_value_all [of 0 "as_bytes v"] by auto
  have "hd (as_bytes v) \<noteq> CHR ''+''"
    using False plus_not_digit by (cases "as_bytes v") auto
  then have "parse_usize (as_bytes v) = (if n \<le> usize_max then Some n else None)"
    using n False by (simp add: parse_usize_def)
  then show ?thesis using n False by (simp add: number_def decimal_def)
qed

lemma mib_mebibytes: "(\<exists>e. mib key v = Inl e) \<and> mebibytes v = None \<or> (\<exists>n. mib key v = Inr n \<and> mebibytes v = Some n)"
  using number_decimal [of key v] by (auto simp: mib_def mebibytes_def usize_checked_mul_def split: sum.splits)

lemma decimal_number: "decimal v = (case number key v of Inl e \<Rightarrow> None | Inr n \<Rightarrow> Some n)"
  using number_decimal [of key v] by auto

lemma mebibytes_mib: "mebibytes v = (case mib key v of Inl e \<Rightarrow> None | Inr n \<Rightarrow> Some n)"
  using mib_mebibytes [of key v] by auto

lemma apply_setting_configured:
  assumes "m k = None" and k: "k \<in> set ENV_NAMES"
  shows "(case apply_setting k v d of Inl e \<Rightarrow> None | Inr d1 \<Rightarrow> configured m d1) = configured (m(k \<mapsto> v)) d"
proof (cases d)
  case fields
  consider "k = ascii ''RECALL_BIND''" | "k = ascii ''RECALL_WORKERS''" | "k = ascii ''RECALL_IO_THREADS''"
    | "k = ascii ''RECALL_MAX_MEMORY_MIB''" | "k = ascii ''RECALL_KEYS_PER_WORKER''"
    | "k = ascii ''RECALL_MAX_CONNECTIONS''" | "k = ascii ''RECALL_QUEUE_BYTES_MIB''" | "k = ascii ''RECALL_PASSWORD''"
    using k by (auto simp: ENV_NAMES_def)
  then show ?thesis
    by cases (use assms(1) decimal_number [of v k] mebibytes_mib [of v k] fields in
      \<open>simp_all add: apply_setting_def configured_def Option.bind_rzero split: sum.split option.split\<close>)
qed

lemma apply_settings_configured:
  "distinct (map fst m) \<Longrightarrow> (\<exists>e. apply_settings m d = Inl e) \<and> (\<not> fst ` set m \<subseteq> set ENV_NAMES \<or> configured (map_of m) d = None) \<or>
     (\<exists>c. apply_settings m d = Inr c \<and> fst ` set m \<subseteq> set ENV_NAMES \<and> configured (map_of m) d = Some c)"
proof (induction m d rule: apply_settings.induct)
  case (1 d)
  show ?case by (simp add: configured_def)
next
  case (2 k v m d)
  show ?case
  proof (cases "k \<in> set ENV_NAMES")
    case False
    then have "\<exists>e. apply_setting k v d = Inl e" by (simp add: apply_setting_def ENV_NAMES_def)
    then show ?thesis using False by auto
  next
    case True
    have none: "map_of m k = None" using 2(2) by (simp add: map_of_eq_None_iff)
    note step = apply_setting_configured [of "map_of m" k v d, OF none True, unfolded fun_upd_def]
    show ?thesis
    proof (cases "apply_setting k v d")
      case (Inl e)
      then show ?thesis using step by auto
    next
      case (Inr d1)
      then show ?thesis using 2(1) [OF Inr] 2(2) step True by simp
    qed
  qed
qed

text \<open>
  Claim C19. Settings have the documented precedence and nothing else influences the configuration:
  loading succeeds exactly if every source names only known settings, the value that takes effect for
  each of them (from the arguments, else from the process environment, else from the file) is well
  formed and in range, and the configuration they give is valid; and the result is then the default
  configuration with exactly these settings changed.
\<close>

theorem settings_precedence:
  assumes "bt_ordered file" and "bt_ordered process" and "bt_ordered args"
  shows "from_sources cpus file process args = Inr c \<longleftrightarrow>
    (let m = map_of file ++ map_of process ++ map_of args in
     dom m \<subseteq> set ENV_NAMES \<and> configured m (Config_default cpus) = Some c \<and> validate c = Inr ())"
proof -
  let ?m = "bt_extend (bt_extend file process) args"
  have m: "map_of ?m = map_of file ++ map_of process ++ map_of args"
    using assms by (simp add: map_of_bt_extend bt_ordered_distinct)
  have d: "distinct (map fst ?m)" by (intro bt_ordered_distinct bt_extend_ordered assms)
  have keys: "fst ` set ?m = dom (map_of ?m)" by (simp add: dom_map_of_conv_image_fst)
  show ?thesis
    using apply_settings_configured [OF d, of "Config_default cpus"] unfolding keys m from_sources_def Let_def
    by (auto split: sum.splits)
qed

theorem settings_precedence_witness:
  "from_sources (Some 8) [(ascii ''RECALL_IO_THREADS'', ascii ''1''), (ascii ''RECALL_WORKERS'', ascii ''1'')]
     [(ascii ''RECALL_IO_THREADS'', ascii ''2''), (ascii ''RECALL_WORKERS'', ascii ''2'')] [(ascii ''RECALL_WORKERS'', ascii ''3'')] =
     Inr ((Config_default (Some 8))\<lparr>workers := 3, io_threads := 2\<rparr>)"
proof -
  have o: "bt_ordered [(ascii ''RECALL_IO_THREADS'', ascii ''1''), (ascii ''RECALL_WORKERS'', ascii ''1'')]"
    "bt_ordered [(ascii ''RECALL_IO_THREADS'', ascii ''2''), (ascii ''RECALL_WORKERS'', ascii ''2'')]"
    "bt_ordered [(ascii ''RECALL_WORKERS'', ascii ''3'')]"
    by code_simp+
  have v: "decimal (ascii ''2'') = Some 2" "decimal (ascii ''3'') = Some 3"
    "validate ((Config_default (Some 8))\<lparr>workers := 3, io_threads := 2\<rparr>) = Inr ()"
    by code_simp+
  show ?thesis
    unfolding settings_precedence [OF o] using v
    by (cases "Config_default (Some 8)") (auto simp: Let_def ENV_NAMES_def configured_def split: if_splits)
qed

subsection \<open>Diagnostics\<close>

definition option_names :: "str list" where
  "option_names = map ascii [''--bind'', ''--workers'', ''--io-threads'', ''--max-memory-mib'', ''--keys-per-worker'',
     ''--max-connections'', ''--queue-bytes-mib'']"

definition fixed_diagnostics :: "bytes list" where
  "fixed_diagnostics =
     [''choose only one environment-file option'', ''--env-file requires a path'', ''--env-file requires a nonempty path'',
      ''unknown option; use --help'', ''unknown Recall environment setting'', ''environment file exceeds 16 KiB'',
      ''environment file must be UTF-8'', ''cannot read environment file'', ''cannot inspect environment file'',
      ''environment path must be a regular file'', ''cannot read environment file: entity not found'',
      ''RECALL_BIND requires an IP:port'',
      ''this milestone permits loopback binds only; transport security is not implemented'',
      ''invalid worker, connection, queue, key, or payload limit'', ''timeouts and expiration budgets must be nonzero'',
      ''invalid protocol limits'', ''inconsistent or excessive protocol/command/reply limits'',
      ''the configured password must contain 1 to 1024 bytes'']"

definition name_problems :: "bytes list" where
  "name_problems = ['' requires a nonnegative decimal integer'', '' is out of range'', '' must be valid UTF-8'',
     '' exceeds the configuration value limit'']"

text \<open>Every message: fixed, about a line, about a known setting, or about a known option.\<close>

definition diagnostics :: "bytes set" where
  "diagnostics = set fixed_diagnostics \<union> range invalid_line \<union> range duplicate_line \<union>
     {as_bytes name @ problem | name problem. name \<in> set ENV_NAMES \<and> problem \<in> set name_problems} \<union>
     missing_value ` set option_names \<union> duplicate_option ` set option_names"

lemma fixed_diagnostics_all: "list_all (\<lambda>e. e \<in> diagnostics) fixed_diagnostics"
  by (simp add: list_all_iff diagnostics_def)

lemmas fixed_in = fixed_diagnostics_all [unfolded fixed_diagnostics_def list.pred_inject]

lemma name_diagnostics:
  assumes "name \<in> set ENV_NAMES"
  shows "as_bytes name @ '' requires a nonnegative decimal integer'' \<in> diagnostics"
    "as_bytes name @ '' is out of range'' \<in> diagnostics"
    "as_bytes name @ '' must be valid UTF-8'' \<in> diagnostics"
    "as_bytes name @ '' exceeds the configuration value limit'' \<in> diagnostics"
proof -
  have "problem \<in> set name_problems \<Longrightarrow> as_bytes name @ problem \<in> diagnostics" for problem
    using assms by (auto simp: diagnostics_def)
  then show "as_bytes name @ '' requires a nonnegative decimal integer'' \<in> diagnostics"
    "as_bytes name @ '' is out of range'' \<in> diagnostics"
    "as_bytes name @ '' must be valid UTF-8'' \<in> diagnostics"
    "as_bytes name @ '' exceeds the configuration value limit'' \<in> diagnostics"
    by (simp_all add: name_problems_def)
qed

lemma line_diagnostics: "invalid_line index \<in> diagnostics" "duplicate_line index \<in> diagnostics"
  by (simp_all add: diagnostics_def)

lemma option_diagnostics:
  assumes "option_name opt = Some name"
  shows "missing_value opt \<in> diagnostics" "duplicate_option opt \<in> diagnostics"
proof -
  have "opt \<in> set option_names"
    using assms by (auto simp: option_name_def option_names_def split: if_splits)
  then show "missing_value opt \<in> diagnostics" "duplicate_option opt \<in> diagnostics" by (simp_all add: diagnostics_def)
qed

lemma parse_options_diagnostic:
  "parse_options_loop seen options args = Inl e \<Longrightarrow> e \<in> diagnostics"
proof (induction seen options args rule: parse_options_loop.induct)
  case (1 seen options args)
  show ?case
  proof (cases args)
    case Nil
    then show ?thesis using 1(4) by (simp add: parse_options_loop.simps)
  next
    case (Cons opt rest)
    note eq = 1(4) [unfolded Cons, unfolded parse_options_loop.simps [of seen options "opt # rest"] list.case]
    show ?thesis
      using eq 1(1-3) [OF Cons] option_diagnostics [of opt]
      by (auto simp: fixed_in split: list.split_asm if_split_asm option.split_asm)
  qed
qed

lemma validate_name_diagnostic: "validate_name key = Inl e \<Longrightarrow> e \<in> diagnostics"
  by (auto simp: validate_name_def fixed_in split: if_splits)

lemma validate_name_known: "validate_name key = Inr u \<Longrightarrow> key \<in> set ENV_NAMES"
  by (auto simp: validate_name_def split: if_splits)

lemma parse_values_diagnostic: "parse_values_loop index vals ls = Inl e \<Longrightarrow> e \<in> diagnostics"
  by (induction index vals ls rule: parse_values_loop.induct)
    (auto simp: Let_def line_diagnostics split: if_split_asm option.split_asm sum.split_asm prod.split_asm)

lemma process_values_diagnostic: "process_values process vars = Inl e \<Longrightarrow> e \<in> diagnostics"
  by (induction process vars rule: process_values.induct)
    (auto split: if_split_asm option.split_asm sum.split_asm
      dest: validate_name_diagnostic validate_name_known intro: name_diagnostics)

lemma validate_diagnostic: "validate c = Inl e \<Longrightarrow> e \<in> diagnostics"
  by (auto simp: fixed_in validate_def invalid_def Limits_validate_def split: if_split_asm sum.split_asm)

lemma number_diagnostic: "number k v = Inl e \<Longrightarrow> k \<in> set ENV_NAMES \<Longrightarrow> e \<in> diagnostics"
  by (auto simp: number_def split: if_split_asm option.split_asm intro: name_diagnostics)

lemma mib_diagnostic: "mib k v = Inl e \<Longrightarrow> k \<in> set ENV_NAMES \<Longrightarrow> e \<in> diagnostics"
  by (auto simp: mib_def split: sum.split_asm option.split_asm intro: name_diagnostics number_diagnostic)

lemma apply_setting_diagnostic:
  assumes "apply_setting k v d = Inl e"
  shows "e \<in> diagnostics"
proof (cases "k \<in> set ENV_NAMES")
  case False
  then show ?thesis using assms by (auto simp: apply_setting_def ENV_NAMES_def fixed_in)
next
  case True
  have map: "map_sum id f r = Inl e \<longleftrightarrow> r = Inl e" for f :: "nat \<Rightarrow> Config" and r by (cases r) auto
  have "number k v = Inl e \<or> mib k v = Inl e \<or> e \<in> diagnostics"
    using assms unfolding apply_setting_def by (auto simp: map fixed_in split: if_split_asm option.split_asm)
  then show ?thesis using number_diagnostic mib_diagnostic True by blast
qed

lemma apply_settings_diagnostic: "apply_settings m d = Inl e \<Longrightarrow> e \<in> diagnostics"
  by (induction m d rule: apply_settings.induct) (auto split: sum.split_asm intro: apply_setting_diagnostic)

lemma from_sources_diagnostic: "from_sources cpus file process args = Inl e \<Longrightarrow> e \<in> diagnostics"
  by (auto simp: from_sources_def split: sum.split_asm intro: apply_settings_diagnostic validate_diagnostic)

lemma file_values_diagnostic:
  assumes "file_values files options = Inl e"
  shows "e \<in> diagnostics \<or> (\<exists>path kind. files path = OpenFailed kind \<and> e = ''cannot read environment file: '' @ kind)"
  using assms parse_values_diagnostic
  by (auto simp: file_values_def read_values_def parse_values_def Let_def fixed_in
      split: option.split_asm FileOutcome.split_asm if_split_asm)

text \<open>
  Claim C36. No diagnostic can reveal a setting's value: whatever the arguments, the environment and the
  environment file hold, an error of \<open>load\<close> is one of a fixed collection of messages, which mention at
  most a line number, the name of a known setting or a known option; the only other text that can
  appear is the operating system's kind of a failure to open the file.
\<close>

theorem diagnostics_never_echo_values:
  assumes "load cpus vars files args = Inl e"
  shows "e \<in> diagnostics \<or> (\<exists>path kind. files path = OpenFailed kind \<and> e = ''cannot read environment file: '' @ kind)"
  using assms parse_options_diagnostic process_values_diagnostic file_values_diagnostic [of files] from_sources_diagnostic
  unfolding load_def parse_options_def by (auto split: sum.split_asm)

theorem diagnostics_never_echo_values_witness:
  "load None [] (\<lambda>_. Content ''RECALL_PASSWORD='' ) [] = Inl ''the configured password must contain 1 to 1024 bytes'' \<and>
   ''the configured password must contain 1 to 1024 bytes'' \<in> diagnostics"
proof -
  have "load None [] (\<lambda>_. Content ''RECALL_PASSWORD='' ) [] = Inl ''the configured password must contain 1 to 1024 bytes''"
    by code_simp
  then show ?thesis using diagnostics_never_echo_values by fastforce
qed

subsection \<open>Environment files\<close>

definition assignment :: "str \<times> str \<Rightarrow> str" where
  "assignment = (\<lambda>(key, value). key @ [61, 39] @ value @ [39])"

definition env_text :: "Values \<Rightarrow> str" where
  "env_text m = concat (map (\<lambda>kv. assignment kv @ [10]) m)"

definition storable :: "str \<times> str \<Rightarrow> bool" where
  "storable kv \<longleftrightarrow> fst kv \<in> set ENV_NAMES \<and> 10 \<notin> set (snd kv) \<and> 0 \<notin> set (snd kv) \<and>
     length (as_bytes (assignment kv)) \<le> MAX_ENV_LINE_BYTES"

lemma env_name_chars: "key \<in> set ENV_NAMES \<Longrightarrow>
    key \<noteq> [] \<and> hd key = 82 \<and> (\<forall>c \<in> set key. c \<noteq> 61 \<and> c \<noteq> 10 \<and> c \<noteq> 0 \<and> \<not> is_whitespace c)"
proof -
  have "list_all (\<lambda>key. key \<noteq> [] \<and> hd key = 82 \<and> list_all (\<lambda>c. c \<noteq> 61 \<and> c \<noteq> 10 \<and> c \<noteq> 0 \<and> \<not> is_whitespace c) key) ENV_NAMES"
    by code_simp
  then show "key \<in> set ENV_NAMES \<Longrightarrow>
      key \<noteq> [] \<and> hd key = 82 \<and> (\<forall>c \<in> set key. c \<noteq> 61 \<and> c \<noteq> 10 \<and> c \<noteq> 0 \<and> \<not> is_whitespace c)"
    unfolding list_all_iff by blast
qed

lemma as_bytes_quoted: "as_bytes ([39] @ v @ [39]) = [CHR 0x27] @ as_bytes v @ [CHR 0x27]"
proof -
  have "as_bytes [39] = [CHR 0x27]" by code_simp
  then show ?thesis by (simp only: as_bytes_append)
qed

lemma unquote_quoted: "unquote ([39] @ v @ [39]) = Some v"
  unfolding unquote_def as_bytes_quoted by (simp add: butlast_append)

lemma parse_assignment:
  assumes "storable (key, v)" and "key \<notin> fst ` set vals"
  shows "parse_values_loop index vals (assignment (key, v) # rest) =
    parse_values_loop (index + 1) (bt_insert key v vals) rest"
proof -
  have key: "key \<in> set ENV_NAMES" using assms(1) by (simp add: storable_def)
  note ch = env_name_chars [OF key]
  let ?l = "assignment (key, v)"
  have ws: "\<not> is_whitespace 39" by (simp add: is_whitespace_def)
  have l: "?l = key @ 61 # ([39] @ v @ [39])" by (simp add: assignment_def)
  have "hd ?l = 82" "?l \<noteq> []" "last ?l = 39" using ch by (simp_all add: l)
  then have trim_l: "trim ?l = ?l" using ws by (intro trim_id) (simp add: is_whitespace_def)
  have trim_key: "trim key = key" using ch last_in_set [of key] by (intro trim_id) (auto simp: is_whitespace_def)
  have trim_value: "trim ([39] @ v @ [39]) = [39] @ v @ [39]" using ws by (intro trim_id) simp
  have sp: "split_once 61 ?l = Some (key, [39] @ v @ [39])" unfolding l using ch by (intro split_once_first) auto
  have size: "\<not> length (as_bytes ?l) > MAX_ENV_LINE_BYTES" "0 \<notin> set ?l"
    using assms(1) ch by (auto simp: storable_def l)
  have new: "map_of vals key = None" using assms(2) by (simp add: map_of_eq_None_iff)
  have "validate_name key = Inr ()" using key by (simp add: validate_name_def)
  then show ?thesis
    using trim_l trim_key trim_value sp size new \<open>hd ?l = 82\<close> \<open>?l \<noteq> []\<close> unquote_quoted [of v]
    by (simp del: append_Cons append_Nil)
qed

lemma parse_env_lines:
  "list_all storable m \<Longrightarrow> bt_ordered (vals @ m) \<Longrightarrow>
   parse_values_loop index vals (map assignment m) = Inr (vals @ m)"
proof (induction m arbitrary: index vals)
  case (Cons kv m)
  obtain key v where kv: "kv = (key, v)" by (cases kv)
  have less: "\<forall>k' \<in> fst ` set vals. k' < key" using Cons.prems(2) kv by (auto simp: bt_ordered_def sorted_wrt_append)
  then have "key \<notin> fst ` set vals" by blast
  then show ?case
    using Cons kv bt_insert_last [OF less, of v] by (simp add: parse_assignment del: parse_values_loop.simps)
qed simp

lemma assignment_line:
  assumes "storable kv"
  shows "10 \<notin> set (assignment kv)" and "line_content (assignment kv @ [10]) = assignment kv"
proof -
  obtain key v where kv: "kv = (key, v)" by (cases kv)
  have "key \<in> set ENV_NAMES" "10 \<notin> set v" using assms kv by (simp_all add: storable_def)
  then show "10 \<notin> set (assignment kv)" using env_name_chars [of key] kv by (auto simp: assignment_def)
  have "last (assignment kv) = 39" using kv by (simp add: assignment_def)
  then show "line_content (assignment kv @ [10]) = assignment kv" by (intro line_content_newline) simp
qed

lemma str_lines_env_text: "list_all storable m \<Longrightarrow> str_lines (env_text m) = map assignment m"
proof (induction m)
  case (Cons kv m)
  have "split_inclusive (env_text (kv # m)) = (assignment kv @ [10]) # split_inclusive (env_text m)"
    using split_inclusive_line [OF assignment_line(1)] Cons.prems by (simp add: env_text_def)
  then show ?case using Cons assignment_line(2) by (simp add: str_lines_def)
qed (simp add: str_lines_def env_text_def)

text \<open>
  Claim C37. Values in an environment file are literal: writing settings one per line with the value in
  single quotes and reading the file back gives the same settings, whatever characters the values hold
  besides a newline and NUL (quotes, \<open>#\<close>, \<open>=\<close>, \<open>$\<close>, backslashes, spaces and carriage returns included),
  for settings that fit a line and a file that fits 16 KiB.
\<close>

theorem env_file_roundtrip:
  assumes "list_all storable m" and "bt_ordered m" and "list_all scalar (env_text m)"
    and "length (as_bytes (env_text m)) \<le> MAX_ENV_BYTES"
  shows "read_values (as_bytes (env_text m)) = Inr m"
proof -
  have head: "dropWhile (\<lambda>c. c = 0xFEFF) (env_text m) = env_text m"
  proof (cases m)
    case (Cons kv rest)
    then have "fst kv \<in> set ENV_NAMES" using assms(1) by (simp add: storable_def)
    then have "hd (env_text m) = 82" using env_name_chars [of "fst kv"] Cons by (cases kv) (simp add: env_text_def assignment_def)
    then show ?thesis by (intro dropWhile_keeps) simp
  qed (simp add: env_text_def)
  have "from_utf8 (as_bytes (env_text m)) = Some (env_text m)" using assms(3) from_utf8_iff by blast
  then show ?thesis
    using assms parse_env_lines [of m "[]" 0] str_lines_env_text
    by (simp add: read_values_def parse_values_def head)
qed

theorem env_file_roundtrip_witness:
  "read_values (as_bytes (env_text [(ascii ''RECALL_PASSWORD'', ascii ''a $HOME # 'literal' ''), (ascii ''RECALL_WORKERS'', ascii ''2'')])) =
     Inr [(ascii ''RECALL_PASSWORD'', ascii ''a $HOME # 'literal' ''), (ascii ''RECALL_WORKERS'', ascii ''2'')]"
  by (rule env_file_roundtrip) (code_simp+)

end
