(* ===== verification/Net_Server.thy ===== *)
theory Net_Server
  imports Net_Connection Engine_System
begin

section \<open>The server (crates/recall-server/src/lib.rs)\<close>

text \<open>
  \<open>Server::run\<close> accepts connections up to a limit, each with a permit of a semaphore and an identity,
  until the shutdown future completes or \<open>accept\<close> fails; then it stops accepting, tells the
  connections to stop, waits for all of them and shuts the engine down. Its \<open>select!\<close> loop and the end
  of connection tasks are events, in any order the runtime may produce. \<open>None\<close> is a call of \<open>fatal\<close>.
\<close>

subsection \<open>Definitions\<close>

datatype Phase = Accepting | Draining bool | ShutDown bool

text \<open>The flag of a phase after \<open>Accepting\<close>: whether \<open>run\<close> will return \<open>Ok\<close>.\<close>

record Server =
  sv_phase :: Phase
  sv_permits :: nat
  sv_metrics :: Metrics
  sv_live :: "nat list"
  sv_leaving :: nat
  sv_unjoined :: nat
  sv_stopping :: bool

definition Server_new :: "Config \<Rightarrow> Server" where
  "Server_new config =
     \<lparr>sv_phase = Accepting, sv_permits = max_connections config, sv_metrics = Metrics_default,
      sv_live = [], sv_leaving = 0, sv_unjoined = 0, sv_stopping = False\<rparr>"

text \<open>\<open>Server::bind\<close>: validate, bind the listener, start the engine.\<close>

datatype BindError = BindInvalid ConfigError | BindIo | BindEngine EngineError

definition Server_bind :: "allocator \<Rightarrow> bool \<Rightarrow> Config \<Rightarrow> BindError + Server \<times> Engine" where
  "Server_bind alloc listener_ok config =
     (case validate config of
        Inl e \<Rightarrow> Inl (BindInvalid e)
      | Inr _ \<Rightarrow>
          if \<not> listener_ok then Inl BindIo
          else case with_clock alloc config of
            Inl e \<Rightarrow> Inl (BindEngine e)
          | Inr engine \<Rightarrow> Inr (Server_new config, engine))"

definition ConnectionGuard_new :: "Metrics \<Rightarrow> Metrics" where
  "ConnectionGuard_new m = m\<lparr>active_connections := (active_connections m + 1) mod (usize_max + 1)\<rparr>"

definition ConnectionGuard_drop :: "Metrics \<Rightarrow> Metrics" where
  "ConnectionGuard_drop m = m\<lparr>active_connections := (active_connections m + usize_max) mod (usize_max + 1)\<rparr>"

datatype ServerEvent =
    Accepted
  | AcceptFailed
  | ShutdownRequested
  | ConnectionEnds nat
  | PermitReleased
  | TaskJoined bool
  | EngineStopped

text \<open>
  \<open>Accepted\<close>: a connection arrived. \<open>ConnectionEnds\<close>: the task of a connection drops its guard;
  \<open>PermitReleased\<close>: the permit in the guard follows, and the task is complete. \<open>TaskJoined\<close>: \<open>join_next\<close>
  returns a complete task, with whether it panicked. \<open>EngineStopped\<close>: all connections are joined and
  \<open>engine.shutdown()\<close> has returned.
\<close>

definition server_event :: "Server \<Rightarrow> ServerEvent \<Rightarrow> Server option option" where
  "server_event sv ev =
     (case ev of
        Accepted \<Rightarrow>
          if sv_phase sv \<noteq> Accepting then None
          else if sv_permits sv = 0 then
            Some (Some (sv\<lparr>sv_metrics := (sv_metrics sv)\<lparr>rejected_connections := fetch_add_one (rejected_connections (sv_metrics sv))\<rparr>\<rparr>))
          else
            let client = total_connections (sv_metrics sv) + 1 in
            Some (if int client > i64_max then None
                  else Some (sv\<lparr>sv_permits := sv_permits sv - 1,
                    sv_metrics := ConnectionGuard_new ((sv_metrics sv)\<lparr>total_connections := fetch_add_one (total_connections (sv_metrics sv))\<rparr>),
                    sv_live := client # sv_live sv\<rparr>))
      | AcceptFailed \<Rightarrow>
          if sv_phase sv \<noteq> Accepting then None
          else Some (Some (sv\<lparr>sv_phase := Draining False, sv_stopping := True\<rparr>))
      | ShutdownRequested \<Rightarrow>
          if sv_phase sv \<noteq> Accepting then None
          else Some (Some (sv\<lparr>sv_phase := Draining True, sv_stopping := True\<rparr>))
      | ConnectionEnds client \<Rightarrow>
          if client \<in> set (sv_live sv)
          then Some (Some (sv\<lparr>sv_live := removeAll client (sv_live sv), sv_leaving := sv_leaving sv + 1,
            sv_metrics := ConnectionGuard_drop (sv_metrics sv)\<rparr>))
          else None
      | PermitReleased \<Rightarrow>
          if sv_leaving sv = 0 then None
          else Some (Some (sv\<lparr>sv_leaving := sv_leaving sv - 1, sv_permits := sv_permits sv + 1, sv_unjoined := sv_unjoined sv + 1\<rparr>))
      | TaskJoined panicked \<Rightarrow>
          if sv_unjoined sv = 0 then None
          else Some (if panicked then None else Some (sv\<lparr>sv_unjoined := sv_unjoined sv - 1\<rparr>))
      | EngineStopped \<Rightarrow>
          (case sv_phase sv of
             Draining ok \<Rightarrow>
               if sv_live sv = [] \<and> sv_leaving sv = 0 \<and> sv_unjoined sv = 0
               then Some (Some (sv\<lparr>sv_phase := ShutDown ok\<rparr>)) else None
           | _ \<Rightarrow> None))"

text \<open>
  The outer \<open>None\<close> says that the event cannot happen in this state. A connection task never panics
  (\<open>connection\<close> is total), so the steps of the server have no panicked task.
\<close>

inductive server_step :: "Server \<Rightarrow> Server \<Rightarrow> bool" where
  "server_event sv ev = Some (Some sv') \<Longrightarrow> server_step sv sv'"

inductive_cases server_stepE: "server_step sv sv'"

subsection \<open>The connection limit\<close>

definition server_inv :: "Config \<Rightarrow> Server \<Rightarrow> bool" where
  "server_inv c sv \<longleftrightarrow> sv_permits sv + length (sv_live sv) + sv_leaving sv = max_connections c \<and>
     active_connections (sv_metrics sv) = length (sv_live sv) \<and> distinct (sv_live sv) \<and>
     (\<forall>client \<in> set (sv_live sv). 1 \<le> client \<and> client \<le> total_connections (sv_metrics sv)) \<and>
     int (total_connections (sv_metrics sv)) \<le> i64_max \<and>
     (sv_stopping sv \<longleftrightarrow> sv_phase sv \<noteq> Accepting) \<and>
     (\<forall>ok. sv_phase sv = ShutDown ok \<longrightarrow> sv_live sv = [] \<and> sv_leaving sv = 0 \<and> sv_unjoined sv = 0)"

lemma server_inv_new: "server_inv c (Server_new c)"
  by (simp add: server_inv_def Server_new_def Metrics_default_def i64_max_def)

lemma fetch_add_small: "int n < i64_max \<Longrightarrow> fetch_add_one n = n + 1"
  by (simp add: fetch_add_one_def u64_max_def i64_max_def)

lemma server_inv_step:
  assumes valid: "validate c = Inr ()" and inv: "server_inv c sv" and step: "server_step sv sv'"
  shows "server_inv c sv'"
proof -
  have mc: "max_connections c \<le> 65536" using valid by (auto simp: validate_def split: if_splits)
  have small: "length (sv_live sv) \<le> 65536" using inv mc by (auto simp: server_inv_def)
  from step obtain ev where ev: "server_event sv ev = Some (Some sv')" by (rule server_stepE)
  show ?thesis
  proof (cases ev)
    case Accepted
    show ?thesis
    proof (cases "sv_permits sv = 0")
      case True
      then show ?thesis using ev inv Accepted by (auto simp: server_event_def server_inv_def split: if_splits)
    next
      case False
      let ?n = "total_connections (sv_metrics sv)"
      have le: "int (?n + 1) \<le> i64_max" and acc: "sv_phase sv = Accepting"
        and sv': "sv' = sv\<lparr>sv_permits := sv_permits sv - 1,
          sv_metrics := ConnectionGuard_new ((sv_metrics sv)\<lparr>total_connections := fetch_add_one ?n\<rparr>), sv_live := (?n + 1) # sv_live sv\<rparr>"
        using ev Accepted False by (auto simp: server_event_def Let_def split: if_splits)
      have "fetch_add_one ?n = ?n + 1" using le by (intro fetch_add_small) simp
      moreover have "(length (sv_live sv) + 1) mod (usize_max + 1) = length (sv_live sv) + 1"
        using small by (simp add: usize_max_def)
      ultimately show ?thesis
        using inv le acc False unfolding sv' by (auto simp: server_inv_def ConnectionGuard_new_def)
    qed
  next
    case (ConnectionEnds client)
    have live: "client \<in> set (sv_live sv)" and sv': "sv' = sv\<lparr>sv_live := removeAll client (sv_live sv), sv_leaving := sv_leaving sv + 1,
        sv_metrics := ConnectionGuard_drop (sv_metrics sv)\<rparr>"
      using ev ConnectionEnds by (auto simp: server_event_def split: if_splits)
    have d: "distinct (sv_live sv)" "active_connections (sv_metrics sv) = length (sv_live sv)" using inv by (simp_all add: server_inv_def)
    obtain n where n: "length (sv_live sv) = Suc n" using live by (cases "sv_live sv") auto
    then have len: "length (removeAll client (sv_live sv)) = n"
      using live d(1) by (simp add: distinct_remove1_removeAll [symmetric] length_remove1)
    have "(Suc n + usize_max) mod (usize_max + 1) = n" using n small by (simp add: usize_max_def)
    then have "active_connections (ConnectionGuard_drop (sv_metrics sv)) = n" using d(2) n by (simp add: ConnectionGuard_drop_def)
    moreover have "total_connections (ConnectionGuard_drop (sv_metrics sv)) = total_connections (sv_metrics sv)"
      by (simp add: ConnectionGuard_drop_def)
    ultimately show ?thesis
      using inv d len n live unfolding sv' by (auto simp: server_inv_def distinct_removeAll)
  qed (use ev inv in \<open>auto simp: server_event_def server_inv_def split: if_splits Phase.splits\<close>)
qed

interpretation server: invariant_system "\<lambda>sv. validate c = Inr () \<and> sv = Server_new c"
    "\<lambda>sv sv'. validate c = Inr () \<and> server_step sv sv'" "server_inv c" for c
  by unfold_locales (auto intro: server_inv_new server_inv_step)

subsection \<open>The property\<close>

text \<open>
  Claim C26. The connection limit holds at all times and nothing is left behind: in every reachable state of
  the server the number of live connections is at most \<open>max_connections\<close>, the permits that are free,
  held by live connections or about to be released add up to the limit, the reported number of active
  connections is the true one, live connections have distinct identities, the connections are told to
  stop exactly once the server no longer accepts, and the server has shut down only when every
  connection has ended and been joined.
\<close>

theorem connection_limit_enforced:
  assumes "reach (\<lambda>sv. validate c = Inr () \<and> sv = Server_new c) (\<lambda>sv sv'. validate c = Inr () \<and> server_step sv sv') sv"
  shows "length (sv_live sv) \<le> max_connections c \<and>
    sv_permits sv + length (sv_live sv) + sv_leaving sv = max_connections c \<and>
    active_connections (sv_metrics sv) = length (sv_live sv) \<and> distinct (sv_live sv) \<and>
    (sv_stopping sv \<longleftrightarrow> sv_phase sv \<noteq> Accepting) \<and>
    (\<forall>ok. sv_phase sv = ShutDown ok \<longrightarrow> sv_live sv = [] \<and> sv_leaving sv = 0 \<and> sv_unjoined sv = 0)"
  using server.reach_inv [OF assms] by (auto simp: server_inv_def)

fun server_run :: "Server \<Rightarrow> ServerEvent list \<Rightarrow> Server option" where
  "server_run sv [] = Some sv"
| "server_run sv (ev # evs) = (case server_event sv ev of Some (Some sv') \<Rightarrow> server_run sv' evs | _ \<Rightarrow> None)"

lemma server_run_reach:
  "server_run sv evs = Some sv' \<Longrightarrow> validate c = Inr () \<Longrightarrow>
   reach (\<lambda>sv. validate c = Inr () \<and> sv = Server_new c) (\<lambda>sv sv'. validate c = Inr () \<and> server_step sv sv') sv \<Longrightarrow>
   reach (\<lambda>sv. validate c = Inr () \<and> sv = Server_new c) (\<lambda>sv sv'. validate c = Inr () \<and> server_step sv sv') sv'"
proof (induction evs arbitrary: sv)
  case (Cons ev evs)
  then obtain sv1 where sv1: "server_event sv ev = Some (Some sv1)" "server_run sv1 evs = Some sv'"
    by (auto split: option.splits)
  have "validate c = Inr () \<and> server_step sv sv1" using Cons.prems(2) server_step.intros [OF sv1(1)] by blast
  then show ?case
    using Cons.IH [OF sv1(2) Cons.prems(2)]
      reach.step [of "\<lambda>sv. validate c = Inr () \<and> sv = Server_new c" "\<lambda>sv sv'. validate c = Inr () \<and> server_step sv sv'", OF Cons.prems(3)]
    by blast
qed simp

definition small_server :: Config where
  "small_server = (Config_default None)\<lparr>max_connections := 1\<rparr>"

theorem connection_limit_enforced_witness:
  "\<exists>sv. server_run (Server_new small_server) [Accepted, Accepted, ShutdownRequested, ConnectionEnds 1, PermitReleased] = Some sv \<and>
     rejected_connections (sv_metrics sv) = 1 \<and> sv_permits sv + length (sv_live sv) + sv_leaving sv = 1"
proof -
  have valid: "validate small_server = Inr ()" by code_simp
  have "\<exists>sv. server_run (Server_new small_server) [Accepted, Accepted, ShutdownRequested, ConnectionEnds 1, PermitReleased] = Some sv \<and>
      rejected_connections (sv_metrics sv) = 1"
    by (simp add: server_event_def Server_new_def Metrics_default_def small_server_def Config_default_def Let_def
        i64_max_def fetch_add_one_def ConnectionGuard_new_def ConnectionGuard_drop_def u64_max_def usize_max_def)
  then obtain sv where sv: "server_run (Server_new small_server) [Accepted, Accepted, ShutdownRequested, ConnectionEnds 1, PermitReleased] = Some sv"
    "rejected_connections (sv_metrics sv) = 1" by blast
  have "max_connections small_server = 1" by (simp add: small_server_def)
  then show ?thesis
    using connection_limit_enforced [OF server_run_reach [OF sv(1) valid reach.start]] sv valid by auto
qed

end
