(* ===== verification/Server_Main.thy ===== *)
theory Server_Main
  imports Env_Settings Net_Server
begin

section \<open>The process (crates/recall-server/src/main.rs)\<close>

text \<open>
  From the command line to the exit code. What the operating system and the runtime answer is a record:
  processors, environment, files, allocator, whether the runtime and the listener could be created
  (\<open>None\<close>) or the text of the error, the text of the local address, whether the handler of the
  termination signal could be installed, and how \<open>Server::run\<close> ends. The
  events are what is printed, and the start of \<open>Server::run\<close> with its configuration.
\<close>

subsection \<open>Definitions\<close>

record Host =
  h_cpus :: "nat option"
  h_vars :: "(bytes \<times> bytes) list"
  h_files :: "str \<Rightarrow> FileOutcome"
  h_runtime :: "bytes option"
  h_listener :: "bytes option"
  h_alloc :: allocator
  h_local_addr :: "bytes + bytes"
  h_signals :: "bytes option"
  h_run :: "bytes + unit"

datatype ProcessEvent = Stdout bytes | Stderr bytes | Serve Config

datatype ExitCode = SUCCESS | FAILURE

definition usage_lines :: "bytes list" where
  "usage_lines =
     [''Recall '' @ [CHR 0xE2, CHR 0x80, CHR 0x94] @ '' multithreaded in-memory cache server'',
      '''',
      ''Usage: recall-server [options]'',
      '''',
      ''  --bind ADDRESS:PORT        Loopback listen address (default 127.0.0.1:6379)'',
      ''  --workers COUNT            Dedicated keyspace owners (1 to 64)'',
      ''  --io-threads COUNT         Networking runtime threads (default 2)'',
      ''  --max-memory-mib MIB       Live key/value payload budget, NOT an RSS limit'',
      ''  --keys-per-worker COUNT    Preallocated key ceiling per owner'',
      ''  --max-connections COUNT    Maximum simultaneous clients'',
      ''  --queue-bytes-mib MIB      Pending byte capacity per owner/coordinator'',
      ''  --env-file PATH           Load a specific environment file (required to exist)'',
      ''  --no-env-file             Disable automatic .env loading'',
      ''  --help                    Show this help'',
      ''  --version                 Show the version'',
      '''',
      ''Settings: command line > process environment > .env in working directory > defaults.'',
      ''Optional authentication: RECALL_PASSWORD in the environment or environment file.'',
      ''Persistence, TLS, public binds, and automatic eviction are not implemented.'',
      ''All stored data disappears at process exit.'']"

fun join_lines :: "bytes list \<Rightarrow> bytes" where
  "join_lines [] = []"
| "join_lines [l] = l"
| "join_lines (l # ls) = l @ CHR 0x0A # join_lines ls"

definition USAGE :: bytes where
  "USAGE = join_lines usage_lines"

fun bind_error_text :: "bytes \<Rightarrow> BindError \<Rightarrow> bytes" where
  "bind_error_text io_text (BindInvalid e) = e"
| "bind_error_text io_text BindIo = io_text"
| "bind_error_text io_text (BindEngine e) = e"

definition banner :: "Config \<Rightarrow> bytes \<Rightarrow> bytes" where
  "banner config addr = ''Recall '' @ pkg_version @ '' listening on '' @ addr @ ''; '' @ nat_to_string (workers config) @
     '' owners; MEMORY ONLY; experimental, not production-qualified''"

definition stopped :: "bytes \<Rightarrow> ProcessEvent" where
  "stopped e = Stderr (''Recall server stopped with an error: '' @ e)"

definition configuration_error :: "bytes \<Rightarrow> ProcessEvent list \<times> ExitCode" where
  "configuration_error message = ([Stderr (''Recall configuration error: '' @ message)], FAILURE)"

text \<open>
  \<open>shutdown_signal\<close>, on Unix: with its handler installed it waits for a signal and prints nothing; if the
  handler cannot be installed, it says so and the server stops at once.
\<close>

definition shutdown_signal :: "bytes option \<Rightarrow> ProcessEvent list" where
  "shutdown_signal failure =
     (case failure of
        None \<Rightarrow> []
      | Some e \<Rightarrow> [Stderr (''Cannot install shutdown signal handler: '' @ e @ ''; stopping'')])"

text \<open>The body of \<open>runtime.block_on\<close>, and \<open>main\<close> from the second validation on.\<close>

definition serve_process :: "Host \<Rightarrow> Config \<Rightarrow> ProcessEvent list \<times> ExitCode" where
  "serve_process host config =
     (case Server_bind (h_alloc host) (h_listener host = None) config of
        Inl e \<Rightarrow> ([stopped (bind_error_text (case h_listener host of None \<Rightarrow> [] | Some t \<Rightarrow> t) e)], FAILURE)
      | Inr _ \<Rightarrow>
          (case h_local_addr host of
             Inl e \<Rightarrow> ([stopped e], FAILURE)
           | Inr addr \<Rightarrow>
               (case h_run host of
                  Inl e \<Rightarrow> ([Stderr (banner config addr), Serve config] @ shutdown_signal (h_signals host) @ [stopped e], FAILURE)
                | Inr _ \<Rightarrow> ([Stderr (banner config addr), Serve config] @ shutdown_signal (h_signals host), SUCCESS))))"

definition start_process :: "Host \<Rightarrow> Config \<Rightarrow> ProcessEvent list \<times> ExitCode" where
  "start_process host config =
     (case validate config of
        Inl e \<Rightarrow> configuration_error e
      | Inr _ \<Rightarrow>
          (case h_runtime host of
             Some e \<Rightarrow> ([Stderr (''Recall runtime startup failed: '' @ e)], FAILURE)
           | None \<Rightarrow> serve_process host config))"

definition main :: "Host \<Rightarrow> str list \<Rightarrow> ProcessEvent list \<times> ExitCode" where
  "main host args =
     (if length args = 1 \<and> (hd args = ascii ''--help'' \<or> hd args = ascii ''-h'') then ([Stdout USAGE], SUCCESS)
      else if length args = 1 \<and> (hd args = ascii ''--version'' \<or> hd args = ascii ''-V'')
      then ([Stdout (''Recall '' @ pkg_version)], SUCCESS)
      else case load (h_cpus host) (h_vars host) (h_files host) args of
        Inl message \<Rightarrow> configuration_error message
      | Inr config \<Rightarrow> start_process host config)"

subsection \<open>Only loopback addresses are ever bound\<close>

lemma validate_bind:
  assumes "validate c = Inr ()"
  shows "validate (c\<lparr>bind_addr := a\<rparr>) =
    (if is_loopback (ip a) then Inr ()
     else Inl ''this milestone permits loopback binds only; transport security is not implemented'')"
  using assms by (cases c) (auto simp: validate_def invalid_def split: if_splits sum.splits option.splits)

lemma load_bind:
  assumes "parse_socket_addr text = Some a" and "files (ascii ''.env'') = NotFound"
  shows "load cpus [] files [ascii ''--bind'', text] =
    (if is_loopback (ip a) then Inr ((Config_default cpus)\<lparr>bind_addr := a\<rparr>)
     else Inl ''this milestone permits loopback binds only; transport security is not implemented'')"
proof -
  have "parse_options [ascii ''--bind'', text] =
      Inr \<lparr>env_file = Some (ascii ''.env''), explicit_file = False, opt_values = [(ascii ''RECALL_BIND'', text)]\<rparr>"
    by (simp add: parse_options_def parse_options_loop.simps option_name_def)
  then show ?thesis
    using assms validate_bind [OF default_valid [of cpus], of a]
    by (simp add: load_def file_values_def from_sources_def apply_setting_def)
qed

text \<open>
  Claim C18. The process serves loopback addresses only: whatever the command line, the environment and
  the environment file say, \<open>Server::run\<close> is started only with a valid configuration whose address is a
  loopback address; and \<open>--bind a.b.c.d:p\<close> on its own is understood exactly, it starts the default
  configuration on that address if \<open>a\<close> is 127, and otherwise the process fails with the message that
  only loopback addresses are permitted.
\<close>

theorem process_serves_loopback_only:
  assumes "a < 256" and "b < 256" and "c < 256" and "d < 256" and "p < 65536"
    and "h_vars host = []" and "h_files host (ascii ''.env'') = NotFound"
  shows "(\<forall>config any_host args. Serve config \<in> set (fst (main any_host args)) \<longrightarrow>
      validate config = Inr () \<and> is_loopback (ip (bind_addr config))) \<and>
    main host [ascii ''--bind'', v4_text a b c d p] =
      (if a = 127 then start_process host ((Config_default (h_cpus host))\<lparr>bind_addr := \<lparr>ip = V4 a b c d, port = p\<rparr>\<rparr>)
       else configuration_error ''this milestone permits loopback binds only; transport security is not implemented'')"
proof
  have start: "validate config = Inr ()" if "Serve config \<in> set (fst (start_process any_host config'))" for any_host config config'
  proof -
    have "config = config'"
      using that by (auto simp: start_process_def serve_process_def configuration_error_def stopped_def shutdown_signal_def
          split: sum.splits option.splits)
    then show ?thesis
      using that by (auto simp: start_process_def configuration_error_def split: sum.splits)
  qed
  show "\<forall>config any_host args. Serve config \<in> set (fst (main any_host args)) \<longrightarrow>
      validate config = Inr () \<and> is_loopback (ip (bind_addr config))"
  proof (intro allI impI)
    fix config any_host args
    assume "Serve config \<in> set (fst (main any_host args))"
    then have "validate config = Inr ()"
      using start by (auto simp: main_def configuration_error_def split: if_splits sum.splits)
    then show "validate config = Inr () \<and> is_loopback (ip (bind_addr config))" using validate_facts(1) by blast
  qed
  show "main host [ascii ''--bind'', v4_text a b c d p] =
      (if a = 127 then start_process host ((Config_default (h_cpus host))\<lparr>bind_addr := \<lparr>ip = V4 a b c d, port = p\<rparr>\<rparr>)
       else configuration_error ''this milestone permits loopback binds only; transport security is not implemented'')"
    using load_bind [where files = "h_files host", OF read_v4_text [OF assms(1-5)] assms(7)] assms(6) by (simp add: main_def)
qed

definition demo_host :: Host where
  "demo_host = \<lparr>h_cpus = Some 4, h_vars = [], h_files = \<lambda>_. NotFound, h_runtime = None, h_listener = None,
     h_alloc = granting, h_local_addr = Inr ''127.0.0.1:7000'', h_signals = None, h_run = Inr ()\<rparr>"

theorem process_serves_loopback_only_witness:
  "main demo_host [ascii ''--bind'', v4_text 127 0 0 1 7000] =
     start_process demo_host ((Config_default (Some 4))\<lparr>bind_addr := \<lparr>ip = V4 127 0 0 1, port = 7000\<rparr>\<rparr>) \<and>
   main demo_host [ascii ''--bind'', v4_text 10 0 0 1 7000] =
     configuration_error ''this milestone permits loopback binds only; transport security is not implemented''"
  using process_serves_loopback_only [of 127 0 0 1 7000 demo_host] process_serves_loopback_only [of 10 0 0 1 7000 demo_host]
  by (simp add: demo_host_def)

end
