(* ===== verification/Unit_Tests_Core.thy ===== *)
theory Unit_Tests_Core
  imports Shard_Correctness Command_Props Resp_Decoding
begin

section \<open>The unit tests of the protocol, the commands, the timers and the store\<close>

text \<open>
  The tests the sources keep beside the code (the \<open>tests\<close> modules of recall-protocol/src/lib.rs and of
  recall-core/src/command.rs, expiry.rs and store.rs), translated statement by statement and run on the
  model. A test is a computation in the option monad: a failed assertion, an \<open>unwrap\<close> of an error and a
  panic of the code under test are all \<open>None\<close>, so a test passes when it is \<open>Some ()\<close>. Tests with thousands
  of iterations are proved from the lemmas about the components, the others by evaluation.
\<close>

definition unwrap :: "'e + 'a \<Rightarrow> 'a option" where
  "unwrap r = (case r of Inl _ \<Rightarrow> None | Inr x \<Rightarrow> Some x)"

definition assert_that :: "bool \<Rightarrow> unit option" where
  "assert_that b = (if b then Some () else None)"

definition is_err :: "'e + 'a \<Rightarrow> bool" where
  "is_err r = (case r of Inl _ \<Rightarrow> True | Inr _ \<Rightarrow> False)"

text \<open>A \<open>for\<close> loop over a list, with the variables it changes as its state.\<close>

fun for_in :: "'a list \<Rightarrow> ('a \<Rightarrow> 's \<Rightarrow> 's option) \<Rightarrow> 's \<Rightarrow> 's option" where
  "for_in [] body s = Some s"
| "for_in (x # xs) body s = do { s' \<leftarrow> body x s; for_in xs body s' }"

lemma unwrap_simps [simp]: "unwrap (Inl e) = None" "unwrap (Inr x) = Some x"
  by (simp_all add: unwrap_def)

lemma assert_that_simps [simp]: "assert_that True = Some ()" "assert_that False = None"
  by (simp_all add: assert_that_def)

subsection \<open>Protocol (recall-protocol/src/lib.rs)\<close>

definition test_decoder :: "Decoder option" where
  "test_decoder = unwrap (Decoder_new Limits_default)"

definition fragment_wire :: bytes where
  "fragment_wire = ''*3'' @ crlf @ ''$3'' @ crlf @ ''SET'' @ crlf @ ''$0'' @ crlf @ crlf @ ''$5'' @ crlf @
     ''a'' @ [CHR 0x00] @ crlf @ ''b'' @ crlf"

definition every_possible_fragment_boundary :: "unit option" where
  "every_possible_fragment_boundary = for_in [0..<length fragment_wire] (\<lambda>split _. do {
     d \<leftarrow> test_decoder;
     (r, d, input) \<leftarrow> decode d (take split fragment_wire);
     found \<leftarrow> unwrap r;
     assert_that (found = None);
     (r, d, input) \<leftarrow> decode d (input @ drop split fragment_wire);
     found \<leftarrow> unwrap r;
     request \<leftarrow> found;
     assert_that (idx (arguments request) 0 = Some ''SET'');
     assert_that (idx (arguments request) 1 = Some '''');
     assert_that (idx (arguments request) 2 = Some (''a'' @ [CHR 0x00] @ crlf @ ''b''));
     assert_that (wire_bytes request = length fragment_wire);
     assert_that (input = [])
   }) ()"

definition echo_wire :: bytes where
  "echo_wire = ''*2'' @ crlf @ ''$4'' @ crlf @ ''ECHO'' @ crlf @ ''$6'' @ crlf @ ''recall'' @ crlf"

definition one_byte_reads_do_not_restart_parsing :: "unit option" where
  "one_byte_reads_do_not_restart_parsing = do {
     d \<leftarrow> test_decoder;
     for_in (List.enumerate 0 echo_wire) (\<lambda>(index, byte) (d, input). do {
       (r, d, input) \<leftarrow> decode d (input @ [byte]);
       result \<leftarrow> unwrap r;
       assert_that ((result \<noteq> None) = (index + 1 = length echo_wire));
       Some (d, input)
     }) (d, []);
     Some ()
   }"

definition consumes_one_pipelined_request_at_a_time :: "unit option" where
  "consumes_one_pipelined_request_at_a_time = do {
     let frame = ''*1'' @ crlf @ ''$4'' @ crlf @ ''PING'' @ crlf;
     d \<leftarrow> test_decoder;
     (r, d, input) \<leftarrow> decode d (frame @ frame);
     found \<leftarrow> unwrap r;
     assert_that (found \<noteq> None);
     assert_that (length input = length frame);
     (r, d, input) \<leftarrow> decode d input;
     found \<leftarrow> unwrap r;
     assert_that (found \<noteq> None);
     assert_that (input = [])
   }"

definition rejects_invalid_lengths_before_payload_arrives :: "unit option" where
  "rejects_invalid_lengths_before_payload_arrives =
     for_in [''*0'' @ crlf, ''*-1'' @ crlf, ''*999999'' @ crlf, ''*1'' @ crlf @ ''$-1'' @ crlf,
       ''*1'' @ crlf @ ''$9999999999'' @ crlf, ''*1'' @ crlf @ '':1'' @ crlf, ''*1'' @ crlf @ ''$1'' @ crlf @ ''aXX'']
     (\<lambda>wire _. do {
       d \<leftarrow> test_decoder;
       (r, d, input) \<leftarrow> decode d wire;
       assert_that (is_err r)
     }) ()"

definition enforces_aggregate_frame_limit :: "unit option" where
  "enforces_aggregate_frame_limit = do {
     d \<leftarrow> unwrap (Decoder_new (Limits_default\<lparr>max_frame_bytes := 24, max_bulk_bytes := 20\<rparr>));
     (r, d, input) \<leftarrow> decode d (''*2'' @ crlf @ ''$5'' @ crlf @ ''12345'' @ crlf @ ''$5'' @ crlf);
     assert_that (is_err r)
   }"

definition encoded_lengths_match_the_wire :: "unit option" where
  "encoded_lengths_match_the_wire =
     for_in [Reply_ok, Reply_error ''ERR example'', Integer i64_min, Integer i64_max, Integer 0, Bulk None,
       Reply_bulk (''a'' @ [CHR 0x00] @ crlf @ ''b''), Array [Integer (- 1), Bulk None], Array []]
     (\<lambda>reply _. assert_that (encoded_len reply = Some (length (encode reply [])))) ()"

lemma one_byte_reads_do_not_restart_parsing_passes: "one_byte_reads_do_not_restart_parsing = Some ()"
  by code_simp

lemma consumes_one_pipelined_request_at_a_time_passes: "consumes_one_pipelined_request_at_a_time = Some ()"
  by code_simp

lemma rejects_invalid_lengths_before_payload_arrives_passes: "rejects_invalid_lengths_before_payload_arrives = Some ()"
  by code_simp

lemma enforces_aggregate_frame_limit_passes: "enforces_aggregate_frame_limit = Some ()"
  by code_simp

lemma encoded_lengths_match_the_wire_passes: "encoded_lengths_match_the_wire = Some ()"
proof -
  have "length (i64_to_string i64_min) \<le> 20" "length (i64_to_string i64_max) \<le> 20"
    "length (i64_to_string 0) \<le> 20" "length (i64_to_string (- 1)) \<le> 20"
    by (rule length_i64_to_string_le; simp add: in_i64_def i64_min_def i64_max_def)+
  moreover have "length (nat_to_string 0) = 1" "length (nat_to_string (Suc (Suc 0))) = 1"
    "length (nat_to_string (Suc (Suc (Suc (Suc (Suc 0)))))) = 1"
    by (simp_all add: nat_to_string.simps)
  ultimately show ?thesis
    by (simp add: encoded_lengths_match_the_wire_def encoded_len_wire wire_def Reply_ok_def Reply_error_def Reply_bulk_def
        usize_max_def crlf_def)
qed

text \<open>
  A frame can be cut anywhere: the decoder waits after the first piece and finds the request after the second.
\<close>

lemma decode_fragments:
  assumes w: "decode (fresh l) w = Some (Inr (Some request), d', [])" and i: "i < length w"
  shows "\<exists>d. decode (fresh l) (take i w) = Some (Inr None, d, take i w) \<and> decode d w = Some (Inr (Some request), d', [])"
proof -
  obtain r d p where r: "decode (fresh l) (take i w) = Some (r, d, p)" "decode_good l (take i w) r d p"
    using decode_ok [OF waiting_fresh, of l "take i w"] by auto
  have x: "decode_extends (fresh l) (take i w) (drop i w)" by (rule decode_extends [OF waiting_fresh])
  have "r = Inr None" using x r(1) w i by (auto simp: decode_extends_def split: sum.splits option.splits)
  then show ?thesis using x r w by (auto simp: decode_extends_def decode_good_def)
qed

lemma fragment_request:
  "decode (fresh Limits_default) fragment_wire =
     Some (Inr (Some \<lparr>arguments = [''SET'', [], ''a'' @ [CHR 0x00] @ crlf @ ''b''], wire_bytes = length fragment_wire\<rparr>),
       fresh Limits_default, [])"
  by code_simp

lemma for_in_unit: "(\<And>x. x \<in> set xs \<Longrightarrow> body x () = Some ()) \<Longrightarrow> for_in xs body () = Some ()"
  by (induction xs) auto

lemma every_possible_fragment_boundary_passes: "every_possible_fragment_boundary = Some ()"
  unfolding every_possible_fragment_boundary_def
proof (rule for_in_unit, goal_cases)
  case (1 i)
  then obtain d where d: "decode (fresh Limits_default) (take i fragment_wire) = Some (Inr None, d, take i fragment_wire)"
    "decode d fragment_wire = decode (fresh Limits_default) fragment_wire"
    using decode_fragments [OF fragment_request, of i] fragment_request by auto
  show ?case
    by (simp add: test_decoder_def new_default d fragment_request idx_def)
qed

subsection \<open>Commands (recall-core/src/command.rs)\<close>

definition canonical_integer_boundaries :: "unit option" where
  "canonical_integer_boundaries = do {
     n \<leftarrow> unwrap (integer ''-9223372036854775808'');
     assert_that (n = i64_min);
     n \<leftarrow> unwrap (integer ''9223372036854775807'');
     assert_that (n = i64_max);
     for_in ['''', ''-0'', ''+1'', ''01'', '' 1'', ''1 '', ''9223372036854775808'']
       (\<lambda>v _. assert_that (is_err (integer v))) ()
   }"

definition rejects_ambiguous_or_unsupported_set_options :: "unit option" where
  "rejects_ambiguous_or_unsupported_set_options =
     for_in [[''NX'', ''XX''], [''NX'', ''NX''], [''PX'', ''0''], [''EX'', ''-1''], [''PX'', ''1'', ''KEEPTTL''], [''GET''], [''EX'']]
     (\<lambda>options _. do {
       r \<leftarrow> parse ([''SET'', ''key'', ''value''] @ options) ParseLimits_default;
       assert_that (is_err r)
     }) ()"

definition command_names_and_options_are_case_insensitive :: "unit option" where
  "command_names_and_options_are_case_insensitive = do {
     r \<leftarrow> parse [''sEt'', ''k'', ''v'', ''nX'', ''pX'', ''10''] ParseLimits_default;
     c \<leftarrow> unwrap r;
     assert_that (case c of Data (Set _ _ IfAbsent _) \<Rightarrow> True | _ \<Rightarrow> False)
   }"

definition validates_full_multi_assignment_before_execution :: "unit option" where
  "validates_full_multi_assignment_before_execution = do {
     r \<leftarrow> parse [''MSET'', ''a'', ''1'', ''b''] ParseLimits_default;
     assert_that (is_err r);
     r \<leftarrow> parse [''MULTI''] ParseLimits_default;
     assert_that (is_err r)
   }"

lemma canonical_integer_boundaries_passes: "canonical_integer_boundaries = Some ()"
  by (simp add: canonical_integer_boundaries_def integer_def parse_i64_def is_ascii_digit_def byte_of_def
      i64_to_string_def nat_to_string.simps digit_char_def in_i64_def i64_min_def i64_max_def is_err_def)
    code_simp

lemma command_tests_pass:
  "rejects_ambiguous_or_unsupported_set_options = Some ()"
  "command_names_and_options_are_case_insensitive = Some ()"
  "validates_full_multi_assignment_before_execution = Some ()"
  by code_simp+

subsection \<open>Timers (recall-core/src/expiry.rs)\<close>

definition repeated_updates_reuse_one_timer :: "allocator \<Rightarrow> unit option" where
  "repeated_updates_reuse_one_timer alloc = do {
     e \<leftarrow> ExpiryIndex_new alloc 8;
     let key = ''key'';
     e \<leftarrow> for_in [0..<10000] (\<lambda>deadline e. do {
       e \<leftarrow> ExpiryIndex_set e key (int deadline);
       assert_that (ExpiryIndex_len e = 1);
       Some e
     }) e;
     assert_that (ExpiryIndex_expired e 9998 = None);
     assert_that (ExpiryIndex_expired e 9999 = Some key);
     e \<leftarrow> ExpiryIndex_remove e key;
     assert_that (ExpiryIndex_len e = 0)
   }"

text \<open>The inner loop of the second test, \<open>while let Some(key) = timers.expired(deadline)\<close>.\<close>

partial_function (option) remove_expired :: "int \<Rightarrow> ExpiryIndex \<Rightarrow> ExpiryIndex option" where
  "remove_expired deadline e =
     (case ExpiryIndex_expired e deadline of
        None \<Rightarrow> Some e
      | Some key \<Rightarrow> do {
          position \<leftarrow> map_of (positions e) key;
          timer \<leftarrow> idx (heap e) position;
          assert_that (t_deadline timer \<le> deadline);
          e \<leftarrow> ExpiryIndex_remove e key;
          remove_expired deadline e
        })"

definition updates_and_arbitrary_removals_preserve_heap_order :: "allocator \<Rightarrow> unit option" where
  "updates_and_arbitrary_removals_preserve_heap_order alloc = do {
     e \<leftarrow> ExpiryIndex_new alloc 100;
     e \<leftarrow> for_in [0..<100] (\<lambda>i e. ExpiryIndex_set e (nat_to_string i) (100 - int i)) e;
     e \<leftarrow> for_in (filter (\<lambda>i. i mod 3 = 0) [0..<100]) (\<lambda>i e. ExpiryIndex_remove e (nat_to_string i)) e;
     e \<leftarrow> for_in (filter (\<lambda>i. i mod 3 = 1) [0..<100]) (\<lambda>i e. ExpiryIndex_set e (nat_to_string i) (int i)) e;
     e \<leftarrow> for_in [0..<101] (\<lambda>deadline e. do {
       e \<leftarrow> remove_expired (int deadline) e;
       assert_that (list_all (\<lambda>timer. int deadline < t_deadline timer) (heap e));
       Some e
     }) e;
     assert_that (ExpiryIndex_len e = 0)
   }"

text \<open>Both tests, on any allocator that grants the reservation.\<close>

lemma repeated_updates_loop:
  assumes "expiry_inv e" and "\<And>k. k \<noteq> ''key'' \<Longrightarrow> timers e k = None"
  shows "\<exists>e'. for_in ds (\<lambda>deadline e. do {
       e \<leftarrow> ExpiryIndex_set e ''key'' (int deadline);
       assert_that (ExpiryIndex_len e = 1);
       Some e
     }) e = Some e' \<and> expiry_inv e' \<and> (ds \<noteq> [] \<longrightarrow> timers e' = [''key'' \<mapsto> int (last ds)])"
  using assms
proof (induction ds arbitrary: e)
  case (Cons d ds)
  obtain e1 where e1: "ExpiryIndex_set e ''key'' (int d) = Some e1" "expiry_inv e1"
    "timers e1 = (timers e)(''key'' \<mapsto> int d)"
    using ei.set_law [OF Cons.prems(1)] by blast
  have only: "timers e1 = [''key'' \<mapsto> int d]" using e1(3) Cons.prems(2) by (auto simp: fun_eq_iff)
  then have "ExpiryIndex_len e1 = 1" using ei.count_law [OF e1(2)] by simp
  then show ?case using Cons.IH [OF e1(2)] e1(1) only by (cases "ds = []") auto
qed simp

lemma repeated_updates_reuse_one_timer_passes:
  assumes "ExpiryIndex_new alloc 8 \<noteq> None"
  shows "repeated_updates_reuse_one_timer alloc = Some ()"
proof -
  obtain e where e: "ExpiryIndex_new alloc 8 = Some e" "expiry_inv e" "timers e = Map.empty"
    using assms ExpiryIndex_new_inv by blast
  have "last [0..<10000] = (9999 :: nat)" "[0..<10000] \<noteq> ([] :: nat list)" by (simp_all add: last_conv_nth)
  then obtain e' where e': "for_in [0..<10000] (\<lambda>deadline e. do {
       e \<leftarrow> ExpiryIndex_set e ''key'' (int deadline);
       assert_that (ExpiryIndex_len e = 1);
       Some e
     }) e = Some e'" "expiry_inv e'" "timers e' = [''key'' \<mapsto> 9999]"
    using repeated_updates_loop [OF e(2), of "[0..<10000]"] e(3) by auto
  have none: "ExpiryIndex_expired e' 9998 = None" by (simp add: ei.expired_none [OF e'(2)] e'(3))
  have "ExpiryIndex_expired e' 9999 \<noteq> None" by (simp add: ei.expired_none [OF e'(2)] e'(3))
  then have some: "ExpiryIndex_expired e' 9999 = Some ''key''"
    using ei.expired_least [OF e'(2), of 9999] e'(3) by (auto split: if_splits)
  obtain e2 where e2: "ExpiryIndex_remove e' ''key'' = Some e2" "ExpiryIndex_len e2 = 0"
    using ei.remove_law [OF e'(2), of "''key''"] ei.count_law e'(3) by fastforce
  show ?thesis
    unfolding repeated_updates_reuse_one_timer_def Let_def e(1) bind.bind_lunit e'(1) none some e2(1) by (simp add: e2(2))
qed

text \<open>
  The inner loop ends on every well-formed index and removes exactly the timers whose deadline has come.
\<close>

lemma remove_expired_ok:
  assumes "expiry_inv e"
  shows "\<exists>e'. remove_expired now e = Some e' \<and> expiry_inv e' \<and>
    timers e' = (\<lambda>k. case timers e k of Some d \<Rightarrow> if d \<le> now then None else Some d | None \<Rightarrow> None)"
  using assms
proof (induction "card {k. \<exists>d. timers e k = Some d \<and> d \<le> now}" arbitrary: e rule: less_induct)
  case less
  show ?case
  proof (cases "ExpiryIndex_expired e now")
    case None
    then have "timers e k = Some d \<Longrightarrow> now < d" for k d using ei.expired_none [OF less.prems] by blast
    then show ?thesis
      using None less.prems by (fastforce simp: remove_expired.simps [of now e] fun_eq_iff split: option.splits)
  next
    case (Some key)
    then obtain d where d: "timers e key = Some d" "d \<le> now" using ei.expired_least [OF less.prems] by blast
    have ok: "index_ok e" using less.prems by (simp add: expiry_inv_def)
    obtain i where i: "map_of (positions e) key = Some i" "d = dl (heap e) i" "i < length (heap e)"
      using d(1) timers_positions [OF ok, of key] ok by (auto simp: index_ok_def)
    obtain e1 where e1: "ExpiryIndex_remove e key = Some e1" "expiry_inv e1" "timers e1 = (timers e)(key := None)"
      using ei.remove_law [OF less.prems] by blast
    have step: "remove_expired now e = remove_expired now e1"
      using Some i d(2) e1(1) by (simp add: remove_expired.simps [of now e] idx_def)
    obtain e2 where "remove_expired now e1 = Some e2" "expiry_inv e2"
      "timers e2 = (\<lambda>k. case timers e1 k of Some d \<Rightarrow> if d \<le> now then None else Some d | None \<Rightarrow> None)"
      using less.hyps [OF _ e1(2)] ei.remove_expired_count [OF less.prems Some e1(1)] by auto
    then show ?thesis using step e1(3) d by (auto simp: fun_eq_iff)
  qed
qed

text \<open>A loop of calls that keep an invariant keeps it.\<close>

lemma for_in_invariant:
  assumes "\<And>x s. x \<in> set xs \<Longrightarrow> P s \<Longrightarrow> \<exists>s'. body x s = Some s' \<and> P s'" and "P s"
  shows "\<exists>s'. for_in xs body s = Some s' \<and> P s'"
  using assms
proof (induction xs arbitrary: s)
  case (Cons x xs)
  then obtain s' where "body x s = Some s'" "P s'" by (meson list.set_intros(1))
  then show ?case using Cons.IH [of s'] Cons.prems(1) by auto
qed simp

definition timers_until :: "int \<Rightarrow> ExpiryIndex \<Rightarrow> bool" where
  "timers_until now e \<longleftrightarrow> expiry_inv e \<and> (\<forall>k d. timers e k = Some d \<longrightarrow> d \<le> now)"

lemma timers_until_set:
  assumes "timers_until now e" and "d \<le> now"
  shows "\<exists>e'. ExpiryIndex_set e k d = Some e' \<and> timers_until now e'"
  using ei.set_law [of e k d] assms by (auto simp: timers_until_def)

lemma timers_until_remove:
  assumes "timers_until now e"
  shows "\<exists>e'. ExpiryIndex_remove e k = Some e' \<and> timers_until now e'"
  using ei.remove_law [of e k] assms by (fastforce simp: timers_until_def)

lemma timers_until_sets:
  assumes "timers_until now e" and "\<And>i. i \<in> set is \<Longrightarrow> g i \<le> now"
  shows "\<exists>e'. for_in is (\<lambda>i e. ExpiryIndex_set e (f i) (g i)) e = Some e' \<and> timers_until now e'"
  by (rule for_in_invariant [where P = "timers_until now"]) (use assms timers_until_set in blast)+

lemma timers_until_removes:
  assumes "timers_until now e"
  shows "\<exists>e'. for_in is (\<lambda>i e. ExpiryIndex_remove e (f i)) e = Some e' \<and> timers_until now e'"
  by (rule for_in_invariant [where P = "timers_until now"]) (use assms timers_until_remove in blast)+

lemma timers_until_expire:
  assumes "timers_until horizon e"
  shows "\<exists>e'. do {
       e \<leftarrow> remove_expired now e;
       assert_that (list_all (\<lambda>timer. now < t_deadline timer) (heap e));
       Some e
     } = Some e' \<and> timers_until horizon e' \<and> (now = horizon \<longrightarrow> timers e' = Map.empty)"
proof -
  obtain e' where e': "remove_expired now e = Some e'" "expiry_inv e'"
    "timers e' = (\<lambda>k. case timers e k of Some d \<Rightarrow> if d \<le> now then None else Some d | None \<Rightarrow> None)"
    using remove_expired_ok [of e now] assms by (auto simp: timers_until_def)
  have late: "now < d" "d \<le> horizon" if "timers e' k = Some d" for k d
    using that e'(3) assms by (auto simp: timers_until_def split: option.splits if_splits)
  have "timers e' (t_key t) = Some (t_deadline t)" if "t \<in> set (heap e')" for t
    using that timers_nth [of e' "t_key t" "t_deadline t"] e'(2) by (auto simp: expiry_inv_def in_set_conv_nth)
  then have "list_all (\<lambda>t. now < t_deadline t) (heap e')" using late(1) by (auto simp: list_all_iff)
  moreover have "timers e' = Map.empty" if "now = horizon"
  proof (rule ext)
    show "timers e' k = None" for k using late [of k] that by (cases "timers e' k") force+
  qed
  ultimately show ?thesis using e'(1,2) late(2) by (auto simp: timers_until_def)
qed

lemma for_in_append: "for_in (xs @ ys) body s = Option.bind (for_in xs body s) (for_in ys body)"
proof (induction xs arbitrary: s)
  case (Cons x xs)
  then show ?case by (cases "body x s") simp_all
qed simp

lemma expire_all:
  assumes "timers_until (int n) e"
  shows "\<exists>e'. for_in [0..<Suc n] (\<lambda>deadline e. do {
       e \<leftarrow> remove_expired (int deadline) e;
       assert_that (list_all (\<lambda>timer. int deadline < t_deadline timer) (heap e));
       Some e
     }) e = Some e' \<and> ExpiryIndex_len e' = 0" (is "\<exists>e'. for_in _ ?body e = _ \<and> _")
proof -
  obtain e1 where e1: "for_in [0..<n] ?body e = Some e1" "timers_until (int n) e1"
    using for_in_invariant [of "[0..<n]" "timers_until (int n)" ?body e] timers_until_expire assms by blast
  obtain e2 where e2: "?body n e1 = Some e2" "timers_until (int n) e2" "timers e2 = Map.empty"
    using timers_until_expire [OF e1(2), of "int n"] by auto
  have "ExpiryIndex_len e2 = 0" using ei.count_law [of e2] e2(2,3) by (simp add: timers_until_def)
  then show ?thesis using e1(1) e2(1) by (simp add: for_in_append)
qed

lemma updates_and_arbitrary_removals_preserve_heap_order_passes:
  assumes "ExpiryIndex_new alloc 100 \<noteq> None"
  shows "updates_and_arbitrary_removals_preserve_heap_order alloc = Some ()"
proof -
  obtain e0 where e0: "ExpiryIndex_new alloc 100 = Some e0" "timers_until 100 e0"
    using assms ExpiryIndex_new_inv by (fastforce simp: timers_until_def)
  obtain e1 where e1: "for_in [0..<100] (\<lambda>i e. ExpiryIndex_set e (nat_to_string i) (100 - int i)) e0 = Some e1"
    "timers_until 100 e1"
    using timers_until_sets [OF e0(2), of "[0..<100]" "\<lambda>i. 100 - int i" nat_to_string] by auto
  obtain e2 where e2: "for_in (filter (\<lambda>i. i mod 3 = 0) [0..<100]) (\<lambda>i e. ExpiryIndex_remove e (nat_to_string i)) e1 = Some e2"
    "timers_until 100 e2"
    using timers_until_removes [OF e1(2)] by blast
  obtain e3 where e3: "for_in (filter (\<lambda>i. i mod 3 = 1) [0..<100]) (\<lambda>i e. ExpiryIndex_set e (nat_to_string i) (int i)) e2 = Some e3"
    "timers_until 100 e3"
    using timers_until_sets [OF e2(2), of "filter (\<lambda>i. i mod 3 = 1) [0..<100]" int nat_to_string]
    by (auto simp del: upt_rec_numeral)
  have "Suc 100 = 101" "int 100 = 100" by simp_all
  then obtain e4 where e4: "for_in [0..<101] (\<lambda>deadline e. do {
       e \<leftarrow> remove_expired (int deadline) e;
       assert_that (list_all (\<lambda>timer. int deadline < t_deadline timer) (heap e));
       Some e
     }) e3 = Some e4" "ExpiryIndex_len e4 = 0"
    using expire_all [of 100 e3] e3(2) by metis
  show ?thesis
    unfolding updates_and_arbitrary_removals_preserve_heap_order_def e0(1) bind.bind_lunit e1(1) e2(1) e3(1) e4(1)
    by (simp add: e4(2))
qed

end
