(* ===== verification/Unit_Tests_Store.thy ===== *)
theory Unit_Tests_Store
  imports Unit_Tests_Core
begin

section \<open>The unit tests of the store (recall-core/src/store.rs)\<close>

text \<open>
  As in \<open>Unit_Tests_Core\<close>, a test passes when it is \<open>Some ()\<close>. The tests of the store go through the command
  parser, so they also exercise how the two fit together.
\<close>

definition run_args :: "Shard \<Rightarrow> bytes list \<Rightarrow> int \<Rightarrow> (Reply \<times> Shard) option" where
  "run_args s args now = do {
     r \<leftarrow> parse args ParseLimits_default;
     c \<leftarrow> unwrap r;
     case c of
       Data operation \<Rightarrow> do {
         (r, s) \<leftarrow> execute granting s operation now;
         Some (case r of Inl e \<Rightarrow> EngineError_reply e | Inr reply \<Rightarrow> reply, s)
       }
     | _ \<Rightarrow> None
   }"

definition test_shard :: "Shard option" where
  "test_shard = unwrap (Shard_new granting (ShardLimits_default\<lparr>max_keys := 100\<rparr>))"

text \<open>\<open>assert_eq!(run(...), reply)\<close>, and a call whose reply is an error.\<close>

definition expect :: "bytes list \<Rightarrow> int \<Rightarrow> Reply \<Rightarrow> Shard \<Rightarrow> Shard option" where
  "expect args now reply s = do {
     (r, s) \<leftarrow> run_args s args now;
     assert_that (r = reply);
     Some s
   }"

definition expect_error :: "bytes list \<Rightarrow> int \<Rightarrow> Shard \<Rightarrow> Shard option" where
  "expect_error args now s = do {
     (r, s) \<leftarrow> run_args s args now;
     assert_that (case r of Error _ \<Rightarrow> True | _ \<Rightarrow> False);
     Some s
   }"

definition assignment_conditions_and_deadlines_are_atomic :: "unit option" where
  "assignment_conditions_and_deadlines_are_atomic = do {
     s \<leftarrow> test_shard;
     s \<leftarrow> expect [''SET'', ''k'', ''1'', ''NX'', ''PX'', ''1000''] 0 Reply_ok s;
     s \<leftarrow> expect [''SET'', ''k'', ''2'', ''NX''] 1 (Bulk None) s;
     s \<leftarrow> expect [''SET'', ''k'', ''2'', ''XX'', ''KEEPTTL''] 10 Reply_ok s;
     s \<leftarrow> expect [''PTTL'', ''k''] 11 (Integer 989) s;
     s \<leftarrow> expect [''GET'', ''k''] 999 (Reply_bulk ''2'') s;
     s \<leftarrow> expect [''GET'', ''k''] 1000 (Bulk None) s;
     s \<leftarrow> expect [''GET'', ''k''] 0 (Bulk None) s;
     Some ()
   }"

definition counters_check_overflow_without_mutation_and_keep_expiry :: "unit option" where
  "counters_check_overflow_without_mutation_and_keep_expiry = do {
     s \<leftarrow> test_shard;
     (_, s) \<leftarrow> run_args s [''SET'', ''k'', ''9223372036854775807'', ''PX'', ''10000''] 0;
     s \<leftarrow> expect_error [''INCR'', ''k''] 1 s;
     s \<leftarrow> expect [''GET'', ''k''] 2 (Reply_bulk ''9223372036854775807'') s;
     s \<leftarrow> expect [''DECR'', ''k''] 2 (Integer (i64_max - 1)) s;
     s \<leftarrow> expect [''PTTL'', ''k''] 2 (Integer 9998) s;
     (_, s) \<leftarrow> run_args s [''SET'', ''k'', ''-9223372036854775808''] 3;
     s \<leftarrow> expect_error [''DECRBY'', ''k'', ''-9223372036854775808''] 3 s;
     s \<leftarrow> expect [''GET'', ''k''] 3 (Reply_bulk ''-9223372036854775808'') s;
     Some ()
   }"

definition duplicate_multi_key_semantics_match_command_intent :: "unit option" where
  "duplicate_multi_key_semantics_match_command_intent = do {
     s \<leftarrow> test_shard;
     s \<leftarrow> expect [''MSET'', ''a'', ''1'', ''b'', ''2'', ''a'', ''3''] 0 Reply_ok s;
     s \<leftarrow> expect [''MGET'', ''a'', ''b'', ''a'', ''z''] 0
       (Array [Reply_bulk ''3'', Reply_bulk ''2'', Reply_bulk ''3'', Bulk None]) s;
     s \<leftarrow> expect [''EXISTS'', ''a'', ''a'', ''b''] 0 (Integer 3) s;
     s \<leftarrow> expect [''DEL'', ''a'', ''a'', ''b''] 0 (Integer 2) s;
     assert_that (st_payload_bytes (Shard_stats s) = 0)
   }"

definition failed_multi_assignment_has_no_partial_effects :: "unit option" where
  "failed_multi_assignment_has_no_partial_effects = do {
     s \<leftarrow> unwrap (Shard_new granting \<lparr>max_keys = 2, max_payload_bytes = 8, max_reply_bytes = 1024\<rparr>);
     (_, s) \<leftarrow> run_args s [''SET'', ''a'', ''old''] 0;
     s \<leftarrow> expect_error [''MSET'', ''a'', ''new'', ''b'', ''toolarge''] 0 s;
     s \<leftarrow> expect [''GET'', ''a''] 0 (Reply_bulk ''old'') s;
     s \<leftarrow> expect [''GET'', ''b''] 0 (Bulk None) s;
     assert_that (st_payload_bytes (Shard_stats s) = 4)
   }"

definition dropping_preparation_rolls_back_every_requested_change :: "unit option" where
  "dropping_preparation_rolls_back_every_requested_change = do {
     s \<leftarrow> test_shard;
     r \<leftarrow> prepare granting s (MultiSet [(''a'', ''1'')]) 0;
     prepared \<leftarrow> unwrap r;
     assert_that (p_response prepared = Reply_ok);
     s \<leftarrow> expect [''GET'', ''a''] 0 (Bulk None) s;
     Some ()
   }"

definition expiry_updates_do_not_leak_timers_and_cleanup_is_bounded :: "unit option" where
  "expiry_updates_do_not_leak_timers_and_cleanup_is_bounded = do {
     s \<leftarrow> test_shard;
     s \<leftarrow> for_in [''a'', ''b'', ''c''] (\<lambda>key s. map_option snd (run_args s [''SET'', key, ''1'', ''PX'', ''10''] 0)) s;
     s \<leftarrow> for_in [0..<1000] (\<lambda>_ s. map_option snd (run_args s [''PEXPIRE'', ''a'', ''10''] 0)) s;
     assert_that (st_expiring_keys (Shard_stats s) = 3);
     (n, s) \<leftarrow> expire_due s 10 2;
     assert_that (n = 2);
     assert_that (st_keys (Shard_stats s) = 1);
     (n, s) \<leftarrow> expire_due s 10 2;
     assert_that (n = 1);
     assert_that (st_payload_bytes (Shard_stats s) = 0)
   }"

definition plain_assignment_clears_ttl_and_nonpositive_expiry_deletes :: "unit option" where
  "plain_assignment_clears_ttl_and_nonpositive_expiry_deletes = do {
     s \<leftarrow> test_shard;
     (_, s) \<leftarrow> run_args s [''SET'', ''k'', ''1'', ''PX'', ''1500''] 0;
     s \<leftarrow> expect [''TTL'', ''k''] 0 (Integer 2) s;
     s \<leftarrow> expect [''PTTL'', ''k''] 0 (Integer 1500) s;
     (_, s) \<leftarrow> run_args s [''SET'', ''k'', ''2''] 1;
     s \<leftarrow> expect [''PTTL'', ''k''] 1 (Integer (- 1)) s;
     s \<leftarrow> expect [''EXPIRE'', ''k'', ''0''] 1 (Integer 1) s;
     s \<leftarrow> expect [''PTTL'', ''k''] 1 (Integer (- 2)) s;
     Some ()
   }"

text \<open>The linear congruential generator of the last test wraps at 64 bits.\<close>

definition next_seed :: "64 word \<Rightarrow> 64 word" where
  "next_seed seed = seed * 6364136223846793005 + 1"

definition random_amount :: "64 word \<Rightarrow> int" where
  "random_amount seed = int (unat (drop_bit 32 seed) mod 201) - 100"

definition random_step :: "nat \<Rightarrow> 64 word \<times> int \<times> Shard \<Rightarrow> (64 word \<times> int \<times> Shard) option" where
  "random_step _ = (\<lambda>(seed, expected, s). do {
     let seed = next_seed seed;
     let amount = random_amount seed;
     let expected = expected + amount;
     s \<leftarrow> expect [''INCRBY'', ''n'', i64_to_string amount] 0 (Integer expected) s;
     Some (seed, expected, s)
   })"

definition bounded_random_counter_sequence_matches_scalar_oracle :: "unit option" where
  "bounded_random_counter_sequence_matches_scalar_oracle = do {
     s \<leftarrow> test_shard;
     for_in [0..<10000] random_step (7, 0, s);
     Some ()
   }"

lemma assignment_conditions_pass: "assignment_conditions_and_deadlines_are_atomic = Some ()"
  by code_simp

lemma duplicate_keys_pass: "duplicate_multi_key_semantics_match_command_intent = Some ()"
  by code_simp

lemma failed_assignment_passes: "failed_multi_assignment_has_no_partial_effects = Some ()"
  by code_simp

lemma dropped_preparation_passes: "dropping_preparation_rolls_back_every_requested_change = Some ()"
  by code_simp

lemma plain_assignment_passes: "plain_assignment_clears_ttl_and_nonpositive_expiry_deletes = Some ()"
  by code_simp

subsection \<open>Long tests, from the specification of the store\<close>

text \<open>
  A shard of the tests holds the table \<open>m\<close> after at most \<open>n\<close> changes.
\<close>

abbreviation test_limits :: ShardLimits where
  "test_limits \<equiv> ShardLimits_default\<lparr>max_keys := 100\<rparr>"

definition holds :: "nat \<Rightarrow> keyspace \<Rightarrow> Shard \<Rightarrow> bool" where
  "holds n m s \<longleftrightarrow> shard_inv s \<and> limits s = test_limits \<and> table s = m \<and> revision s \<le> n"

lemma test_limits_machine: "machine_limits test_limits"
  by (simp add: machine_limits_def ShardLimits_default_def usize_max_def)

lemma test_shard_holds: "\<exists>s. test_shard = Some s \<and> holds 0 Map.empty s"
proof -
  have new: "Shard_new granting test_limits = Inr \<lparr>entries = [], expiry = \<lparr>heap = [], positions = []\<rparr>,
      limits = test_limits, payload_bytes = 0, revision = 0, expired_keys = 0, applied_commands = 0\<rparr>"
    by (simp add: Shard_new_def ExpiryIndex_new_def granting_def ShardLimits_default_def)
  then show ?thesis using Shard_new_inv [OF new] by (simp add: test_shard_def holds_def)
qed

lemma run_spec:
  assumes "holds n m s" and "n < u64_max" and "parse args ParseLimits_default = Some (Inr (Data op))" and "keys_fit op"
    and "spec_execute True test_limits m op now = (r, m')"
  shows "\<exists>s'. run_args s args now = Some (case r of Inl e \<Rightarrow> EngineError_reply e | Inr reply \<Rightarrow> reply, s') \<and>
    holds (Suc n) m' s'"
proof -
  have s: "shard_inv s" "limits s = test_limits" "table s = m" "revision s \<le> n"
    using assms(1) by (simp_all add: holds_def)
  then have "revision s < u64_max" "machine_limits (limits s)" using assms(2) test_limits_machine by simp_all
  from execute_exact [OF s(1) assms(4) this, of granting now]
  obtain s' where s': "execute granting s op now = Some (r, s')" "table s' = m'" "shard_inv s'" "limits s' = test_limits"
    "case r of Inl _ \<Rightarrow> s' = s | Inr _ \<Rightarrow> revision s' = Suc (revision s)"
    using assms(5) s(2,3) by (auto simp: granting_def)
  then have "revision s' \<le> Suc n" using s(4) by (auto split: sum.splits)
  then show ?thesis using s' assms(3) by (simp add: run_args_def holds_def)
qed

lemma expect_spec:
  assumes "holds n m s" and "n < u64_max" and "parse args ParseLimits_default = Some (Inr (Data op))" and "keys_fit op"
    and "spec_execute True test_limits m op now = (Inr reply, m')"
  shows "\<exists>s'. expect args now reply s = Some s' \<and> holds (Suc n) m' s'"
  using run_spec [OF assms] by (auto simp: expect_def)

lemma expect_error_spec:
  assumes "holds n m s" and "n < u64_max" and "parse args ParseLimits_default = Some (Inr (Data op))" and "keys_fit op"
    and "spec_execute True test_limits m op now = (Inl e, m')"
  shows "\<exists>s'. expect_error args now s = Some s' \<and> holds (Suc n) m' s'"
  using run_spec [OF assms] by (auto simp: expect_error_def EngineError_reply_def Reply_error_def)

lemma spec_execute_done:
  assumes "spec_op now (live now m) op = Inr (reply, m1)" and "after_op m op m1 = m'" and "length (encode reply []) \<le> 100"
    and "within_budget test_limits m'"
  shows "spec_execute True test_limits m op now = (Inr reply, m')"
proof -
  have "max_reply_bytes test_limits = 4194304" by (simp add: ShardLimits_default_def)
  then show ?thesis using assms by (simp add: spec_execute_def)
qed

text \<open>The random counter: the first command finds no key, the others the text of the expected number.\<close>

definition counter_table :: "int \<Rightarrow> keyspace" where
  "counter_table x = [''n'' \<mapsto> \<lparr>e_value = i64_to_string x, e_expires = None\<rparr>]"

lemma parse_incrby:
  assumes "in_i64 a"
  shows "parse [''INCRBY'', ''n'', i64_to_string a] ParseLimits_default = Some (Inr (Data (Increment ''n'' a False)))"
proof -
  have find: "find_spec ''INCRBY'' = Some (spec ''incrby'' 3 True 1 1 1)" by code_simp
  have "integer (i64_to_string a) = Inr a" using assms by (simp add: integer_Inr_iff)
  moreover have "starts_with ''incrby'' ''decr'' = False" by (simp add: starts_with_def)
  moreover have "as_i64 (Suc (Suc (Suc 0))) = 3" by code_simp
  ultimately show ?thesis
    by (simp add: parse_def find spec_def wrong_arity_def parse_named_def parse_increment_def idx_def check_limits_def
        value_too_large_def ParseLimits_default_def)
qed

lemma incrby_spec:
  assumes "m = Map.empty \<and> x = 0 \<or> m = counter_table x" and "in_i64 x" and "in_i64 (x + a)"
  shows "spec_execute True test_limits m (Increment ''n'' a False) 0 = (Inr (Integer (x + a)), counter_table (x + a))"
proof -
  have live: "live 0 m = m" using assms(1) by (auto simp: counter_table_def due_def)
  have "(case m ''n'' of None \<Rightarrow> Inr 0 | Some e \<Rightarrow> integer (e_value e)) = Inr x" "Option.bind (m ''n'') e_expires = None"
    using assms(1,2) by (auto simp: counter_table_def integer_Inr_iff)
  then have op: "spec_op 0 (live 0 m) (Increment ''n'' a False) =
      Inr (Integer (x + a), m(''n'' \<mapsto> \<lparr>e_value = i64_to_string (x + a), e_expires = None\<rparr>))"
    using assms(3) by (simp add: live spec_increment_def Let_def)
  have after: "after_op m (Increment ''n'' a False) (m(''n'' \<mapsto> \<lparr>e_value = i64_to_string (x + a), e_expires = None\<rparr>)) =
      counter_table (x + a)"
    using assms(1) by (auto simp: after_op_def counter_table_def fun_eq_iff)
  have len: "length (i64_to_string (x + a)) \<le> 20" using length_i64_to_string_le assms(3) .
  then have "within_budget test_limits (counter_table (x + a))"
    by (simp add: within_budget_def counter_table_def ShardLimits_default_def)
  then show ?thesis using spec_execute_done [OF op after] len by (simp add: crlf_def)
qed

lemma random_amount_bounds: "- 100 \<le> random_amount seed \<and> random_amount seed \<le> 100"
proof -
  have "unat (drop_bit 32 seed) mod 201 < 201" by simp
  then show ?thesis unfolding random_amount_def by linarith
qed

lemma random_loop:
  assumes "holds n m s" and "m = Map.empty \<and> x = 0 \<or> m = counter_table x"
    and "n + length xs \<le> 1000000" and "\<bar>x\<bar> + 100 * int (length xs) \<le> 1000000"
  shows "\<exists>r. for_in xs random_step (seed, x, s) = Some r"
  using assms
proof (induction xs arbitrary: n m s x seed)
  case (Cons i xs)
  let ?a = "random_amount (next_seed seed)"
  have a: "- 100 \<le> ?a" "?a \<le> 100" using random_amount_bounds by blast+
  then have fits: "in_i64 ?a" "in_i64 x" "in_i64 (x + ?a)" and smaller: "\<bar>x + ?a\<bar> + 100 * int (length xs) \<le> 1000000"
    using Cons.prems(4) by (auto simp: machine_defs)
  obtain s' where s': "expect [''INCRBY'', ''n'', i64_to_string ?a] 0 (Integer (x + ?a)) s = Some s'"
    "holds (Suc n) (counter_table (x + ?a)) s'"
    using expect_spec [OF Cons.prems(1) _ parse_incrby [OF fits(1)] _ incrby_spec [OF Cons.prems(2) fits(2,3)]] Cons.prems(3)
    by (auto simp: keys_fit_def i64_max_def u64_max_def)
  show ?case using Cons.IH [OF s'(2) _ _ smaller, of "next_seed seed"] s'(1) Cons.prems(3) by (simp add: random_step_def Let_def)
qed simp

lemma bounded_random_counter_sequence_matches_scalar_oracle_passes:
  "bounded_random_counter_sequence_matches_scalar_oracle = Some ()"
proof -
  obtain s where s: "test_shard = Some s" "holds 0 Map.empty s" using test_shard_holds by blast
  obtain r where "for_in [0..<10000] random_step (7, 0, s) = Some r"
    using random_loop [OF s(2), of 0 "[0..<10000]" 7] by auto
  then show ?thesis
    unfolding bounded_random_counter_sequence_matches_scalar_oracle_def s(1) bind.bind_lunit by simp
qed

text \<open>The overflow test: a counter at both ends of the 64-bit range, alone in the table.\<close>

abbreviation lone :: "bytes \<Rightarrow> int option \<Rightarrow> keyspace" where
  "lone v d \<equiv> [''k'' \<mapsto> \<lparr>e_value = v, e_expires = d\<rparr>]"

lemma lone_spec:
  assumes "spec_op now (live now m) op = Inr (reply, lone v d)" and "Operation_keys op = [''k'']" and "dom m \<subseteq> {''k''}"
    and "length (encode reply []) \<le> 100" and "length v \<le> 20"
  shows "spec_execute True test_limits m op now = (Inr reply, lone v d)"
proof (rule spec_execute_done [OF assms(1) _ assms(4)])
  show "after_op m op (lone v d) = lone v d" using assms(2,3) by (auto simp: after_op_def fun_eq_iff)
  show "within_budget test_limits (lone v d)" using assms(5) by (simp add: within_budget_def ShardLimits_default_def)
qed

lemma expect_lone:
  assumes "holds n m s" and "parse args ParseLimits_default = Some (Inr (Data op))"
    and "spec_op now (live now m) op = Inr (reply, lone v d)" and "Operation_keys op = [''k'']" and "dom m \<subseteq> {''k''}"
    and "length (encode reply []) \<le> 100" and "length v \<le> 20" and "n < 100" and "n' = n + 1"
  shows "\<exists>s'. expect args now reply s = Some s' \<and> holds n' (lone v d) s'"
  using expect_spec [OF assms(1) _ assms(2) _ lone_spec [OF assms(3-7)]] assms(4,8,9)
  by (simp add: keys_fit_def u64_max_def i64_max_def)

lemma run_lone:
  assumes "holds n m s" and "parse args ParseLimits_default = Some (Inr (Data op))"
    and "spec_op now (live now m) op = Inr (reply, lone v d)" and "Operation_keys op = [''k'']" and "dom m \<subseteq> {''k''}"
    and "length (encode reply []) \<le> 100" and "length v \<le> 20" and "n < 100" and "n' = n + 1"
  shows "\<exists>s'. run_args s args now = Some (reply, s') \<and> holds n' (lone v d) s'"
  using run_spec [OF assms(1) _ assms(2) _ lone_spec [OF assms(3-7)]] assms(4,8,9)
  by (simp add: keys_fit_def u64_max_def i64_max_def)

lemma refuse_lone:
  assumes "holds n m s" and "parse args ParseLimits_default = Some (Inr (Data op))"
    and "spec_op now (live now m) op = Inl e" and "Operation_keys op = [''k'']" and "n < 100" and "n' = n + 1"
  shows "\<exists>s'. expect_error args now s = Some s' \<and> holds n' m s'"
proof -
  have "spec_execute True test_limits m op now = (Inl e, m)" using assms(3) by (simp add: spec_execute_def)
  then show ?thesis
    using expect_error_spec [OF assms(1) _ assms(2), of now e m] assms(4-6) by (simp add: keys_fit_def u64_max_def i64_max_def)
qed

lemma limit_texts:
  "i64_to_string i64_max = ''9223372036854775807''" "i64_to_string (i64_max - 1) = ''9223372036854775806''"
  "i64_to_string i64_min = ''-9223372036854775808''"
  by (simp add: i64_to_string_def nat_to_string.simps digit_char_def i64_min_def i64_max_def, code_simp)+

lemma limit_integers:
  "integer ''9223372036854775807'' = Inr i64_max" "integer ''-9223372036854775808'' = Inr i64_min"
  unfolding limit_texts [symmetric] by (simp_all add: integer_Inr_iff machine_defs)

lemma parse_decrby_min:
  "parse [''DECRBY'', ''k'', ''-9223372036854775808''] ParseLimits_default = Some (Inr (Data (Increment ''k'' i64_min True)))"
proof -
  have find: "find_spec ''DECRBY'' = Some (spec ''decrby'' 3 True 1 1 1)" by code_simp
  have "starts_with ''decrby'' ''decr''" by (simp add: starts_with_def)
  then show ?thesis
    by (simp add: parse_def find spec_def wrong_arity_def parse_named_def parse_increment_def idx_def check_limits_def
        value_too_large_def ParseLimits_default_def limit_integers as_i64_def)
qed

lemma counter_parses:
  "parse [''SET'', ''k'', ''9223372036854775807'', ''PX'', ''10000''] ParseLimits_default =
    Some (Inr (Data (Set ''k'' ''9223372036854775807'' Always (AfterMilliseconds 10000))))"
  "parse [''SET'', ''k'', ''-9223372036854775808''] ParseLimits_default =
    Some (Inr (Data (Set ''k'' ''-9223372036854775808'' Always Clear)))"
  "parse [''INCR'', ''k''] ParseLimits_default = Some (Inr (Data (Increment ''k'' 1 False)))"
  "parse [''DECR'', ''k''] ParseLimits_default = Some (Inr (Data (Increment ''k'' 1 True)))"
  "parse [''GET'', ''k''] ParseLimits_default = Some (Inr (Data (Get ''k'')))"
  "parse [''PTTL'', ''k''] ParseLimits_default = Some (Inr (Data (Ttl ''k'' True)))"
  by code_simp+

lemma overflow_specs:
  "spec_op 0 (live 0 Map.empty) (Set ''k'' v Always (AfterMilliseconds 10000)) = Inr (Reply_ok, lone v (Some 10000))"
  "spec_op 3 (live 3 (lone v (Some 10000))) (Set ''k'' w Always Clear) = Inr (Reply_ok, lone w None)"
  "spec_op 2 (live 2 (lone v (Some 10000))) (Get ''k'') = Inr (Reply_bulk v, lone v (Some 10000))"
  "spec_op 3 (live 3 (lone v None)) (Get ''k'') = Inr (Reply_bulk v, lone v None)"
  "spec_op 2 (live 2 (lone v (Some 10000))) (Ttl ''k'' True) = Inr (Integer 9998, lone v (Some 10000))"
  "spec_op now (live now m) (Increment ''k'' i64_min True) = Inl overflow_error"
  by (simp_all add: due_def spec_set_def spec_bulk_def Reply_bulk_def spec_ttl_def spec_increment_def machine_defs)

lemma incr_max: "spec_op 1 (live 1 (lone ''9223372036854775807'' (Some 10000))) (Increment ''k'' 1 False) = Inl overflow_error"
  by (simp add: due_def spec_increment_def limit_integers) (simp add: machine_defs)

lemma decr_max:
  "spec_op 2 (live 2 (lone ''9223372036854775807'' (Some 10000))) (Increment ''k'' 1 True) =
    Inr (Integer (i64_max - 1), lone ''9223372036854775806'' (Some 10000))"
proof -
  have "in_i64 (i64_max - 1)" "i64_min \<noteq> 1" by (simp_all add: machine_defs)
  then show ?thesis by (auto simp: due_def spec_increment_def limit_integers Let_def limit_texts)
qed

lemma short_replies:
  "length (encode Reply_ok []) \<le> 100" "length (encode (Integer 9998) []) \<le> 100"
  "length (encode (Reply_bulk ''9223372036854775807'') []) \<le> 100"
  "length (encode (Reply_bulk ''-9223372036854775808'') []) \<le> 100"
  by code_simp+

lemma short_decremented: "length (encode (Integer (i64_max - 1)) []) \<le> 100"
  using length_i64_to_string_le [of "i64_max - 1"] by (simp add: in_i64_def i64_min_def i64_max_def crlf_def)

lemma counters_check_overflow_without_mutation_and_keep_expiry_passes:
  "counters_check_overflow_without_mutation_and_keep_expiry = Some ()"
proof -
  let ?max = "''9223372036854775807''" and ?less = "''9223372036854775806''" and ?min = "''-9223372036854775808''"
  obtain s0 where s0: "test_shard = Some s0" "holds 0 Map.empty s0" using test_shard_holds by blast
  have "\<exists>s. run_args s0 [''SET'', ''k'', ?max, ''PX'', ''10000''] 0 = Some (Reply_ok, s) \<and> holds 1 (lone ?max (Some 10000)) s"
    by (rule run_lone [OF s0(2) counter_parses(1) overflow_specs(1)]) (simp_all add: short_replies)
  then obtain s1 where s1: "run_args s0 [''SET'', ''k'', ?max, ''PX'', ''10000''] 0 = Some (Reply_ok, s1)"
    "holds 1 (lone ?max (Some 10000)) s1" by blast
  have "\<exists>s. expect_error [''INCR'', ''k''] 1 s1 = Some s \<and> holds 2 (lone ?max (Some 10000)) s"
    by (rule refuse_lone [OF s1(2) counter_parses(3) incr_max]) simp_all
  then obtain s2 where s2: "expect_error [''INCR'', ''k''] 1 s1 = Some s2" "holds 2 (lone ?max (Some 10000)) s2" by blast
  have "\<exists>s. expect [''GET'', ''k''] 2 (Reply_bulk ?max) s2 = Some s \<and> holds 3 (lone ?max (Some 10000)) s"
    by (rule expect_lone [OF s2(2) counter_parses(5) overflow_specs(3)]) (simp_all add: short_replies)
  then obtain s3 where s3: "expect [''GET'', ''k''] 2 (Reply_bulk ?max) s2 = Some s3" "holds 3 (lone ?max (Some 10000)) s3"
    by blast
  have "\<exists>s. expect [''DECR'', ''k''] 2 (Integer (i64_max - 1)) s3 = Some s \<and> holds 4 (lone ?less (Some 10000)) s"
    by (rule expect_lone [OF s3(2) counter_parses(4) decr_max _ _ short_decremented]) simp_all
  then obtain s4 where s4: "expect [''DECR'', ''k''] 2 (Integer (i64_max - 1)) s3 = Some s4"
    "holds 4 (lone ?less (Some 10000)) s4" by blast
  have "\<exists>s. expect [''PTTL'', ''k''] 2 (Integer 9998) s4 = Some s \<and> holds 5 (lone ?less (Some 10000)) s"
    by (rule expect_lone [OF s4(2) counter_parses(6) overflow_specs(5)]) (simp_all add: short_replies del: encode.simps)
  then obtain s5 where s5: "expect [''PTTL'', ''k''] 2 (Integer 9998) s4 = Some s5" "holds 5 (lone ?less (Some 10000)) s5"
    by blast
  have "\<exists>s. run_args s5 [''SET'', ''k'', ?min] 3 = Some (Reply_ok, s) \<and> holds 6 (lone ?min None) s"
    by (rule run_lone [OF s5(2) counter_parses(2) overflow_specs(2)]) (simp_all add: short_replies)
  then obtain s6 where s6: "run_args s5 [''SET'', ''k'', ?min] 3 = Some (Reply_ok, s6)" "holds 6 (lone ?min None) s6" by blast
  have "\<exists>s. expect_error [''DECRBY'', ''k'', ?min] 3 s6 = Some s \<and> holds 7 (lone ?min None) s"
    by (rule refuse_lone [OF s6(2) parse_decrby_min overflow_specs(6)]) simp_all
  then obtain s7 where s7: "expect_error [''DECRBY'', ''k'', ?min] 3 s6 = Some s7" "holds 7 (lone ?min None) s7" by blast
  have "\<exists>s. expect [''GET'', ''k''] 3 (Reply_bulk ?min) s7 = Some s \<and> holds 8 (lone ?min None) s"
    by (rule expect_lone [OF s7(2) counter_parses(5) overflow_specs(4)]) (simp_all add: short_replies)
  then obtain s8 where s8: "expect [''GET'', ''k''] 3 (Reply_bulk ?min) s7 = Some s8" by blast
  show ?thesis
    unfolding counters_check_overflow_without_mutation_and_keep_expiry_def
    by (simp add: s0(1) s1(1) s2(1) s3(1) s4(1) s5(1) s6(1) s7(1) s8)
qed

text \<open>The timer test: all keys of the table have the value \<open>1\<close> and the deadline 10.\<close>

definition leased :: "bytes set \<Rightarrow> keyspace" where
  "leased K = (\<lambda>k. if k \<in> K then Some \<lparr>e_value = ''1'', e_expires = Some 10\<rparr> else None)"

lemma leased_simps [simp]:
  "dom (leased K) = K" "live 0 (leased K) = leased K" "due_keys 10 (leased K) = K" "leased K |` (- R) = leased (K - R)"
  "(leased K)(k \<mapsto> \<lparr>e_value = ''1'', e_expires = Some 10\<rparr>) = leased (insert k K)"
  by (auto simp: leased_def due_keys_def due_def live_def restrict_map_def dom_def fun_eq_iff)

lemma leased_budget:
  assumes "K \<subseteq> {''a'', ''b'', ''c''}"
  shows "within_budget test_limits (leased K)"
proof -
  have "card K \<le> card {''a'', ''b'', ''c''}" by (rule card_mono) (use assms in auto)
  moreover have "(\<Sum>k \<in> K. length k + length (e_value (the (leased K k)))) = (\<Sum>k \<in> K. 2)"
    using assms by (intro sum.cong) (auto simp: leased_def)
  ultimately show ?thesis by (simp add: within_budget_def ShardLimits_default_def)
qed

lemma leased_run:
  assumes "holds n (leased K) s" and "n < 10000" and "parse args ParseLimits_default = Some (Inr (Data op))"
    and "spec_op 0 (leased K) op = Inr (reply, leased K')" and "Operation_keys op = [k]" and "K' = insert k K"
    and "length (encode reply []) \<le> 100" and "K' \<subseteq> {''a'', ''b'', ''c''}"
  shows "\<exists>s'. map_option snd (run_args s args 0) = Some s' \<and> holds (Suc n) (leased K') s'"
proof -
  have "after_op (leased K) op (leased K') = leased K'" using assms(5,6) by (auto simp: after_op_def leased_def)
  then have "spec_execute True test_limits (leased K) op 0 = (Inr reply, leased K')"
    using spec_execute_done [of 0 "leased K" op reply "leased K'"] assms(4,7) leased_budget [OF assms(8)] by simp
  then show ?thesis
    using run_spec [OF assms(1) _ assms(3)] assms(2,5) by (fastforce simp: keys_fit_def i64_max_def u64_max_def)
qed

lemma leased_set:
  assumes "holds n (leased K) s" and "n < 10000" and "K \<subseteq> {''a'', ''b'', ''c''}" and "k \<in> {''a'', ''b'', ''c''}"
  shows "\<exists>s'. map_option snd (run_args s [''SET'', k, ''1'', ''PX'', ''10''] 0) = Some s' \<and>
    holds (Suc n) (leased (insert k K)) s'"
proof (rule leased_run [OF assms(1,2)])
  have "parse [''SET'', ''a'', ''1'', ''PX'', ''10''] ParseLimits_default = Some (Inr (Data (Set ''a'' ''1'' Always (AfterMilliseconds 10))))"
    "parse [''SET'', ''b'', ''1'', ''PX'', ''10''] ParseLimits_default = Some (Inr (Data (Set ''b'' ''1'' Always (AfterMilliseconds 10))))"
    "parse [''SET'', ''c'', ''1'', ''PX'', ''10''] ParseLimits_default = Some (Inr (Data (Set ''c'' ''1'' Always (AfterMilliseconds 10))))"
    by code_simp+
  then show "parse [''SET'', k, ''1'', ''PX'', ''10''] ParseLimits_default =
      Some (Inr (Data (Set k ''1'' Always (AfterMilliseconds 10))))"
    using assms(4) by auto
  show "length (encode Reply_ok []) \<le> 100" by (rule short_replies)
qed (use assms(3,4) in \<open>simp_all add: spec_set_def machine_defs\<close>)

lemma leased_pexpire:
  assumes "holds n (leased K) s" and "n < 10000" and "K = {''a'', ''b'', ''c''}"
  shows "\<exists>s'. map_option snd (run_args s [''PEXPIRE'', ''a'', ''10''] 0) = Some s' \<and> holds (Suc n) (leased K) s'"
proof (rule leased_run [OF assms(1,2)])
  show "parse [''PEXPIRE'', ''a'', ''10''] ParseLimits_default = Some (Inr (Data (Expire ''a'' 10)))" by code_simp
  have "leased K ''a'' = Some \<lparr>e_value = ''1'', e_expires = Some 10\<rparr>" using assms(3) by (simp add: leased_def)
  then show "spec_op 0 (leased K) (Expire ''a'' 10) = Inr (Integer 1, leased K)"
    using assms(3) by (simp add: spec_expire_def machine_defs insert_absorb)
  show "length (encode (Integer 1) []) \<le> 100" by code_simp
qed (use assms(3) in auto)

lemma leased_pexpires:
  assumes "holds n (leased K) s" and "n + length xs \<le> 10000" and "K = {''a'', ''b'', ''c''}"
  shows "\<exists>s'. for_in xs (\<lambda>_ s. map_option snd (run_args s [''PEXPIRE'', ''a'', ''10''] 0)) s = Some s' \<and>
    holds (n + length xs) (leased K) s'"
  using assms
proof (induction xs arbitrary: n s)
  case (Cons x xs)
  then obtain s1 where "map_option snd (run_args s [''PEXPIRE'', ''a'', ''10''] 0) = Some s1" "holds (Suc n) (leased K) s1"
    using leased_pexpire [of n K s] by auto
  note s1 = this
  show ?case using Cons.IH [OF s1(2)] Cons.prems(2,3) unfolding for_in.simps s1(1) by simp
qed simp

lemma leased_stats:
  assumes "holds n (leased K) s"
  shows "st_keys (Shard_stats s) = card K" and "st_expiring_keys (Shard_stats s) = card K"
    and "K = {} \<Longrightarrow> st_payload_bytes (Shard_stats s) = 0"
proof -
  have s: "shard_inv s" "table s = leased K" using assms by (simp_all add: holds_def)
  then have core: "hm_wf (entries s)" "expiry_inv (expiry s)" "timers (expiry s) = (\<lambda>k. Option.bind (leased K k) e_expires)"
    by (simp_all add: shard_inv_def shard_core_def)
  have "dom (timers (expiry s)) = K" by (auto simp: core(3) dom_def leased_def)
  then show "st_expiring_keys (Shard_stats s) = card K" using ei.count_law [OF core(2)] by (simp add: Shard_stats_def)
  show "st_keys (Shard_stats s) = card K" using hm.len_card [OF core(1)] s(2) by (simp add: Shard_stats_def)
  show "st_payload_bytes (Shard_stats s) = 0" if "K = {}" using shard_inv_payload [OF s(1)] s(2) that by (simp add: Shard_stats_def)
qed

lemma leased_expire:
  assumes "holds n (leased K) s" and "n < 10000" and "finite K"
  shows "\<exists>R s'. expire_due s 10 2 = Some (card R, s') \<and> R \<subseteq> K \<and> card R = min 2 (card K) \<and>
    holds (n + 2) (leased (K - R)) s'"
proof -
  have s: "shard_inv s" "table s = leased K" "limits s = test_limits" "revision s \<le> n" using assms by (simp_all add: holds_def)
  have "revision s + (2 - 0) \<le> u64_max" using s(4) assms(2) by (simp add: u64_max_def)
  then obtain R s' where R: "expire_loop s 10 2 0 = Some (card R, s')" "card R = min 2 (card K)" "expired_pass 10 R s s'"
    using expire_loop_ok [OF s(1), of 2 0 10] s(2) by auto
  then have "holds (n + 2) (leased (K - R)) s'" "R \<subseteq> K" using s(2-4) by (simp_all add: expired_pass_def holds_def)
  then show ?thesis unfolding expire_due_def using R(1,2) by blast
qed

lemma expiry_updates_do_not_leak_timers_and_cleanup_is_bounded_passes:
  "expiry_updates_do_not_leak_timers_and_cleanup_is_bounded = Some ()"
proof -
  let ?K = "{''a'', ''b'', ''c''}"
  obtain s0 where s0: "test_shard = Some s0" "holds 0 (leased {}) s0"
    using test_shard_holds by (auto simp: leased_def)
  obtain s1 where s1: "map_option snd (run_args s0 [''SET'', ''a'', ''1'', ''PX'', ''10''] 0) = Some s1"
    "holds 1 (leased {''a''}) s1" using leased_set [OF s0(2), of "''a''"] by auto
  obtain s2 where s2: "map_option snd (run_args s1 [''SET'', ''b'', ''1'', ''PX'', ''10''] 0) = Some s2"
    "holds 2 (leased {''a'', ''b''}) s2" using leased_set [OF s1(2), of "''b''"] by (auto simp: insert_commute numeral_2_eq_2)
  obtain s3 where s3: "map_option snd (run_args s2 [''SET'', ''c'', ''1'', ''PX'', ''10''] 0) = Some s3"
    "holds 3 (leased ?K) s3" using leased_set [OF s2(2), of "''c''"] by (auto simp: insert_commute numeral_3_eq_3)
  obtain s4 where s4: "for_in [0..<1000] (\<lambda>_ s. map_option snd (run_args s [''PEXPIRE'', ''a'', ''10''] 0)) s3 = Some s4"
    "holds 1003 (leased ?K) s4" using leased_pexpires [OF s3(2), of "[0..<1000]"] by auto
  obtain R s5 where s5: "expire_due s4 10 2 = Some (card R, s5)" "R \<subseteq> ?K" "card R = 2" "holds 1005 (leased (?K - R)) s5"
    using leased_expire [OF s4(2)] by auto
  have rest: "card (?K - R) = 1" "finite (?K - R)" using s5(2,3) finite_subset [OF s5(2)] by (auto simp: card_Diff_subset)
  obtain R' s6 where s6: "expire_due s5 10 2 = Some (card R', s6)" "R' \<subseteq> ?K - R" "card R' = 1"
    "holds 1007 (leased (?K - R - R')) s6"
    using leased_expire [OF s5(4) _ rest(2)] rest(1) by auto
  have "?K - R - R' = {}" using s6(2,3) rest card_subset_eq [OF rest(2) s6(2)] by auto
  then have "st_payload_bytes (Shard_stats s6) = 0" using leased_stats(3) [OF s6(4)] by blast
  moreover have "st_expiring_keys (Shard_stats s4) = 3" using leased_stats(2) [OF s4(2)] by simp
  moreover have "st_keys (Shard_stats s5) = 1" using leased_stats(1) [OF s5(4)] rest(1) by simp
  ultimately show ?thesis
    unfolding expiry_updates_do_not_leak_timers_and_cleanup_is_bounded_def s0(1) bind.bind_lunit for_in.simps
      s1(1) s2(1) s3(1) s4(1) s5(1) s5(3) by (simp add: s5(3) s6(1,3))
qed

end
