(* ===== verification/Unit_Tests_Server.thy ===== *)
theory Unit_Tests_Server
  imports Unit_Tests_Core Env_Settings
begin

section \<open>The unit tests of the configuration and the settings\<close>

text \<open>
  The tests of recall-server/src/config.rs and settings.rs, as in \<open>Unit_Tests_Core\<close>. \<open>Config::default\<close> asks the
  machine for its number of processors, so the tests that use it are proved for every answer.
\<close>

subsection \<open>Configuration (recall-server/src/config.rs)\<close>

definition rejects_public_binds_even_with_a_password :: "nat option \<Rightarrow> unit option" where
  "rejects_public_binds_even_with_a_password cpus = do {
     addr \<leftarrow> parse_socket_addr (ascii ''0.0.0.0:6379'');
     let config = (Config_default cpus)\<lparr>bind_addr := addr, password := Some ''secret''\<rparr>;
     assert_that (is_err (validate config))
   }"

definition apportions_payload_budget_without_losing_remainder :: "nat option \<Rightarrow> unit option" where
  "apportions_payload_budget_without_losing_remainder cpus = do {
     let config = (Config_default cpus)\<lparr>workers := 3, cfg_max_payload_bytes := 100\<rparr>;
     assert_that (sum_list (map (\<lambda>owner. max_payload_bytes (shard_limits config owner)) [0..<3]) = 100)
   }"

lemma public_address: "parse_socket_addr (ascii ''0.0.0.0:6379'') = Some \<lparr>ip = V4 0 0 0 0, port = 6379\<rparr>"
  by code_simp

lemma config_tests_pass:
  "rejects_public_binds_even_with_a_password cpus = Some ()"
  "apportions_payload_budget_without_losing_remainder cpus = Some ()"
  by (simp_all add: rejects_public_binds_even_with_a_password_def apportions_payload_budget_without_losing_remainder_def
      public_address Config_default_def Let_def validate_def is_err_def shard_limits_def upt_rec)

subsection \<open>Settings (recall-server/src/settings.rs)\<close>

definition precedence_is_arguments_then_environment_then_file_then_defaults :: "nat option \<Rightarrow> unit option" where
  "precedence_is_arguments_then_environment_then_file_then_defaults cpus = do {
     file \<leftarrow> unwrap (parse_values (ascii ''RECALL_WORKERS=1'' @ [10] @ ascii ''RECALL_IO_THREADS=1'' @ [10] @
       ascii ''RECALL_MAX_CONNECTIONS=10''));
     process \<leftarrow> unwrap (parse_values (ascii ''RECALL_WORKERS=2'' @ [10] @ ascii ''RECALL_IO_THREADS=2''));
     args \<leftarrow> unwrap (parse_values (ascii ''RECALL_WORKERS=3''));
     config \<leftarrow> unwrap (from_sources cpus file process args);
     assert_that (workers config = 3);
     assert_that (io_threads config = 2);
     assert_that (max_connections config = 10);
     assert_that (queue_capacity config = queue_capacity (Config_default cpus))
   }"

definition parsing_is_literal_and_supports_utf8_bom_crlf_and_quotes :: "unit option" where
  "parsing_is_literal_and_supports_utf8_bom_crlf_and_quotes = do {
     vals \<leftarrow> unwrap (parse_values ([0xFEFF] @ ascii ''# comment'' @ [13, 10] @
       ascii ''RECALL_PASSWORD='' @ [39] @ ascii ''a $HOME # literal'' @ [39, 13, 10] @ ascii ''RECALL_WORKERS=2'' @ [13, 10]));
     v \<leftarrow> map_of vals (ascii ''RECALL_PASSWORD'');
     assert_that (v = ascii ''a $HOME # literal'');
     v \<leftarrow> map_of vals (ascii ''RECALL_WORKERS'');
     assert_that (v = ascii ''2'')
   }"

text \<open>\<open>str::contains\<close>.\<close>

definition contains :: "bytes \<Rightarrow> bytes \<Rightarrow> bool" where
  "contains s t \<longleftrightarrow> list_ex (\<lambda>i. take (length t) (drop i s) = t) [0..<Suc (length s)]"

definition unwrap_err :: "'e + 'a \<Rightarrow> 'e option" where
  "unwrap_err r = (case r of Inl e \<Rightarrow> Some e | Inr _ \<Rightarrow> None)"

definition invalid_files_are_rejected_without_leaking_values :: "unit option" where
  "invalid_files_are_rejected_without_leaking_values = do {
     for_in [ascii ''RECALL_PASSWORD='' @ [39] @ ascii ''sensitive'',
       ascii ''RECALL_PASSWORD=sensitive'' @ [10] @ ascii ''RECALL_PASSWORD=other'',
       ascii ''export RECALL_PASSWORD=sensitive'', ascii ''RECALL_UNKNOWN=sensitive'',
       ascii ''RECALL_PASSWORD=sensitive'' @ [0]] (\<lambda>input _. do {
       error \<leftarrow> unwrap_err (parse_values input);
       assert_that (\<not> contains error ''sensitive'')
     }) ();
     assert_that (is_err (read_values (replicate (MAX_ENV_BYTES + 1) (CHR ''x''))));
     assert_that (is_err (read_values [CHR 0xFF]))
   }"

definition loader_preserves_security_and_password_validation :: "nat option \<Rightarrow> unit option" where
  "loader_preserves_security_and_password_validation cpus =
     for_in [''RECALL_BIND=0.0.0.0:6379'', ''RECALL_PASSWORD='', ''RECALL_WORKERS=0'',
       ''RECALL_MAX_MEMORY_MIB=999999999999999999999999999''] (\<lambda>input _. do {
       vals \<leftarrow> unwrap (parse_values (ascii input));
       assert_that (is_err (from_sources cpus vals [] []))
     }) ()"

definition environment_file_selection_is_explicit :: "unit option" where
  "environment_file_selection_is_explicit = do {
     options \<leftarrow> unwrap (parse_options [ascii ''--no-env-file'', ascii ''--workers'', ascii ''2'']);
     assert_that (env_file options = None);
     v \<leftarrow> map_of (opt_values options) (ascii ''RECALL_WORKERS'');
     assert_that (v = ascii ''2'');
     options \<leftarrow> unwrap (parse_options [ascii ''--env-file'', ascii ''local.env'']);
     assert_that (explicit_file options);
     assert_that (is_err (parse_options [ascii ''--no-env-file'', ascii ''--env-file'', ascii ''local.env'']));
     assert_that (is_err (parse_options [ascii ''--env-file'']))
   }"

lemma precedence_passes: "precedence_is_arguments_then_environment_then_file_then_defaults cpus = Some ()"
  by code_simp

lemma literal_passes: "parsing_is_literal_and_supports_utf8_bom_crlf_and_quotes = Some ()"
  by code_simp

lemma explicit_passes: "environment_file_selection_is_explicit = Some ()"
  by code_simp

text \<open>The loader's error does not depend on the other settings.\<close>

lemma loaded_values:
  "parse_values (ascii ''RECALL_BIND=0.0.0.0:6379'') = Inr [(ascii ''RECALL_BIND'', ascii ''0.0.0.0:6379'')]"
  "parse_values (ascii ''RECALL_PASSWORD='') = Inr [(ascii ''RECALL_PASSWORD'', [])]"
  "parse_values (ascii ''RECALL_WORKERS=0'') = Inr [(ascii ''RECALL_WORKERS'', ascii ''0'')]"
  "parse_values (ascii ''RECALL_MAX_MEMORY_MIB=999999999999999999999999999'') =
    Inr [(ascii ''RECALL_MAX_MEMORY_MIB'', ascii ''999999999999999999999999999'')]"
  by code_simp+

lemma applied_bind:
  "apply_settings [(ascii ''RECALL_BIND'', ascii ''0.0.0.0:6379'')] c = Inr (c\<lparr>bind_addr := \<lparr>ip = V4 0 0 0 0, port = 6379\<rparr>\<rparr>)"
  by (simp add: apply_setting_def public_address)

lemma applied_password: "apply_settings [(ascii ''RECALL_PASSWORD'', [])] c = Inr (c\<lparr>password := Some []\<rparr>)"
  by code_simp

lemma applied_workers: "apply_settings [(ascii ''RECALL_WORKERS'', ascii ''0'')] c = Inr (c\<lparr>workers := 0\<rparr>)"
proof -
  have "number (ascii ''RECALL_WORKERS'') (ascii ''0'') = Inr 0" by code_simp
  moreover have "ascii ''RECALL_WORKERS'' \<noteq> ascii ''RECALL_BIND''" by code_simp
  ultimately show ?thesis by (simp add: apply_setting_def)
qed

lemma applied_memory:
  "is_err (apply_settings [(ascii ''RECALL_MAX_MEMORY_MIB'', ascii ''999999999999999999999999999'')] c)"
  by code_simp

lemma rejected_settings:
  "is_err (validate (c\<lparr>bind_addr := \<lparr>ip = V4 0 0 0 0, port = 6379\<rparr>\<rparr>))"
  "is_err (validate (c\<lparr>password := Some []\<rparr>))"
  "is_err (validate (c\<lparr>workers := 0\<rparr>))"
  by (simp_all add: validate_def is_err_def split: sum.splits)

lemma from_sources_err:
  "apply_settings vals (Config_default cpus) = Inr c \<Longrightarrow> is_err (validate c) \<Longrightarrow> is_err (from_sources cpus vals [] [])"
  "is_err (apply_settings vals (Config_default cpus)) \<Longrightarrow> is_err (from_sources cpus vals [] [])"
  by (auto simp: from_sources_def is_err_def split: sum.splits)

lemma loader_passes: "loader_preserves_security_and_password_validation cpus = Some ()"
  by (simp add: loader_preserves_security_and_password_validation_def loaded_values
      from_sources_err(1) [OF applied_bind rejected_settings(1)]
      from_sources_err(1) [OF applied_password rejected_settings(2)]
      from_sources_err(1) [OF applied_workers rejected_settings(3)]
      from_sources_err(2) [OF applied_memory])

lemma oversized_file: "is_err (read_values (replicate (MAX_ENV_BYTES + 1) c))"
  by (simp add: read_values_def is_err_def)

lemma invalid_files:
  "list_all (\<lambda>input. case parse_values input of Inl e \<Rightarrow> \<not> contains e ''sensitive'' | Inr _ \<Rightarrow> False)
     [ascii ''RECALL_PASSWORD='' @ [39] @ ascii ''sensitive'',
       ascii ''RECALL_PASSWORD=sensitive'' @ [10] @ ascii ''RECALL_PASSWORD=other'',
       ascii ''export RECALL_PASSWORD=sensitive'', ascii ''RECALL_UNKNOWN=sensitive'',
       ascii ''RECALL_PASSWORD=sensitive'' @ [0]]"
  "is_err (read_values [CHR 0xFF])"
  by code_simp+

lemma for_in_errors:
  assumes "list_all (\<lambda>input. case f input of Inl e \<Rightarrow> P e | Inr _ \<Rightarrow> False) inputs"
  shows "for_in inputs (\<lambda>input _. do { error \<leftarrow> unwrap_err (f input); assert_that (P error) }) () = Some ()"
  by (rule for_in_unit) (use assms in \<open>auto simp: list_all_iff unwrap_err_def split: sum.splits\<close>)

lemma invalid_passes: "invalid_files_are_rejected_without_leaking_values = Some ()"
  unfolding invalid_files_are_rejected_without_leaking_values_def for_in_errors [OF invalid_files(1)]
  by (simp add: oversized_file [simplified] invalid_files(2))

end
