(* ===== verification/Unit_Tests_Engine.thy ===== *)
theory Unit_Tests_Engine
  imports Engine_Runs Unit_Tests_Core
begin

section \<open>The unit tests of the engine (recall-server/src/engine.rs)\<close>

text \<open>
  The tests of the engine that follow one client, on the executable schedules of \<open>Engine_Runs\<close>. Where a test
  awaits, the runtime polls senders, owners and coordinator in turn until the awaited reply is there; a
  command whose queue stays full runs into its admission deadline; the shutdown that ends every test is
  \<open>engine_shutdown_completes\<close> in \<open>Engine_Drain\<close>. Forty rounds are enough, since running out of them
  fails the test. The hash function of
  the tests is the length of the key; the two tests with concurrent clients are theorems about all runs, in
  \<open>Engine_Workloads\<close>.
\<close>

definition test_config :: Config where
  "test_config = (Config_default (Some 4))\<lparr>workers := 2, keys_per_worker := 128, cfg_max_payload_bytes := 1024 * 1024\<rparr>"

definition different_keys :: "Config \<Rightarrow> hasher \<Rightarrow> (bytes \<times> bytes) option" where
  "different_keys c hash =
     map_option (\<lambda>index. (''first'', ''second-'' @ nat_to_string index))
       (List.find (\<lambda>index. route hash (workers c) ''first'' \<noteq> route hash (workers c) (''second-'' @ nat_to_string index)) [0..<1000])"

text \<open>One round of the runtime: whoever can take a step does.\<close>

definition poll :: "Config \<Rightarrow> Action \<Rightarrow> Engine \<Rightarrow> Engine" where
  "poll c a e = (case act c demo_hash a e of Some e' \<Rightarrow> e' | None \<Rightarrow> e)"

definition poll_all :: "Config \<Rightarrow> Engine \<Rightarrow> Engine" where
  "poll_all c e = fold (poll c) [Hand, Coordinate 0, Turn 0 0 False, Turn 0 0 False, Turn 1 0 False, Turn 1 0 False, Coordinate 0] e"

definition reply_to :: "nat \<Rightarrow> Engine \<Rightarrow> Reply option" where
  "reply_to client e = map_option snd (List.find (\<lambda>(rq, reply). rq_client rq = client) (en_answered e))"

fun await_reply :: "nat \<Rightarrow> Config \<Rightarrow> nat \<Rightarrow> Engine \<Rightarrow> (Reply \<times> Engine) option" where
  "await_reply 0 c client e = None"
| "await_reply (Suc rounds) c client e =
     (case reply_to client e of
        Some reply \<Rightarrow> Some (reply, e)
      | None \<Rightarrow> await_reply rounds c client (poll_all c e))"

definition handle_execute :: "Config \<Rightarrow> nat \<Rightarrow> Operation \<Rightarrow> Engine \<Rightarrow> (Reply \<times> Engine) option" where
  "handle_execute c client op e =
     (case admission c demo_hash (en_closing e) op of
        Rejected reply \<Rightarrow> Some (reply, e)
      | Admitted target credit \<Rightarrow>
          let rq = \<lparr>rq_client = client, rq_operation = op, rq_credit = credit\<rparr> in do {
            e \<leftarrow> act c demo_hash (Submit rq) e;
            if target_full c target e
            then Some (Reply_error ''BUSY admission queue deadline exceeded'', give_back target credit (e\<lparr>en_sending := []\<rparr>))
            else await_reply 40 c client e
          })"

definition expect_reply :: "Config \<Rightarrow> nat \<Rightarrow> Operation \<Rightarrow> Reply \<Rightarrow> Engine \<Rightarrow> Engine option" where
  "expect_reply c client op reply e = do {
     (r, e) \<leftarrow> handle_execute c client op e;
     assert_that (r = reply);
     Some e
   }"

text \<open>\<open>control\<close> and \<open>completed\<close>: a message to an owner and the wait for its completion.\<close>

definition control_completed :: "Config \<Rightarrow> nat \<Rightarrow> Control \<Rightarrow> Engine \<Rightarrow> Engine option" where
  "control_completed c owner msg e = do {
     let e = poll c (Turn owner 0 False) (poll c (Turn owner 0 False) (push_control owner msg e));
     assert_that (en_completion e = Some Done);
     Some (e\<lparr>en_completion := None\<rparr>)
   }"

definition participant_capacity_failure_aborts_all_requested_writes :: "unit option" where
  "participant_capacity_failure_aborts_all_requested_writes = do {
     let c = test_config\<lparr>cfg_max_payload_bytes := 128\<rparr>;
     e \<leftarrow> unwrap (with_clock granting c);
     (a, b) \<leftarrow> different_keys c demo_hash;
     e \<leftarrow> expect_reply c 1 (Set a ''old'' Always Clear) Reply_ok e;
     (reply, e) \<leftarrow> handle_execute c 2 (MultiSet [(a, ''new''), (b, replicate 100 (CHR 0x00))]) e;
     assert_that (case reply of Error _ \<Rightarrow> True | _ \<Rightarrow> False);
     e \<leftarrow> expect_reply c 3 (Get a) (Reply_bulk ''old'') e;
     e \<leftarrow> expect_reply c 4 (Get b) (Bulk None) e;
     Some ()
   }"

definition unrelated_owner_progresses_during_a_reservation :: "unit option" where
  "unrelated_owner_progresses_during_a_reservation = do {
     let c = test_config;
     e \<leftarrow> unwrap (with_clock granting c);
     (a, b) \<leftarrow> different_keys c demo_hash;
     let owner = route demo_hash (workers c) a;
     e \<leftarrow> control_completed c owner (Reserve 999) e;
     e \<leftarrow> expect_reply c 1 (Increment b 1 False) (Integer 1) e;
     e \<leftarrow> control_completed c owner (Release 999) e;
     Some ()
   }"

definition dropped_cross_command_receiver_does_not_strand_reservations :: "unit option" where
  "dropped_cross_command_receiver_does_not_strand_reservations = do {
     let c = test_config;
     e \<leftarrow> unwrap (with_clock granting c);
     (a, b) \<leftarrow> different_keys c demo_hash;
     let e = enqueue None \<lparr>rq_client = 1, rq_operation = MultiSet [(a, ''1''), (b, ''1'')], rq_credit = 512\<rparr> (take_credit None 512 e);
     e \<leftarrow> expect_reply c 2 (MultiGet [a, b]) (Array [Reply_bulk ''1'', Reply_bulk ''1'']) e;
     Some ()
   }"

definition full_data_queue_does_not_block_control_release_or_leak_byte_credits :: "unit option" where
  "full_data_queue_does_not_block_control_release_or_leak_byte_credits = do {
     let c = test_config\<lparr>queue_capacity := 1, admission_timeout := 20\<rparr>;
     e \<leftarrow> unwrap (with_clock granting c);
     let key = ''blocked'';
     let owner = route demo_hash (workers c) key;
     e \<leftarrow> control_completed c owner (Reserve 999) e;
     let e = enqueue (Some owner) \<lparr>rq_client = 1, rq_operation = Increment key 1 False, rq_credit = 512\<rparr>
       (take_credit (Some owner) 512 e);
     (denied, e) \<leftarrow> handle_execute c 2 (Increment key 100 False) e;
     assert_that (case denied of Error _ \<Rightarrow> True | _ \<Rightarrow> False);
     e \<leftarrow> control_completed c owner (Release 999) e;
     (result, e) \<leftarrow> await_reply 40 c 1 e;
     assert_that (result = Integer 1);
     e \<leftarrow> expect_reply c 3 (Get key) (Reply_bulk ''1'') e;
     let e = poll c (Turn owner 0 False) (poll c (Turn owner 0 False) (push_control owner (Stats 4) e));
     assert_that (map fst (en_stats e) = [4]);
     assert_that (available (Some owner) e = queue_bytes c)
   }"

lemma capacity_failure_passes: "participant_capacity_failure_aborts_all_requested_writes = Some ()"
  by code_simp

lemma unrelated_owner_passes: "unrelated_owner_progresses_during_a_reservation = Some ()"
  by code_simp

lemma dropped_receiver_passes: "dropped_cross_command_receiver_does_not_strand_reservations = Some ()"
  by code_simp

lemma full_queue_passes: "full_data_queue_does_not_block_control_release_or_leak_byte_credits = Some ()"
  by code_simp

end
