(* ===== verification/Spec2Isabelle.thy ===== *)
theory Spec2Isabelle
  imports Reply_Types Engine_Workloads Engine_Drain Store_Over_Wire Server_Main
    Unit_Tests_Store Unit_Tests_Server Unit_Tests_Engine
begin

section \<open>Recall: a verified model of a multithreaded in-memory cache server\<close>

text \<open>
  \<^bold>\<open>The program.\<close> Recall (src/crates) stores byte strings in memory and serves them over TCP in the
  RESP2 protocol. A connection decodes requests incrementally, parses commands and hands them to its
  session; the session authenticates the client and calls the engine; the engine routes keys to owner
  threads, each of which owns one shard of the keyspace; a command whose keys live on several owners
  is run by a coordinator, which reserves the owners, lets each prepare its part at one common time,
  applies all parts, and releases the owners. Shards remove expired keys with an indexed heap of timers.

  \<^bold>\<open>Theories and sources\<close>, in the order of the dependencies:

  \<^item> \<open>Recall_Prelude\<close>: Rust's vocabulary (bytes, checked, saturating and wrapping integers, slices, decimal text)
    and hash maps with their interface \<open>hash_map\<close>. A panic is \<open>None\<close>, a \<open>Result\<close> a sum.
  \<^item> \<open>Expiry_Index\<close> (recall-core/src/expiry.rs): the binary heap with its position table; the locale
    \<open>timer_index\<close> is what the store relies on, interpreted on \<open>ExpiryIndex_set\<close>, \<open>_remove\<close> and \<open>_expired\<close>.
  \<^item> \<open>Resp_Protocol\<close>, \<open>Resp_Encoding\<close>, \<open>Resp_Decoding\<close> (recall-protocol/src/lib.rs): limits, the resumable
    decoder and the encoder; the grammar \<open>resp_frame\<close>, with lengths in decimal (\<open>decimal_value\<close>), is the reference
    for what a request is.
  \<^item> \<open>Command_Parser\<close>, \<open>Command_Props\<close> (recall-core/src/command.rs): operations, every arm of \<open>parse\<close>, the
    command table and the replies of \<open>COMMAND\<close>.
  \<^item> \<open>Shard_Store\<close> (recall-core/src/store.rs): prepare, preflight, apply and expiration of a shard.
    \<open>Keyspace_Spec\<close> says what the data commands mean on a map of live entries; \<open>Shard_Props\<close> and
    \<open>Shard_Correctness\<close> prove that the shard refines it, with its budgets and counters.
  \<^item> \<open>Server_Config\<close> (recall-server/src/config.rs): configuration, validation, the owners' share.
  \<^item> \<open>Owner_Loop\<close>, \<open>Cross_Owner\<close>, \<open>Engine_System\<close> (recall-server/src/engine.rs): one turn of \<open>owner_loop\<close>
    and \<open>execute_local\<close>; \<open>split\<close>, \<open>combine\<close> and \<open>route\<close>; admission, channels, credits, coordinator, statistics and
    shutdown as the step relation \<open>engine_step\<close> on the record \<open>Engine\<close>.
  \<^item> \<open>Transition_System\<close>, \<open>Serial_Spec\<close>: reachability and the locales \<open>invariant_system\<close>,
    \<open>layered_invariant\<close>, \<open>ranked_system\<close> and \<open>serial_system\<close>; \<open>atomic_step\<close> and \<open>serial\<close> are the specification of the
    engine, one keyspace on which commands run one at a time.
  \<^item> \<open>Engine_Invariant\<close>, \<open>Engine_Atomicity\<close>, \<open>Engine_Runs\<close>, \<open>Engine_Safety\<close>, \<open>Engine_Credits\<close>: the
    invariant of the coordination protocol, linearizability, absence of panics and conservation of byte
    credits. \<open>Engine_Runs\<close> has executable schedules for examples.
  \<^item> \<open>Engine_Accounting\<close>, \<open>Engine_Progress\<close>, \<open>Engine_Drain\<close>: the account of submitted, held and answered
    commands; the steps of the engine divided into internal and external ones; a rank that every internal
    step lowers, and the states in which none is left. The locale \<open>ranked_system\<close> is interpreted on them.
  \<^item> \<open>Engine_Workloads\<close>: what concurrent clients see of counters and of keys that are written together, in all runs.
  \<^item> \<open>Engine_Calls\<close>: a call of \<open>EngineHandle::execute\<close> as a stretch of engine steps in which its command is submitted
    and answered (locale \<open>engine_calls\<close>), interpreted on calls that drive the engine round robin.
  \<^item> \<open>Client_Session\<close> (recall-server/src/session.rs): authentication, session commands, \<open>HELLO\<close> and \<open>INFO\<close>.
  \<^item> \<open>Net_Connection\<close>, \<open>Net_Server\<close> (recall-server/src/lib.rs): reading, answering and writing over scripts of
    network events; accepting, limiting and joining connections, and shutdown, as \<open>server_event\<close>.
  \<^item> \<open>Reply_Types\<close>: the typing discipline of replies, from parser, store and coordinator to the connection; the
    locale \<open>wf_service\<close> is what a session relies on, and \<open>engine_calls\<close> provides it.
  \<^item> \<open>Rust_Text\<close>, \<open>Env_Settings\<close> (recall-server/src/settings.rs): text of the standard library (UTF-8, \<open>str\<close>,
    ordered maps, socket addresses); options, environment and environment file.
  \<^item> \<open>Store_Over_Wire\<close>: the layers together, from the bytes of a client to the engine with all its threads and other
    clients, through \<open>engine_calls\<close>.
  \<^item> \<open>Server_Main\<close> (recall-server/src/main.rs): from the command line to the exit code.
  \<^item> \<open>Unit_Tests_Core\<close>, \<open>Unit_Tests_Store\<close>, \<open>Unit_Tests_Server\<close>, \<open>Unit_Tests_Engine\<close>: the unit tests beside the code, as
    computations that pass on the model; they check the definitions against what the authors expect of the code.

  \<^bold>\<open>State and steps.\<close> Structs are records and enums datatypes with the source's names (a prefix where a
  name clashes). The engine is one record: owners with their shard, queues and reservation, the position
  of the coordinator, the channels, the credits, and what clients have submitted and been answered. A
  step is a turn of an owner, of the coordinator or of a client between two \<open>await\<close> points; any
  interleaving of them is a run. Time, the hash function and the allocator's answers are arbitrary in
  every step.

  \<^bold>\<open>What the theorems show.\<close>

  \<^item> The engine: every run is a serial run of the commands on one keyspace, each step is atomic, neither
    owners nor coordinator panic (given room in the counters below), every command is answered exactly once, the work of any run is bounded
    by what came from outside, under every schedule the queues drain and the shutdown completes, queued
    work is not starved, a reserved owner is isolated, credits are conserved, splitting and combining is exact,
    counters lose no update and no reader sees half of a write.
  \<^item> The store: the exact outcome of every command, refinement of the keyspace, exact accounting,
    the expiration pass, single use of preparations, and independence of the iteration order of hash
    maps; the heap implements a map with a least deadline.
  \<^item> The protocol: the decoder accepts exactly the grammar however the input is cut, within the limits
    and without panics; encoded lengths are exact and replies uniquely decodable.
  \<^item> The commands: total parsing, limits, canonical integers, metadata that agree with the operations.
  \<^item> The server: pipelined requests are answered in order, connections end without panics and buffer at
    most a frame, a connection that is told to stop ends, authentication is exact, the connection limit
    holds, what is stored is read back through all layers, and what is written is one list of well-formed
    replies, with a beginning of one more only if a write failed.
  \<^item> Configuration: budgets are apportioned without loss, settings have their documented precedence,
    environment files are literal, diagnostics reveal no values, only loopback addresses are served.

  \<^bold>\<open>Bounds.\<close> No definition of the program needs fuel; the tests of the engine poll it for at most forty rounds, and
  passing them shows that this is enough. \<open>driven_call\<close> drives the engine for a number of rounds and, like the
  program at its admission deadline, answers that the command was not admitted if it has no reply then. Loops over a cursor (\<open>decode\<close>, \<open>header_end\<close>), over the script of a
  connection (\<open>next_request\<close>, \<open>connection\<close>) and over arguments end by measures on the bytes and events
  that are left; the heap's loops by the distance to the root or the leaves. A shard's revision
  counter is a checked \<open>u64\<close>: theorems that exclude panics ask for room in it, and
  \<open>roomy\<close> in \<open>Engine_Drain\<close> says how much of it, and of the coordinator's identities, the work that is left can use.
  The coordinator's identities, one per command over several owners, run out after \<open>2 ^ 64\<close> commands, where the program
  aborts; no theorem excludes this. The sum of the owners' counts in \<open>combine\<close> is checked in the model, as in a
  build with overflow checks (without them it would wrap); \<open>coordinator_never_fails\<close> shows that it never overflows.
  Liveness is stated for all schedules: each internal step lowers a rank, so a run without further events
  from outside is finite, and the theorems say what holds when no internal step is left. It is not
  assumed that a deadline or a timer ever fires.

  \<^bold>\<open>Parameters.\<close> The hash function of \<open>RandomState\<close>, the allocator, the clock and the constant-time
  comparison of the \<open>subtle\<close> crate (true exactly on equal slices) are arguments. Tokio's tasks, channels,
  semaphores and sockets appear as interleaved steps over lists and counters and as scripts of events.

  \<^bold>\<open>Not modelled.\<close> The runtime and its threads, sockets, the registration of signal handlers with the operating
  system (its outcome is data, a signal an event) and the variant of \<open>shutdown_signal\<close> for other systems than Unix,
  the integration tests and the tools. Timeouts are events that may occur at any time, not durations. A
  write that fails or times out leaves any number of bytes of its reply on the socket; the bytes of a write that is
  still in progress are counted when it ends. \<open>Server::run\<close>, its connections and the engine are not one transition
  system: that \<open>run\<close> joins every connection before it shuts the engine down is the order of the events in \<open>server_event\<close>.
\<close>

end
